(* ===== verification/Prelude.thy ===== *)
theory Prelude
  imports Main "HOL-Library.Word" "HOL-Library.Multiset"
begin

text \<open>
  Shared vocabulary of the development.

  \<^item> Python exceptions as values: \<^verbatim>\<open>py_error\<close>, the result type \<^verbatim>\<open>'a result\<close>, its bind
    \<^verbatim>\<open>bindE\<close> and the loop combinator \<^verbatim>\<open>foldE\<close> (a \<^verbatim>\<open>for\<close> loop whose body may raise).
  \<^item> Python integers: \<^verbatim>\<open>//\<close> and \<^verbatim>\<open>%\<close> are \<^verbatim>\<open>div\<close> and \<^verbatim>\<open>mod\<close> on \<^verbatim>\<open>int\<close> (both round towards minus
    infinity), and the helpers of \<^verbatim>\<open>vllm/utils/math_utils.py\<close>.
  \<^item> List lemmas on \<^verbatim>\<open>takeWhile\<close>, \<^verbatim>\<open>distinct\<close> and counting that the components share.
\<close>

section \<open>Named collections\<close>

named_theorems result_simps \<open>evaluation of binds and error folds\<close>
named_theorems heap_simps \<open>reads after writes of a store\<close>

section \<open>Exceptions as values\<close>

datatype py_error =
    AssertionError
  | ValueError
  | RuntimeError
  | IndexError
  | KeyError
  | TypeError
  | NameError
  | OverflowError
  | NotImplementedError
  | StopIteration

type_synonym 'a result = "py_error + 'a"

type_synonym bytes = "8 word list"

definition bindE :: "'a result \<Rightarrow> ('a \<Rightarrow> 'b result) \<Rightarrow> 'b result" where
  "bindE m f = (case m of Inl e \<Rightarrow> Inl e | Inr x \<Rightarrow> f x)"

lemma bindE_simps [simp, result_simps]:
  "bindE (Inl e) f = Inl e"
  "bindE (Inr x) f = f x"
  by (simp_all add: bindE_def)

lemma bindE_cong [fundef_cong]:
  "m = m' \<Longrightarrow> (\<And>x. m' = Inr x \<Longrightarrow> f x = f' x) \<Longrightarrow> bindE m f = bindE m' f'"
  by (auto simp: bindE_def split: sum.splits)

lemma bindE_eq_Inr [result_simps]:
  "bindE m f = Inr y \<longleftrightarrow> (\<exists>x. m = Inr x \<and> f x = Inr y)"
  by (auto simp: bindE_def split: sum.splits)

lemma bindE_eq_Inl [result_simps]:
  "bindE m f = Inl e \<longleftrightarrow> m = Inl e \<or> (\<exists>x. m = Inr x \<and> f x = Inl e)"
  by (auto simp: bindE_def split: sum.splits)

definition of_option :: "py_error \<Rightarrow> 'a option \<Rightarrow> 'a result" where
  "of_option e x = (case x of None \<Rightarrow> Inl e | Some y \<Rightarrow> Inr y)"

lemma of_option_simps [simp, result_simps]:
  "of_option e None = Inl e"
  "of_option e (Some y) = Inr y"
  by (simp_all add: of_option_def)

text \<open>A \<^verbatim>\<open>for\<close> loop over a list, its state passed along and its body allowed to raise.\<close>

primrec foldE :: "('a \<Rightarrow> 's \<Rightarrow> 's result) \<Rightarrow> 'a list \<Rightarrow> 's \<Rightarrow> 's result" where
  "foldE f [] s = Inr s"
| "foldE f (x # xs) s = bindE (f x s) (foldE f xs)"

text \<open>A list comprehension whose element expression may raise.\<close>

primrec mapE :: "('a \<Rightarrow> 'b result) \<Rightarrow> 'a list \<Rightarrow> 'b list result" where
  "mapE f [] = Inr []"
| "mapE f (x # xs) = bindE (f x) (\<lambda>y. bindE (mapE f xs) (\<lambda>ys. Inr (y # ys)))"

lemma mapE_Inr: "(\<And>x. x \<in> set xs \<Longrightarrow> f x = Inr (g x)) \<Longrightarrow> mapE f xs = Inr (map g xs)"
  by (induction xs) auto

lemma foldE_append [result_simps]:
  "foldE f (xs @ ys) s = bindE (foldE f xs s) (foldE f ys)"
  by (induction xs arbitrary: s) (auto simp: bindE_def split: sum.splits)

lemma foldE_invariant:
  assumes "foldE f xs s = Inr s'" and "P s"
    and "\<And>x t t'. x \<in> set xs \<Longrightarrow> P t \<Longrightarrow> f x t = Inr t' \<Longrightarrow> P t'"
  shows "P s'"
  using assms
proof (induction xs arbitrary: s)
  case (Cons x xs)
  then obtain t where "f x s = Inr t" "foldE f xs t = Inr s'"
    by (auto simp: result_simps)
  with Cons show ?case by (meson list.set_intros)
qed simp

lemma foldE_total:
  assumes "P s" and "\<And>x t. x \<in> set xs \<Longrightarrow> P t \<Longrightarrow> \<exists>t'. f x t = Inr t' \<and> P t'"
  shows "\<exists>s'. foldE f xs s = Inr s' \<and> P s'"
  using assms
proof (induction xs arbitrary: s)
  case (Cons x xs)
  then obtain t where "f x s = Inr t" "P t" by (meson list.set_intros)
  with Cons show ?case by simp
qed simp

lemma foldE_cong [fundef_cong]:
  "xs = ys \<Longrightarrow> s = t \<Longrightarrow> (\<And>x u. x \<in> set ys \<Longrightarrow> f x u = g x u) \<Longrightarrow> foldE f xs s = foldE g ys t"
proof (induction xs arbitrary: ys s t)
  case (Cons x xs)
  then have "f x t = g x t" "foldE f xs = foldE g xs" by (auto intro!: ext)
  with Cons.prems show ?case by auto
qed simp

section \<open>Python integers\<close>

text \<open>\<^verbatim>\<open>vllm/utils/math_utils.py\<close>: \<^verbatim>\<open>cdiv\<close>, \<^verbatim>\<open>round_up\<close>, \<^verbatim>\<open>round_down\<close>.\<close>

definition cdiv :: "int \<Rightarrow> int \<Rightarrow> int" where
  "cdiv a b = - (a div (- b))"

definition round_up :: "int \<Rightarrow> int \<Rightarrow> int" where
  "round_up x y = ((x + y - 1) div y) * y"

definition round_down :: "int \<Rightarrow> int \<Rightarrow> int" where
  "round_down x y = (x div y) * y"

lemma cdiv_bounds:
  assumes "0 < b"
  shows "a \<le> cdiv a b * b" "cdiv a b * b < a + b"
proof -
  have "cdiv a b = - ((- a) div b)" by (simp add: cdiv_def div_minus_right)
  moreover have "(- a) div b * b \<le> - a" "- a < (- a) div b * b + b"
    using assms by (simp_all add: minus_mod_eq_div_mult [symmetric])
  ultimately show "a \<le> cdiv a b * b" "cdiv a b * b < a + b" by simp_all
qed

lemma cdiv_le_iff:
  assumes "0 < b"
  shows "cdiv a b \<le> k \<longleftrightarrow> a \<le> k * b"
proof
  assume "cdiv a b \<le> k"
  then have "cdiv a b * b \<le> k * b" using assms by (simp add: mult_right_mono)
  then show "a \<le> k * b" using cdiv_bounds(1) [OF assms, of a] by simp
next
  assume "a \<le> k * b"
  then have "cdiv a b * b < (k + 1) * b" using cdiv_bounds(2) [OF assms, of a] by (simp add: algebra_simps)
  then show "cdiv a b \<le> k" using assms by (simp add: mult_less_cancel_right)
qed

lemma cdiv_less_iff: "0 < b \<Longrightarrow> k < cdiv a b \<longleftrightarrow> k * b < a"
  using cdiv_le_iff [of b a k] by linarith

lemma cdiv_nonneg: "0 < b \<Longrightarrow> 0 \<le> a \<Longrightarrow> 0 \<le> cdiv a b"
  using cdiv_less_iff [of b "-1" a] by simp

lemma cdiv_mono: "0 < b \<Longrightarrow> a \<le> a' \<Longrightarrow> cdiv a b \<le> cdiv a' b"
  by (simp add: cdiv_le_iff) (meson cdiv_bounds(1) order_trans)

lemma le_div_iff:
  assumes "0 < (b :: int)"
  shows "k \<le> a div b \<longleftrightarrow> k * b \<le> a"
proof
  assume "k \<le> a div b"
  then have "k * b \<le> a div b * b" using assms by (simp add: mult_right_mono)
  moreover have "a div b * b \<le> a" using assms pos_mod_sign [of b a] by (simp add: minus_mod_eq_div_mult [symmetric])
  ultimately show "k * b \<le> a" by simp
next
  assume "k * b \<le> a"
  then show "k \<le> a div b" using zdiv_mono1 [of "k * b" a b] assms by simp
qed

section \<open>Lists\<close>

text \<open>Python's \<^verbatim>\<open>xs[a:b]\<close>: negative bounds count from the end and both bounds are clamped.\<close>

definition py_clamp :: "nat \<Rightarrow> int \<Rightarrow> nat" where
  "py_clamp n i = (if i < 0 then nat (i + int n) else min (nat i) n)"

definition py_slice :: "'a list \<Rightarrow> int \<Rightarrow> int \<Rightarrow> 'a list" where
  "py_slice xs a b = take (py_clamp (length xs) b - py_clamp (length xs) a) (drop (py_clamp (length xs) a) xs)"

text \<open>Python's \<^verbatim>\<open>xs[i]\<close>, with negative indices from the end and \<^verbatim>\<open>IndexError\<close> out of range.\<close>

definition py_index :: "'a list \<Rightarrow> int \<Rightarrow> 'a result" where
  "py_index xs i =
     (if 0 \<le> i \<and> i < int (length xs) then Inr (xs ! nat i)
      else if i < 0 \<and> - i \<le> int (length xs) then Inr (xs ! nat (int (length xs) + i))
      else Inl IndexError)"

text \<open>Python's \<^verbatim>\<open>xs[i] = v\<close>.\<close>

definition py_update :: "'a list \<Rightarrow> int \<Rightarrow> 'a \<Rightarrow> 'a list result" where
  "py_update xs i v =
     (if 0 \<le> i \<and> i < int (length xs) then Inr (xs[nat i := v])
      else if i < 0 \<and> - i \<le> int (length xs) then Inr (xs[nat (int (length xs) + i) := v])
      else Inl IndexError)"

lemma py_index_pos:
  assumes "py_index xs i = Inr x"
  obtains j where "j < length xs" "x = xs ! j" "\<And>v. py_update xs i v = Inr (xs[j := v])"
proof
  let ?j = "nat (if 0 \<le> i then i else int (length xs) + i)"
  show "?j < length xs" "x = xs ! ?j" "py_update xs i v = Inr (xs[?j := v])" for v
    using assms by (auto simp: py_index_def py_update_def split: if_splits)
qed

lemma py_slice_nonneg:
  "0 \<le> a \<Longrightarrow> 0 \<le> b \<Longrightarrow> py_slice xs a b = take (nat b - nat a) (drop (nat a) xs)"
  by (auto simp: py_slice_def py_clamp_def min_def)

lemma py_index_nat [simp]: "i < length xs \<Longrightarrow> py_index xs (int i) = Inr (xs ! i)"
  by (simp add: py_index_def)

lemma in_set_tlD: "x \<in> set (tl xs) \<Longrightarrow> x \<in> set xs"
  by (cases xs) auto

end
