(* ===== verification/Request.thy ===== *)
theory Request
  imports Prelude "HOL-Library.Char_ord" "HOL-Library.List_Lexorder"
begin

text \<open>
  \<^verbatim>\<open>Request\<close> and \<^verbatim>\<open>RequestStatus\<close> of \<^verbatim>\<open>vllm/v1/request.py\<close>, with the parts of \<^verbatim>\<open>SamplingParams\<close>,
  \<^verbatim>\<open>LoRARequest\<close> and \<^verbatim>\<open>PlaceholderRange\<close> the scheduler core reads.

  A request is a record.  Fields that only feed metrics, tracing or transport (events, statistics,
  trace headers, connector parameters) are left out.  The block hasher stored in the request is an
  argument of the operations that call it.  \<^verbatim>\<open>arrival_time\<close> is an \<^verbatim>\<open>int\<close>: finite floats are multiples of a
  fixed power of two, and the code only compares arrival times.  \<^verbatim>\<open>obj_id\<close> stands for Python's \<^verbatim>\<open>id\<close>.
  The hasher contains a loop that need not end, so an operation that calls it returns an \<^verbatim>\<open>option\<close>, with
  \<^verbatim>\<open>None\<close> for a call that never returns.
\<close>

section \<open>Status\<close>

datatype request_status =
    WAITING
  | WAITING_FOR_STRUCTURED_OUTPUT_GRAMMAR
  | WAITING_FOR_REMOTE_KVS
  | WAITING_FOR_STREAMING_REQ
  | RUNNING
  | PREEMPTED
  | FINISHED_STOPPED
  | FINISHED_LENGTH_CAPPED
  | FINISHED_ABORTED
  | FINISHED_IGNORED
  | FINISHED_ERROR
  | FINISHED_REPETITION

text \<open>\<^verbatim>\<open>enum.auto()\<close> of an \<^verbatim>\<open>IntEnum\<close> numbers the members from 1.\<close>

fun status_value :: "request_status \<Rightarrow> nat" where
  "status_value WAITING = 1"
| "status_value WAITING_FOR_STRUCTURED_OUTPUT_GRAMMAR = 2"
| "status_value WAITING_FOR_REMOTE_KVS = 3"
| "status_value WAITING_FOR_STREAMING_REQ = 4"
| "status_value RUNNING = 5"
| "status_value PREEMPTED = 6"
| "status_value FINISHED_STOPPED = 7"
| "status_value FINISHED_LENGTH_CAPPED = 8"
| "status_value FINISHED_ABORTED = 9"
| "status_value FINISHED_IGNORED = 10"
| "status_value FINISHED_ERROR = 11"
| "status_value FINISHED_REPETITION = 12"

lemma status_value_inj: "status_value a = status_value b \<Longrightarrow> a = b"
  by (cases a; cases b) simp_all

instantiation request_status :: linorder
begin

definition less_eq_request_status :: "request_status \<Rightarrow> request_status \<Rightarrow> bool" where
  "less_eq_request_status a b \<longleftrightarrow> status_value a \<le> status_value b"

definition less_request_status :: "request_status \<Rightarrow> request_status \<Rightarrow> bool" where
  "less_request_status a b \<longleftrightarrow> status_value a < status_value b"

instance
  by standard (auto simp: less_eq_request_status_def less_request_status_def intro: status_value_inj)

end

datatype finish_reason = R_STOP | R_LENGTH | R_ABORT | R_ERROR | R_REPETITION

definition status_is_finished :: "request_status \<Rightarrow> bool" where
  "status_is_finished s \<longleftrightarrow> s > PREEMPTED"

fun status_finished_reason :: "request_status \<Rightarrow> finish_reason option" where
  "status_finished_reason FINISHED_STOPPED = Some R_STOP"
| "status_finished_reason FINISHED_LENGTH_CAPPED = Some R_LENGTH"
| "status_finished_reason FINISHED_ABORTED = Some R_ABORT"
| "status_finished_reason FINISHED_IGNORED = Some R_LENGTH"
| "status_finished_reason FINISHED_ERROR = Some R_ERROR"
| "status_finished_reason WAITING_FOR_STREAMING_REQ = Some R_STOP"
| "status_finished_reason FINISHED_REPETITION = Some R_REPETITION"
| "status_finished_reason _ = None"

section \<open>Data\<close>

record placeholder_range =
  offset :: int
  plength :: int
  is_embed :: "bool list option"

text \<open>\<^verbatim>\<open>PlaceholderRange.get_num_embeds\<close>: the last entry of the cumulative sum of the mask.\<close>

definition get_num_embeds :: "placeholder_range \<Rightarrow> int" where
  "get_num_embeds p =
     (case is_embed p of None \<Rightarrow> plength p | Some m \<Rightarrow> int (length (filter id m)))"

record mm_feature =
  mm_identifier :: string
  mm_position :: placeholder_range

record lora_req =
  lora_name :: string
  lora_int_id :: int

record repetition_params =
  max_pattern_size :: int
  min_pattern_size :: int
  min_count :: int

record sampling_params_t =
  sp_max_tokens :: "int option"
  sp_min_tokens :: int
  sp_eos_token_id :: "int option"
  sp_stop_token_ids :: "int list option"
  sp_repetition_detection :: "repetition_params option"
  sp_structured_outputs :: bool
  sp_skip_reading_prefix_cache :: "bool option"

record pooling_params_t =
  pp_skip_reading_prefix_cache :: "bool option"

datatype stop_reason_t = StopToken int | StopString string

record streaming_update =
  su_mm_features :: "mm_feature list option"
  su_prompt_token_ids :: "int list option"
  su_max_tokens :: int
  su_arrival_time :: int
  su_sampling_params :: "sampling_params_t option"

record prefill_stats_t =
  pf_num_prompt_tokens :: int
  pf_num_computed_tokens :: int
  pf_num_cached_tokens :: int
  pf_num_local_cached_tokens :: int
  pf_num_external_cached_tokens :: int
  pf_num_cache_creation_tokens :: int

definition prefill_stats_init :: prefill_stats_t where
  "prefill_stats_init = \<lparr>pf_num_prompt_tokens = 0, pf_num_computed_tokens = 0, pf_num_cached_tokens = 0,
     pf_num_local_cached_tokens = 0, pf_num_external_cached_tokens = 0, pf_num_cache_creation_tokens = 0\<rparr>"

definition prefill_stats_set :: "int \<Rightarrow> int \<Rightarrow> int \<Rightarrow> prefill_stats_t \<Rightarrow> prefill_stats_t result" where
  "prefill_stats_set num_prompt num_local num_external p =
     (if num_local + num_external \<le> num_prompt
      then Inr (p\<lparr>pf_num_prompt_tokens := num_prompt, pf_num_computed_tokens := num_prompt - (num_local + num_external),
                  pf_num_cached_tokens := num_local + num_external, pf_num_local_cached_tokens := num_local,
                  pf_num_external_cached_tokens := num_external\<rparr>)
      else Inl AssertionError)"

definition prefill_stats_finalize :: "int \<Rightarrow> prefill_stats_t \<Rightarrow> prefill_stats_t result" where
  "prefill_stats_finalize num_cached p =
     (if num_cached \<ge> 0
      then Inr (p\<lparr>pf_num_cache_creation_tokens := max 0 (min num_cached (pf_num_prompt_tokens p) - pf_num_cached_tokens p)\<rparr>)
      else Inl AssertionError)"

record request =
  request_id :: string
  obj_id :: nat
  priority :: int
  arrival_time :: int
  status :: request_status
  stop_reason :: "stop_reason_t option"
  sampling_params :: "sampling_params_t option"
  pooling_params :: "pooling_params_t option"
  lora_request :: "lora_req option"
  max_tokens :: int
  prompt_token_ids :: "int list option"
  prompt_embeds :: "bytes list option"
  prompt_embeds_per_block_hashes :: "(int \<times> int) \<Rightarrow> bytes option"
  num_prompt_tokens :: int
  output_token_ids :: "int list"
  all_token_ids :: "int list"
  spec_token_ids :: "int list"
  num_computed_tokens :: int
  num_output_placeholders :: int
  num_in_flight_tokens :: int
  num_preemptions :: int
  cache_salt :: "string option"
  mm_features :: "mm_feature list"
  block_hashes :: "bytes list"
  shared_prefix_boundary :: int
  is_prefill_chunk :: bool
  skip_reading_prefix_cache :: bool
  resumable :: bool
  num_stale_output_tokens :: int
  drop_stale_output :: bool
  next_decode_eligible_step :: int
  last_sched_seq :: int
  streaming_queue :: "streaming_update option list option"
  client_index :: int
  use_structured_output :: bool
  prefill_stats :: "prefill_stats_t option"

type_synonym block_hasher = "(request \<Rightarrow> (bytes list \<times> request) result option) option"

section \<open>Operations\<close>

abbreviation num_tokens :: "request \<Rightarrow> int" where
  "num_tokens r \<equiv> int (length (all_token_ids r))"

definition num_tokens_with_spec :: "request \<Rightarrow> int" where
  "num_tokens_with_spec r = int (length (all_token_ids r)) + int (length (spec_token_ids r))"

definition num_output_tokens :: "request \<Rightarrow> int" where
  "num_output_tokens r = int (length (output_token_ids r))"

definition request_is_finished :: "request \<Rightarrow> bool" where
  "request_is_finished r = status_is_finished (status r)"

definition get_num_encoder_embeds :: "request \<Rightarrow> nat \<Rightarrow> int result" where
  "get_num_encoder_embeds r i =
     (if i < length (mm_features r) then Inr (get_num_embeds (mm_position (mm_features r ! i)))
      else Inl AssertionError)"

definition length_from_prompt_token_ids_or_embeds :: "int list option \<Rightarrow> bytes list option \<Rightarrow> int result" where
  "length_from_prompt_token_ids_or_embeds ids embeds =
     (case ids of
        None \<Rightarrow> (case embeds of None \<Rightarrow> Inl ValueError | Some e \<Rightarrow> Inr (int (length e)))
      | Some t \<Rightarrow> (case embeds of
                    None \<Rightarrow> Inr (int (length t))
                  | Some e \<Rightarrow> if length e \<noteq> length t then Inl ValueError else Inr (int (length t))))"

definition update_block_hashes :: "block_hasher \<Rightarrow> request \<Rightarrow> request result option" where
  "update_block_hashes hasher r =
     (case hasher of
        None \<Rightarrow> Some (Inr r)
      | Some f \<Rightarrow> Option.bind (f r) (\<lambda>res.
          Some (bindE res (\<lambda>(new, r'). Inr (r'\<lparr>block_hashes := block_hashes r' @ new\<rparr>)))))"

definition append_output_token_ids :: "block_hasher \<Rightarrow> int list \<Rightarrow> request \<Rightarrow> request result option" where
  "append_output_token_ids hasher ts r =
     update_block_hashes hasher
       (r\<lparr>output_token_ids := output_token_ids r @ ts, all_token_ids := all_token_ids r @ ts\<rparr>)"

definition get_skip_reading_prefix_cache :: "request \<Rightarrow> bool" where
  "get_skip_reading_prefix_cache r =
     (case Option.bind (sampling_params r) sp_skip_reading_prefix_cache of
        Some b \<Rightarrow> b
      | None \<Rightarrow> (case Option.bind (pooling_params r) pp_skip_reading_prefix_cache of
                  Some b \<Rightarrow> b
                | None \<Rightarrow> False))"

text \<open>The constructor.  The arguments that are stored as they come are taken from a request record
  \<^verbatim>\<open>args\<close>; everything the constructor computes is computed here.\<close>

definition init_max_tokens_status :: "request \<Rightarrow> (int \<times> request_status) result" where
  "init_max_tokens_status args =
     (if pooling_params args \<noteq> None then Inr (1, WAITING)
      else (case sampling_params args of
              None \<Rightarrow> Inl ValueError
            | Some sp \<Rightarrow>
                (case sp_max_tokens sp of
                   None \<Rightarrow> Inl AssertionError
                 | Some m \<Rightarrow>
                     Inr (m, if sp_structured_outputs sp then WAITING_FOR_STRUCTURED_OUTPUT_GRAMMAR
                             else WAITING))))"

definition init_all_token_ids :: "int list option \<Rightarrow> bool list option \<Rightarrow> int \<Rightarrow> int list" where
  "init_all_token_ids ids is_token n =
     (case ids of
        None \<Rightarrow> replicate (nat n) 0
      | Some t \<Rightarrow> (case is_token of
                    None \<Rightarrow> t
                  | Some m \<Rightarrow> map (\<lambda>(x, b). if b then x else 0) (zip t m)))"

definition request_init_fields :: "bool list option \<Rightarrow> request \<Rightarrow> request result" where
  "request_init_fields prompt_is_token_ids args =
     bindE (init_max_tokens_status args) (\<lambda>(mt, st).
     bindE (length_from_prompt_token_ids_or_embeds (prompt_token_ids args) (prompt_embeds args)) (\<lambda>n.
     Inr (args\<lparr>status := st, stop_reason := None, max_tokens := mt,
         prompt_embeds_per_block_hashes := (\<lambda>_. None), num_prompt_tokens := n,
         output_token_ids := [],
         all_token_ids := init_all_token_ids (prompt_token_ids args) prompt_is_token_ids n,
         spec_token_ids := [], num_computed_tokens := 0, num_output_placeholders := 0,
         num_in_flight_tokens := 0, num_preemptions := 0, block_hashes := [],
         shared_prefix_boundary := 0, is_prefill_chunk := False, num_stale_output_tokens := 0,
         drop_stale_output := False, next_decode_eligible_step := 0, last_sched_seq := 0,
         streaming_queue := None, prefill_stats := Some prefill_stats_init,
         use_structured_output := (case sampling_params args of None \<Rightarrow> False | Some sp \<Rightarrow> sp_structured_outputs sp)\<rparr>)))"

definition request_init :: "block_hasher \<Rightarrow> bool list option \<Rightarrow> request \<Rightarrow> request result option" where
  "request_init hasher prompt_is_token_ids args =
     (case request_init_fields prompt_is_token_ids args of
        Inl e \<Rightarrow> Some (Inl e)
      | Inr r \<Rightarrow> Option.bind (update_block_hashes hasher r) (\<lambda>res.
          Some (bindE res (\<lambda>r'.
            Inr (r'\<lparr>skip_reading_prefix_cache := get_skip_reading_prefix_cache r'\<rparr>)))))"

definition streaming_update_from_request :: "request \<Rightarrow> streaming_update option" where
  "streaming_update_from_request r =
     (if \<not> resumable r then None
      else Some \<lparr>su_mm_features = Some (mm_features r), su_prompt_token_ids = prompt_token_ids r, su_max_tokens = max_tokens r,
                 su_arrival_time = arrival_time r, su_sampling_params = sampling_params r\<rparr>)"

text \<open>\<^verbatim>\<open>Request.__lt__\<close>: priority, then arrival time, then request id, then object identity.\<close>

definition request_lt :: "request \<Rightarrow> request \<Rightarrow> bool" where
  "request_lt a b =
     (if priority a \<noteq> priority b then priority a < priority b
      else if arrival_time a \<noteq> arrival_time b then arrival_time a < arrival_time b
      else if request_id a \<noteq> request_id b then request_id a < request_id b
      else obj_id a < obj_id b)"

text \<open>A request with a text prompt and no optional feature, used by concrete instances.\<close>

definition plain_request :: "string \<Rightarrow> int list \<Rightarrow> request" where
  "plain_request rid toks =
     \<lparr>request_id = rid, obj_id = 0, priority = 0, arrival_time = 0, status = WAITING, stop_reason = None,
      sampling_params = Some \<lparr>sp_max_tokens = Some 16, sp_min_tokens = 0, sp_eos_token_id = None,
        sp_stop_token_ids = None, sp_repetition_detection = None, sp_structured_outputs = False,
        sp_skip_reading_prefix_cache = None\<rparr>,
      pooling_params = None, lora_request = None, max_tokens = 16, prompt_token_ids = Some toks,
      prompt_embeds = None, prompt_embeds_per_block_hashes = (\<lambda>_. None),
      num_prompt_tokens = int (length toks), output_token_ids = [], all_token_ids = toks,
      spec_token_ids = [], num_computed_tokens = 0, num_output_placeholders = 0,
      num_in_flight_tokens = 0, num_preemptions = 0, cache_salt = None, mm_features = [],
      block_hashes = [], shared_prefix_boundary = 0, is_prefill_chunk = False,
      skip_reading_prefix_cache = False, resumable = False, num_stale_output_tokens = 0,
      drop_stale_output = False, next_decode_eligible_step = 0, last_sched_seq = 0,
      streaming_queue = None, client_index = 0, use_structured_output = False, prefill_stats = Some prefill_stats_init\<rparr>"

section \<open>Lemmas\<close>

lemma status_is_finished_iff:
  "status_is_finished s \<longleftrightarrow> s \<in> {FINISHED_STOPPED, FINISHED_LENGTH_CAPPED, FINISHED_ABORTED,
     FINISHED_IGNORED, FINISHED_ERROR, FINISHED_REPETITION}"
  by (cases s) (simp_all add: status_is_finished_def less_request_status_def)

lemma request_lt_irrefl [simp]: "\<not> request_lt a a"
  by (simp add: request_lt_def)

lemma request_lt_trans: "request_lt a b \<Longrightarrow> request_lt b c \<Longrightarrow> request_lt a c"
  by (auto simp: request_lt_def split: if_splits)

lemma request_lt_asym: "request_lt a b \<Longrightarrow> \<not> request_lt b a"
  by (auto simp: request_lt_def split: if_splits)

lemma request_lt_total: "obj_id a \<noteq> obj_id b \<Longrightarrow> request_lt a b \<or> request_lt b a"
  by (auto simp: request_lt_def)

end
