(* ===== verification/Heapq.thy ===== *)
theory Heapq
  imports Prelude
begin

text \<open>
  The functions of Python's \<^verbatim>\<open>heapq\<close> that the priority queue of the scheduler calls: \<^verbatim>\<open>heappush\<close>,
  \<^verbatim>\<open>heappop\<close> and \<^verbatim>\<open>heapify\<close>, with their sift loops, over a comparison \<^verbatim>\<open>lt\<close> (the \<^verbatim>\<open>__lt__\<close> of the items).
  The locale \<^verbatim>\<open>weak_order\<close> is what the loops need of the comparison; inside it the heap property and the
  multiset of the items are shown to be kept.
\<close>

section \<open>The functions\<close>

function siftdown_loop :: "('a \<Rightarrow> 'a \<Rightarrow> bool) \<Rightarrow> nat \<Rightarrow> 'a \<Rightarrow> 'a list \<Rightarrow> nat \<Rightarrow> 'a list" where
  "siftdown_loop lt startpos newitem heap pos =
     (if pos > startpos then
        (let parentpos = (pos - 1) div 2; parent = heap ! parentpos
         in if lt newitem parent then siftdown_loop lt startpos newitem (heap[pos := parent]) parentpos
            else heap[pos := newitem])
      else heap[pos := newitem])"
  by auto
termination by (relation "measure (\<lambda>(_, _, _, _, pos). pos)") auto

definition siftdown :: "('a \<Rightarrow> 'a \<Rightarrow> bool) \<Rightarrow> nat \<Rightarrow> nat \<Rightarrow> 'a list \<Rightarrow> 'a list" where
  "siftdown lt startpos pos heap = siftdown_loop lt startpos (heap ! pos) heap pos"

text \<open>The first loop of \<^verbatim>\<open>_siftup\<close> moves the smaller child up until the hole is a leaf.\<close>

function siftup_loop :: "('a \<Rightarrow> 'a \<Rightarrow> bool) \<Rightarrow> 'a list \<Rightarrow> nat \<Rightarrow> 'a list \<times> nat" where
  "siftup_loop lt heap pos =
     (let childpos = 2 * pos + 1
      in if childpos < length heap then
           (let rightpos = childpos + 1;
                c = (if rightpos < length heap \<and> \<not> lt (heap ! childpos) (heap ! rightpos) then rightpos else childpos)
            in siftup_loop lt (heap[pos := heap ! c]) c)
         else (heap, pos))"
  by auto
termination by (relation "measure (\<lambda>(_, heap, pos). length heap - pos)") (auto simp: Let_def)

definition siftup :: "('a \<Rightarrow> 'a \<Rightarrow> bool) \<Rightarrow> nat \<Rightarrow> 'a list \<Rightarrow> 'a list" where
  "siftup lt pos heap =
     (let newitem = heap ! pos; (heap', pos') = siftup_loop lt heap pos
      in siftdown lt pos pos' (heap'[pos' := newitem]))"

definition heappush :: "('a \<Rightarrow> 'a \<Rightarrow> bool) \<Rightarrow> 'a \<Rightarrow> 'a list \<Rightarrow> 'a list" where
  "heappush lt item heap = (let h = heap @ [item] in siftdown lt 0 (length h - 1) h)"

definition heappop :: "('a \<Rightarrow> 'a \<Rightarrow> bool) \<Rightarrow> 'a list \<Rightarrow> ('a \<times> 'a list) result" where
  "heappop lt heap =
     (if heap = [] then Inl IndexError
      else (let lastelt = last heap; h = butlast heap
            in if h \<noteq> [] then Inr (h ! 0, siftup lt 0 (h[0 := lastelt])) else Inr (lastelt, [])))"

definition heapify :: "('a \<Rightarrow> 'a \<Rightarrow> bool) \<Rightarrow> 'a list \<Rightarrow> 'a list" where
  "heapify lt heap = fold (siftup lt) (rev [0..<length heap div 2]) heap"

declare siftdown_loop.simps [simp del] siftup_loop.simps [simp del]

lemma siftdown_length [simp]: "length (siftdown lt s pos h) = length h"
proof -
  have "length (siftdown_loop lt s x h pos) = length h" for x
    by (induction pos arbitrary: h rule: less_induct) (subst siftdown_loop.simps, simp add: Let_def)
  then show ?thesis by (simp add: siftdown_def)
qed

lemma siftup_loop_length: "length (fst (siftup_loop lt h pos)) = length h"
  by (induction lt h pos rule: siftup_loop.induct) (subst siftup_loop.simps, simp add: Let_def)

lemma siftup_length [simp]: "length (siftup lt pos h) = length h"
  using siftup_loop_length [of lt h pos] by (auto simp: siftup_def split: prod.splits)

lemma heappop_length: "heappop lt h = Inr (x, h') \<Longrightarrow> length h = Suc (length h')"
  by (cases h rule: rev_cases) (auto simp: heappop_def Let_def split: if_splits)

section \<open>Heaps\<close>

definition parent :: "nat \<Rightarrow> nat" where
  "parent i = (i - 1) div 2"

lemma parent_less: "0 < i \<Longrightarrow> parent i < i"
  by (simp add: parent_def)

lemma parent_child [simp]: "parent (2 * p + 1) = p" "parent (Suc (2 * p)) = p" "parent (2 * p + 2) = p" "parent (Suc (Suc (2 * p))) = p"
  by (simp_all add: parent_def)

text \<open>\<^verbatim>\<open>below s i\<close>: index \<^verbatim>\<open>i\<close> is in the subtree of index \<^verbatim>\<open>s\<close>.\<close>

inductive below :: "nat \<Rightarrow> nat \<Rightarrow> bool" for s where
  below_refl: "below s s"
| below_step: "0 < i \<Longrightarrow> below s (parent i) \<Longrightarrow> below s i"

inductive_cases below_cases: "below s i"

lemma below_ge: "below s i \<Longrightarrow> s \<le> i"
  by (induction rule: below.induct) (auto dest: parent_less)

lemma below_parent: "below s i \<Longrightarrow> s < i \<Longrightarrow> below s (parent i) \<and> s \<le> parent i"
  by (erule below_cases) (auto dest: below_ge)

lemma below_zero: "below 0 i"
proof (induction i rule: less_induct)
  case (less i)
  then show ?case by (cases "i = 0") (auto intro: below.intros parent_less)
qed

lemma child_parent: "0 < i \<Longrightarrow> parent i = p \<longleftrightarrow> i = 2 * p + 1 \<or> i = 2 * p + 2"
  unfolding parent_def by linarith

text \<open>All pairs of a parent from \<^verbatim>\<open>s\<close> on and a child are in order, except where \<^verbatim>\<open>skip\<close> says.\<close>

definition ordered_but :: "('a \<Rightarrow> 'a \<Rightarrow> bool) \<Rightarrow> nat \<Rightarrow> (nat \<Rightarrow> bool) \<Rightarrow> 'a list \<Rightarrow> bool" where
  "ordered_but lt s skip h \<longleftrightarrow>
     (\<forall>i < length h. 0 < i \<longrightarrow> s \<le> parent i \<longrightarrow> \<not> skip i \<longrightarrow> \<not> lt (h ! i) (h ! parent i))"

definition heap_from :: "('a \<Rightarrow> 'a \<Rightarrow> bool) \<Rightarrow> nat \<Rightarrow> 'a list \<Rightarrow> bool" where
  "heap_from lt s h \<longleftrightarrow> ordered_but lt s (\<lambda>_. False) h"

text \<open>The children of \<^verbatim>\<open>pos\<close> are not smaller than its parent.\<close>

definition bridged :: "('a \<Rightarrow> 'a \<Rightarrow> bool) \<Rightarrow> nat \<Rightarrow> nat \<Rightarrow> 'a list \<Rightarrow> bool" where
  "bridged lt s pos h \<longleftrightarrow>
     (\<forall>i < length h. 0 < i \<longrightarrow> parent i = pos \<longrightarrow> s < pos \<longrightarrow> \<not> lt (h ! i) (h ! parent pos))"

lemma ordered_butD:
  "ordered_but lt s skip h \<Longrightarrow> i < length h \<Longrightarrow> 0 < i \<Longrightarrow> s \<le> parent i \<Longrightarrow> \<not> skip i \<Longrightarrow> \<not> lt (h ! i) (h ! parent i)"
  by (simp add: ordered_but_def)

lemma bridgedD:
  "bridged lt s pos h \<Longrightarrow> i < length h \<Longrightarrow> 0 < i \<Longrightarrow> parent i = pos \<Longrightarrow> s < pos \<Longrightarrow> \<not> lt (h ! i) (h ! parent pos)"
  by (simp add: bridged_def)

text \<open>Moving the item \<^verbatim>\<open>c\<close> into the hole \<^verbatim>\<open>p\<close> and the hole's item to \<^verbatim>\<open>c\<close> exchanges the two.\<close>

lemma mset_move_hole:
  assumes "p < length h" and "c < length h" and "p \<noteq> c"
  shows "mset (h[p := h ! c, c := x]) = mset (h[p := x])"
  using mset_swap [of p "h[p := x]" c] assms by (simp add: list_update_swap)

definition smaller_child :: "('a \<Rightarrow> 'a \<Rightarrow> bool) \<Rightarrow> 'a list \<Rightarrow> nat \<Rightarrow> nat" where
  "smaller_child lt h pos =
     (if 2 * pos + 2 < length h \<and> \<not> lt (h ! (2 * pos + 1)) (h ! (2 * pos + 2)) then 2 * pos + 2 else 2 * pos + 1)"

lemma siftup_loop_step:
  "2 * pos + 1 < length h \<Longrightarrow>
     siftup_loop lt h pos = siftup_loop lt (h[pos := h ! smaller_child lt h pos]) (smaller_child lt h pos)"
  by (subst siftup_loop.simps) (simp add: smaller_child_def Let_def)

locale weak_order =
  fixes lt :: "'a \<Rightarrow> 'a \<Rightarrow> bool"
  assumes asym: "lt a b \<Longrightarrow> \<not> lt b a"
    and negtrans: "\<not> lt a b \<Longrightarrow> \<not> lt b c \<Longrightarrow> \<not> lt a c"
begin

lemma irrefl: "\<not> lt a a"
  using asym by blast

lemma trans: "lt a b \<Longrightarrow> lt b c \<Longrightarrow> lt a c"
  using asym negtrans by blast

lemma float_up_step:
  assumes "below s pos" and "s < pos" and "pos < length h"
    and "ordered_but lt s (\<lambda>i. i = pos) (h[pos := x])" and "bridged lt s pos (h[pos := x])"
    and "lt x (h ! parent pos)"
  shows "ordered_but lt s (\<lambda>i. i = parent pos) (h[pos := h ! parent pos, parent pos := x])"
    and "bridged lt s (parent pos) (h[pos := h ! parent pos, parent pos := x])"
proof -
  define p where "p = parent pos"
  have p: "p < pos" "s \<le> p" "p < length h" "below s p"
    using assms(1-3) below_parent [of s pos] parent_less [of pos] by (auto simp: p_def)
  have q: "parent p < p" "s \<le> parent p" if "s < p"
    using below_parent [of s p] p parent_less [of p] that by auto
  note ord = assms(4) [THEN ordered_butD] and br = assms(5) [THEN bridgedD]
  have par: "\<not> lt (h ! p) (h ! parent p)" if "s < p"
    using ord [of p] q p that by auto
  have "\<not> lt (h[pos := h ! p, p := x] ! i) (h[pos := h ! p, p := x] ! parent i)"
    if i: "i < length h" "0 < i" "s \<le> parent i" "i \<noteq> p" for i
  proof (cases "i = pos")
    case True
    then show ?thesis using p assms(3,6) asym [of x "h ! p"] by (simp add: p_def [symmetric])
  next
    case False
    have "\<not> lt (h ! i) x" if "parent i = p"
      using ord [of i] i False that p assms(6) negtrans [of "h ! i" "h ! p" x] asym by (auto simp: p_def [symmetric])
    moreover have "\<not> lt (h ! i) (h ! p)" if "parent i = pos"
      using br [of i] i False that p assms(2) by (auto simp: p_def [symmetric])
    ultimately show ?thesis
      using ord [of i] i False p assms(3) by (auto simp: nth_list_update)
  qed
  then show "ordered_but lt s (\<lambda>i. i = parent pos) (h[pos := h ! parent pos, parent pos := x])"
    by (simp add: ordered_but_def p_def)
  have "\<not> lt (h[pos := h ! p, p := x] ! i) (h[pos := h ! p, p := x] ! parent p)"
    if i: "i < length h" "0 < i" "parent i = p" "s < p" for i
  proof -
    have "\<not> lt (h ! i) (h ! p)" if "i \<noteq> pos"
      using ord [of i] i p that by auto
    then show ?thesis
      using par i p q assms(3) parent_less [of i] negtrans [of "h ! i" "h ! p" "h ! parent p"] by (cases "i = pos") auto
  qed
  then show "bridged lt s (parent pos) (h[pos := h ! parent pos, parent pos := x])"
    by (simp add: bridged_def p_def)
qed

lemma siftdown_loop_heap:
  assumes "below s pos" and "pos < length h"
    and "ordered_but lt s (\<lambda>i. i = pos) (h[pos := x])" and "bridged lt s pos (h[pos := x])"
  shows "heap_from lt s (siftdown_loop lt s x h pos)"
  using assms
proof (induction pos arbitrary: h rule: less_induct)
  case (less pos)
  show ?case
  proof (cases "s < pos \<and> lt x (h ! parent pos)")
    case True
    then have "siftdown_loop lt s x h pos = siftdown_loop lt s x (h[pos := h ! parent pos]) (parent pos)"
      by (subst siftdown_loop.simps) (simp add: parent_def Let_def)
    moreover have "parent pos < pos" "below s (parent pos)"
      using True less.prems(1) parent_less [of pos] below_parent [of s pos] by auto
    ultimately show ?thesis
      using True less.IH [of "parent pos" "h[pos := h ! parent pos]"] less.prems float_up_step [of s pos h x] by simp
  next
    case False
    have "\<not> lt x (h ! parent pos)" if "0 < pos" "s \<le> parent pos"
      using False that parent_less [of pos] by auto
    then have "heap_from lt s (h[pos := x])"
      using less.prems(2,3) unfolding heap_from_def ordered_but_def
      by (metis length_list_update nth_list_update parent_less less_irrefl)
    moreover have "siftdown_loop lt s x h pos = h[pos := x]"
      using False by (subst siftdown_loop.simps) (auto simp: parent_def Let_def)
    ultimately show ?thesis by simp
  qed
qed

lemma siftdown_loop_mset: "pos < length h \<Longrightarrow> mset (siftdown_loop lt s x h pos) = mset (h[pos := x])"
proof (induction pos arbitrary: h rule: less_induct)
  case (less pos)
  then show ?case
    using mset_move_hole [of pos h "(pos - 1) div 2" x]
    by (subst siftdown_loop.simps) (auto simp: Let_def)
qed

lemma siftdown_heap:
  assumes "below s pos" and "pos < length h" and "ordered_but lt s (\<lambda>i. i = pos) h" and "bridged lt s pos h"
  shows "heap_from lt s (siftdown lt s pos h)" and "mset (siftdown lt s pos h) = mset h"
  using assms siftdown_loop_heap [of s pos h "h ! pos"] siftdown_loop_mset [of pos h s "h ! pos"]
  by (simp_all add: siftdown_def)

text \<open>The hole of the first loop moves down: the smaller child takes its place.\<close>

lemma sink_step:
  assumes "below s pos" and "c < length h" and "0 < c" and "parent c = pos"
    and "ordered_but lt s (\<lambda>i. i = pos \<or> parent i = pos) h" and "bridged lt s pos h"
    and "\<And>i. i < length h \<Longrightarrow> 0 < i \<Longrightarrow> parent i = pos \<Longrightarrow> \<not> lt (h ! i) (h ! c)"
  shows "ordered_but lt s (\<lambda>i. i = c \<or> parent i = c) (h[pos := h ! c])"
    and "bridged lt s c (h[pos := h ! c])"
proof -
  note ord = assms(5) [THEN ordered_butD] and br = assms(6) [THEN bridgedD]
  have pos: "pos < c" "s \<le> pos" "pos < length h"
    using assms(1-4) parent_less [of c] below_ge by auto
  have "\<not> lt (h[pos := h ! c] ! i) (h[pos := h ! c] ! parent i)"
    if i: "i < length h" "0 < i" "s \<le> parent i" "i \<noteq> c" "parent i \<noteq> c" for i
  proof (cases "i = pos")
    case True
    then have "s < pos" using i parent_less [of i] by simp
    then show ?thesis using True i br [of c] assms(2-4) parent_less [of i] by simp
  next
    case False
    then show ?thesis using ord [of i] i assms(7) [of i] pos by (cases "parent i = pos") auto
  qed
  then show "ordered_but lt s (\<lambda>i. i = c \<or> parent i = c) (h[pos := h ! c])"
    by (simp add: ordered_but_def)
  have "\<not> lt (h[pos := h ! c] ! i) (h[pos := h ! c] ! pos)" if "i < length h" "0 < i" "parent i = c" for i
    using ord [of i] that pos parent_less [of i] by auto
  then show "bridged lt s c (h[pos := h ! c])"
    using assms(4) by (simp add: bridged_def)
qed

lemma smaller_child:
  assumes "2 * pos + 1 < length h"
  shows "smaller_child lt h pos < length h" and "0 < smaller_child lt h pos"
    and "parent (smaller_child lt h pos) = pos" and "pos < smaller_child lt h pos"
    and "i < length h \<Longrightarrow> 0 < i \<Longrightarrow> parent i = pos \<Longrightarrow> \<not> lt (h ! i) (h ! smaller_child lt h pos)"
  using assms child_parent [of i pos] asym [of "h ! (2 * pos + 1)" "h ! (2 * pos + 2)"] irrefl [of "h ! i"]
  by (auto simp: smaller_child_def)

lemma siftup_loop_hole:
  assumes "below s pos" and "pos < length h" and "ordered_but lt s (\<lambda>i. i = pos \<or> parent i = pos) h"
    and "bridged lt s pos h" and "siftup_loop lt h pos = (h', pos')"
  shows "below s pos' \<and> pos' < length h' \<and> length h' \<le> 2 * pos' + 1 \<and>
    ordered_but lt s (\<lambda>i. i = pos' \<or> parent i = pos') h' \<and> mset (h'[pos' := x]) = mset (h[pos := x])"
  using assms
proof (induction "length h - pos" arbitrary: h pos rule: less_induct)
  case less
  show ?case
  proof (cases "2 * pos + 1 < length h")
    case True
    define c where "c = smaller_child lt h pos"
    note c = smaller_child [OF True, folded c_def]
    let ?h = "h[pos := h ! c]"
    have "siftup_loop lt ?h c = (h', pos')"
      using less.prems(5) siftup_loop_step [OF True] by (simp add: c_def)
    moreover have "below s c"
      using below_step [of c s] c less.prems(1) by simp
    moreover have "c < length ?h" "length ?h - c < length h - pos"
      using c by simp_all
    moreover note sink_step [OF less.prems(1) c(1-3) less.prems(3,4) c(5)]
    ultimately have "below s pos' \<and> pos' < length h' \<and> length h' \<le> 2 * pos' + 1 \<and>
      ordered_but lt s (\<lambda>i. i = pos' \<or> parent i = pos') h' \<and> mset (h'[pos' := x]) = mset (?h[c := x])"
      by (intro less.hyps)
    then show ?thesis
      using mset_move_hole [of pos h c x] c by simp
  next
    case False
    then have "siftup_loop lt h pos = (h, pos)"
      by (subst siftup_loop.simps) simp
    then show ?thesis
      using less.prems False by simp
  qed
qed

lemma siftup_heap:
  assumes "s < length h" and "heap_from lt (Suc s) h"
  shows "heap_from lt s (siftup lt s h)" and "mset (siftup lt s h) = mset h"
proof -
  obtain h' pos where l: "siftup_loop lt h s = (h', pos)" by fastforce
  have "ordered_but lt s (\<lambda>i. i = s \<or> parent i = s) h"
    using assms(2) by (auto simp: heap_from_def ordered_but_def)
  moreover have "bridged lt s s h"
    by (simp add: bridged_def)
  ultimately have r: "below s pos" "pos < length h'" "length h' \<le> 2 * pos + 1"
    "ordered_but lt s (\<lambda>i. i = pos \<or> parent i = pos) h'" "mset (h'[pos := h ! s]) = mset h"
    using siftup_loop_hole [OF below_refl assms(1) _ _ l, of "h ! s"] by simp_all
  have leaf: "pos \<noteq> parent i" if "i < length h'" "0 < i" for i
    using that r(3) child_parent [of i pos] by auto
  have "ordered_but lt s (\<lambda>i. i = pos) (h'[pos := h ! s])" "bridged lt s pos (h'[pos := h ! s])"
    using r(2,4) leaf by (auto simp: ordered_but_def bridged_def)
  then show "heap_from lt s (siftup lt s h)" and "mset (siftup lt s h) = mset h"
    using siftdown_heap [of s pos "h'[pos := h ! s]"] r by (simp_all add: siftup_def l)
qed

lemma heap_root_least:
  assumes "heap_from lt 0 h" and "i < length h"
  shows "\<not> lt (h ! i) (h ! 0)"
  using assms(2)
proof (induction i rule: less_induct)
  case (less i)
  show ?case
  proof (cases "i = 0")
    case False
    then have "\<not> lt (h ! i) (h ! parent i)" "\<not> lt (h ! parent i) (h ! 0)"
      using assms(1) less parent_less [of i] by (auto simp: heap_from_def ordered_but_def)
    then show ?thesis by (rule negtrans)
  qed (simp add: irrefl)
qed

lemma heappush_spec:
  assumes "heap_from lt 0 h"
  shows "heap_from lt 0 (heappush lt x h) \<and> mset (heappush lt x h) = add_mset x (mset h)"
proof -
  have "\<not> lt (h ! i) ((h @ [x]) ! parent i)" if "i < length h" "0 < i" for i
    using assms that parent_less [of i] by (simp add: heap_from_def ordered_but_def nth_append)
  then have "ordered_but lt 0 (\<lambda>i. i = length h) (h @ [x])"
    by (simp add: ordered_but_def nth_append)
  moreover have "bridged lt 0 (length h) (h @ [x])"
    by (auto simp: bridged_def dest: parent_less)
  ultimately show ?thesis
    using siftdown_heap [OF below_zero, of "length h" "h @ [x]"] by (simp add: heappush_def)
qed

lemma heappop_spec:
  assumes "heap_from lt 0 h" and "h \<noteq> []"
  obtains x h' where "heappop lt h = Inr (x, h')" and "heap_from lt 0 h'" and "mset h = add_mset x (mset h')"
    and "\<And>y. y \<in> set h \<Longrightarrow> \<not> lt y x"
proof -
  have "x = h ! 0 \<and> heap_from lt 0 h' \<and> mset h = add_mset x (mset h')" if r: "heappop lt h = Inr (x, h')" for x h'
  proof (cases "butlast h")
    case Nil
    then show ?thesis
      using assms(2) r by (cases h) (auto simp: heappop_def heap_from_def ordered_but_def split: if_splits)
  next
    case (Cons y ys)
    have h: "h = y # ys @ [last h]"
      using Cons assms(2) append_butlast_last_id by fastforce
    have eq: "(last h # ys) ! i = h ! i" if "0 < i" "i \<le> length ys" for i
      using that by (subst (2) h) (auto simp: nth_append nth_Cons split: nat.splits)
    have "length h = Suc (Suc (length ys))"
      by (subst h) simp
    then have "\<not> lt ((last h # ys) ! i) ((last h # ys) ! parent i)" if "i \<le> length ys" "0 < parent i" "0 < i" for i
      using assms(1) that eq [of i] eq [of "parent i"] parent_less [of i] unfolding heap_from_def ordered_but_def by simp
    then have "heap_from lt (Suc 0) (last h # ys)"
      by (simp add: heap_from_def ordered_but_def less_Suc_eq_le Suc_le_eq del: nth_Cons_Suc)
    moreover have "x = y" "h' = siftup lt 0 (last h # ys)"
      using r Cons assms(2) by (auto simp: heappop_def Let_def)
    ultimately show ?thesis
      using siftup_heap [of 0 "last h # ys"] arg_cong [OF h, of mset] arg_cong [OF h, of "\<lambda>l. l ! 0"] by simp
  qed
  moreover obtain x h' where "heappop lt h = Inr (x, h')"
    using assms(2) by (cases "butlast h = []") (auto simp: heappop_def Let_def)
  ultimately show thesis
    using that heap_root_least [OF assms(1)] by (metis in_set_conv_nth)
qed

lemma heapify_fold:
  assumes "n \<le> length h" and "heap_from lt n h"
  shows "heap_from lt 0 (fold (siftup lt) (rev [0..<n]) h) \<and> mset (fold (siftup lt) (rev [0..<n]) h) = mset h"
  using assms
proof (induction n arbitrary: h)
  case (Suc n)
  then show ?case
    using siftup_heap [of n h] Suc.IH [of "siftup lt n h"] mset_eq_length [of "siftup lt n h" h] by simp
qed simp

lemma heapify_spec: "heap_from lt 0 (heapify lt h) \<and> mset (heapify lt h) = mset h"
proof -
  have "heap_from lt (length h div 2) h"
    by (auto simp: heap_from_def ordered_but_def parent_def)
  then show ?thesis
    using heapify_fold [of "length h div 2" h] by (simp add: heapify_def)
qed

end

end
