(* ===== verification/Request_Queue.thy ===== *)
theory Request_Queue
  imports Request Heapq
begin

text \<open>
  The waiting queues of the scheduler (\<^verbatim>\<open>v1/core/sched/request_queue.py\<close>): the first-come-first-served queue,
  a deque, and the priority queue, a binary heap under \<^verbatim>\<open>Request.__lt__\<close>. Requests are objects, so \<^verbatim>\<open>==\<close> and
  membership in a set are identity, the field \<^verbatim>\<open>obj_id\<close>. The locale \<^verbatim>\<open>request_queue\<close> is the abstract base class
  with the laws its users rely on; both queues interpret it.
\<close>

datatype scheduling_policy = FCFS | PRIORITY

section \<open>Removing objects\<close>

text \<open>\<^verbatim>\<open>list.remove\<close> and \<^verbatim>\<open>deque.remove\<close>: the first object equal to the argument, or \<^verbatim>\<open>ValueError\<close>.\<close>

fun py_remove :: "request \<Rightarrow> request list \<Rightarrow> request list result" where
  "py_remove r [] = Inl ValueError"
| "py_remove r (x # xs) = (if obj_id x = obj_id r then Inr xs else bindE (py_remove r xs) (\<lambda>ys. Inr (x # ys)))"

definition not_among :: "request list \<Rightarrow> request \<Rightarrow> bool" where
  "not_among rs r \<longleftrightarrow> obj_id r \<notin> obj_id ` set rs"

section \<open>FCFSRequestQueue\<close>

type_synonym fcfs_queue = "request list"

definition fcfs_add_request :: "request \<Rightarrow> fcfs_queue \<Rightarrow> fcfs_queue" where
  "fcfs_add_request r q = q @ [r]"

definition fcfs_pop_request :: "fcfs_queue \<Rightarrow> (request \<times> fcfs_queue) result" where
  "fcfs_pop_request q = (case q of [] \<Rightarrow> Inl IndexError | r # q' \<Rightarrow> Inr (r, q'))"

definition fcfs_peek_request :: "fcfs_queue \<Rightarrow> request result" where
  "fcfs_peek_request q = (if q = [] then Inl IndexError else Inr (q ! 0))"

definition fcfs_prepend_request :: "request \<Rightarrow> fcfs_queue \<Rightarrow> fcfs_queue" where
  "fcfs_prepend_request r q = r # q"

definition fcfs_prepend_requests :: "request list \<Rightarrow> fcfs_queue \<Rightarrow> fcfs_queue" where
  "fcfs_prepend_requests rs q = fold (\<lambda>r q. r # q) rs q"

definition fcfs_remove_request :: "request \<Rightarrow> fcfs_queue \<Rightarrow> fcfs_queue result" where
  "fcfs_remove_request r q = py_remove r q"

definition fcfs_remove_requests :: "request list \<Rightarrow> fcfs_queue \<Rightarrow> fcfs_queue" where
  "fcfs_remove_requests rs q = filter (not_among rs) q"

definition fcfs_bool :: "fcfs_queue \<Rightarrow> bool" where
  "fcfs_bool q \<longleftrightarrow> length q > 0"

definition fcfs_len :: "fcfs_queue \<Rightarrow> nat" where
  "fcfs_len q = length q"

definition fcfs_iter :: "fcfs_queue \<Rightarrow> request list" where
  "fcfs_iter q = q"

section \<open>PriorityRequestQueue\<close>

record priority_queue =
  pq_heap :: "request list"

definition priority_init :: priority_queue where
  "priority_init = \<lparr>pq_heap = []\<rparr>"

definition priority_add_request :: "request \<Rightarrow> priority_queue \<Rightarrow> priority_queue" where
  "priority_add_request r q = q\<lparr>pq_heap := heappush request_lt r (pq_heap q)\<rparr>"

definition priority_pop_request :: "priority_queue \<Rightarrow> (request \<times> priority_queue) result" where
  "priority_pop_request q =
     (if pq_heap q = [] then Inl IndexError
      else bindE (heappop request_lt (pq_heap q)) (\<lambda>(r, h). Inr (r, q\<lparr>pq_heap := h\<rparr>)))"

definition priority_peek_request :: "priority_queue \<Rightarrow> request result" where
  "priority_peek_request q = (if pq_heap q = [] then Inl IndexError else Inr (pq_heap q ! 0))"

definition priority_prepend_request :: "request \<Rightarrow> priority_queue \<Rightarrow> priority_queue" where
  "priority_prepend_request r q = priority_add_request r q"

definition priority_prepend_requests :: "request list \<Rightarrow> priority_queue \<Rightarrow> priority_queue" where
  "priority_prepend_requests rs q = fold priority_add_request rs q"

definition priority_remove_request :: "request \<Rightarrow> priority_queue \<Rightarrow> priority_queue result" where
  "priority_remove_request r q =
     bindE (py_remove r (pq_heap q)) (\<lambda>h. Inr (q\<lparr>pq_heap := heapify request_lt h\<rparr>))"

definition priority_remove_requests :: "request list \<Rightarrow> priority_queue \<Rightarrow> priority_queue" where
  "priority_remove_requests rs q = q\<lparr>pq_heap := heapify request_lt (filter (not_among rs) (pq_heap q))\<rparr>"

definition priority_bool :: "priority_queue \<Rightarrow> bool" where
  "priority_bool q \<longleftrightarrow> pq_heap q \<noteq> []"

definition priority_len :: "priority_queue \<Rightarrow> nat" where
  "priority_len q = length (pq_heap q)"

function heap_iter :: "request list \<Rightarrow> request list" where
  "heap_iter h = (case heappop request_lt h of Inl _ \<Rightarrow> [] | Inr (r, h') \<Rightarrow> r # heap_iter h')"
  by auto
termination by (relation "measure length") (auto dest: heappop_length)

declare heap_iter.simps [simp del]

definition priority_iter :: "priority_queue \<Rightarrow> request list" where
  "priority_iter q = heap_iter (pq_heap q)"

section \<open>create_request_queue\<close>

datatype request_queue_obj = FCFSRequestQueue fcfs_queue | PriorityRequestQueue priority_queue

definition create_request_queue :: "scheduling_policy \<Rightarrow> request_queue_obj" where
  "create_request_queue policy =
     (case policy of PRIORITY \<Rightarrow> PriorityRequestQueue priority_init | FCFS \<Rightarrow> FCFSRequestQueue [])"

text \<open>The methods of the abstract base class, dispatched on the class of the queue.\<close>

fun rq_add_request :: "request \<Rightarrow> request_queue_obj \<Rightarrow> request_queue_obj" where
  "rq_add_request r (FCFSRequestQueue q) = FCFSRequestQueue (fcfs_add_request r q)"
| "rq_add_request r (PriorityRequestQueue q) = PriorityRequestQueue (priority_add_request r q)"

fun rq_pop_request :: "request_queue_obj \<Rightarrow> (request \<times> request_queue_obj) result" where
  "rq_pop_request (FCFSRequestQueue q) = bindE (fcfs_pop_request q) (\<lambda>(r, q'). Inr (r, FCFSRequestQueue q'))"
| "rq_pop_request (PriorityRequestQueue q) =
     bindE (priority_pop_request q) (\<lambda>(r, q'). Inr (r, PriorityRequestQueue q'))"

fun rq_peek_request :: "request_queue_obj \<Rightarrow> request result" where
  "rq_peek_request (FCFSRequestQueue q) = fcfs_peek_request q"
| "rq_peek_request (PriorityRequestQueue q) = priority_peek_request q"

fun rq_prepend_request :: "request \<Rightarrow> request_queue_obj \<Rightarrow> request_queue_obj" where
  "rq_prepend_request r (FCFSRequestQueue q) = FCFSRequestQueue (fcfs_prepend_request r q)"
| "rq_prepend_request r (PriorityRequestQueue q) = PriorityRequestQueue (priority_prepend_request r q)"

fun rq_iter :: "request_queue_obj \<Rightarrow> request list" where
  "rq_iter (FCFSRequestQueue q) = fcfs_iter q"
| "rq_iter (PriorityRequestQueue q) = priority_iter q"

text \<open>A queue as the argument of \<^verbatim>\<open>prepend_requests\<close> is iterated.\<close>

fun rq_prepend_requests :: "request_queue_obj \<Rightarrow> request_queue_obj \<Rightarrow> request_queue_obj" where
  "rq_prepend_requests rs (FCFSRequestQueue q) = FCFSRequestQueue (fcfs_prepend_requests (rq_iter rs) q)"
| "rq_prepend_requests rs (PriorityRequestQueue q) = PriorityRequestQueue (priority_prepend_requests (rq_iter rs) q)"

fun rq_remove_request :: "request \<Rightarrow> request_queue_obj \<Rightarrow> request_queue_obj result" where
  "rq_remove_request r (FCFSRequestQueue q) = bindE (fcfs_remove_request r q) (\<lambda>q'. Inr (FCFSRequestQueue q'))"
| "rq_remove_request r (PriorityRequestQueue q) =
     bindE (priority_remove_request r q) (\<lambda>q'. Inr (PriorityRequestQueue q'))"

fun rq_remove_requests :: "request list \<Rightarrow> request_queue_obj \<Rightarrow> request_queue_obj" where
  "rq_remove_requests rs (FCFSRequestQueue q) = FCFSRequestQueue (fcfs_remove_requests rs q)"
| "rq_remove_requests rs (PriorityRequestQueue q) = PriorityRequestQueue (priority_remove_requests rs q)"

fun rq_len :: "request_queue_obj \<Rightarrow> nat" where
  "rq_len (FCFSRequestQueue q) = fcfs_len q"
| "rq_len (PriorityRequestQueue q) = priority_len q"

fun rq_bool :: "request_queue_obj \<Rightarrow> bool" where
  "rq_bool (FCFSRequestQueue q) = fcfs_bool q"
| "rq_bool (PriorityRequestQueue q) = priority_bool q"

section \<open>The contract of a request queue\<close>

text \<open>Pop \<^verbatim>\<open>n\<close> requests in a row.\<close>

fun pop_n :: "('q \<Rightarrow> (request \<times> 'q) result) \<Rightarrow> nat \<Rightarrow> 'q \<Rightarrow> (request list \<times> 'q) result" where
  "pop_n pop 0 q = Inr ([], q)"
| "pop_n pop (Suc n) q = bindE (pop q) (\<lambda>(r, q'). bindE (pop_n pop n q') (\<lambda>(rs, q''). Inr (r # rs, q'')))"

locale request_queue =
  fixes inv :: "'q \<Rightarrow> bool"
    and items :: "'q \<Rightarrow> request multiset"
    and add :: "request \<Rightarrow> 'q \<Rightarrow> 'q"
    and pop :: "'q \<Rightarrow> (request \<times> 'q) result"
    and peek :: "'q \<Rightarrow> request result"
    and prepend :: "request \<Rightarrow> 'q \<Rightarrow> 'q"
    and remove :: "request \<Rightarrow> 'q \<Rightarrow> 'q result"
    and removes :: "request list \<Rightarrow> 'q \<Rightarrow> 'q"
    and len :: "'q \<Rightarrow> nat"
    and iter :: "'q \<Rightarrow> request list"
  assumes add_law: "inv q \<Longrightarrow> inv (add r q) \<and> items (add r q) = add_mset r (items q)"
    and prepend_law: "inv q \<Longrightarrow> inv (prepend r q) \<and> items (prepend r q) = add_mset r (items q)"
    and pop_empty: "inv q \<Longrightarrow> items q = {#} \<Longrightarrow> pop q = Inl IndexError \<and> peek q = Inl IndexError \<and> iter q = []"
    and pop_law: "inv q \<Longrightarrow> items q \<noteq> {#} \<Longrightarrow>
      \<exists>r q'. pop q = Inr (r, q') \<and> peek q = Inr r \<and> inv q' \<and> items q = add_mset r (items q') \<and> iter q = r # iter q'"
    and remove_present: "inv q \<Longrightarrow> r \<in># items q \<Longrightarrow> inj_on obj_id (set_mset (items q)) \<Longrightarrow>
      \<exists>q'. remove r q = Inr q' \<and> inv q' \<and> items q = add_mset r (items q')"
    and remove_absent: "inv q \<Longrightarrow> obj_id r \<notin> obj_id ` set_mset (items q) \<Longrightarrow> remove r q = Inl ValueError"
    and removes_law: "inv q \<Longrightarrow> inv (removes rs q) \<and> items (removes rs q) = filter_mset (not_among rs) (items q)"
    and len_law: "inv q \<Longrightarrow> len q = size (items q)"
begin

lemma pops_in_iteration_order:
  assumes "inv q" and "n \<le> len q"
  shows "\<exists>q'. pop_n pop n q = Inr (take n (iter q), q') \<and> inv q' \<and> iter q' = drop n (iter q) \<and>
    items q = mset (take n (iter q)) + items q'"
  using assms
proof (induction n arbitrary: q)
  case (Suc n)
  then have "items q \<noteq> {#}" by (auto simp: len_law)
  with pop_law [OF Suc.prems(1)] obtain r q' where q: "pop q = Inr (r, q')" "inv q'"
    "items q = add_mset r (items q')" "iter q = r # iter q'" by auto
  then have "n \<le> len q'" using Suc.prems by (simp add: len_law)
  with Suc.IH [OF q(2)] q show ?case by auto
qed simp

lemma iter_mset: "inv q \<Longrightarrow> mset (iter q) = items q"
proof (induction "size (items q)" arbitrary: q)
  case 0
  then show ?case using pop_empty by auto
next
  case (Suc n)
  then have "items q \<noteq> {#}" by auto
  with pop_law [OF Suc.prems] Suc obtain r q' where "inv q'" "items q = add_mset r (items q')" "iter q = r # iter q'" by auto
  then show ?case using Suc by auto
qed

lemma pop_all:
  assumes "inv q"
  shows "\<exists>q'. pop_n pop (len q) q = Inr (iter q, q') \<and> inv q' \<and> items q' = {#} \<and> pop q' = Inl IndexError"
proof -
  have "len q = length (iter q)"
    using assms by (metis iter_mset len_law size_mset)
  then show ?thesis
    using pops_in_iteration_order [OF assms, of "len q"] iter_mset [OF assms] pop_empty by fastforce
qed

text \<open>A queued request is popped after at most as many pops as there are requests.\<close>

lemma request_is_served:
  assumes "inv q" and "r \<in># items q"
  shows "\<exists>n < len q. \<exists>rs q' q''. pop_n pop n q = Inr (rs, q') \<and> pop q' = Inr (r, q'')"
proof -
  obtain n where n: "n < length (iter q)" "iter q ! n = r"
    using assms iter_mset by (metis in_set_conv_nth set_mset_mset)
  then have l: "n < len q" using assms by (metis iter_mset len_law size_mset)
  then obtain q' where q': "pop_n pop n q = Inr (take n (iter q), q')" "inv q'" "iter q' = drop n (iter q)"
    using pops_in_iteration_order [OF assms(1), of n] by auto
  then have d: "iter q' = r # drop (Suc n) (iter q)"
    using n Cons_nth_drop_Suc [of n "iter q"] by simp
  then have "items q' \<noteq> {#}" using pop_empty [OF q'(2)] by auto
  with pop_law [OF q'(2)] d have "\<exists>q''. pop q' = Inr (r, q'')" by auto
  then show ?thesis using l q'(1) by blast
qed

end

section \<open>The two queues\<close>

lemma py_remove_spec:
  "r \<in> set q \<Longrightarrow> inj_on obj_id (set q) \<Longrightarrow> \<exists>q'. py_remove r q = Inr q' \<and> mset q = add_mset r (mset q')"
proof (induction q)
  case (Cons x xs)
  show ?case
  proof (cases "obj_id x = obj_id r")
    case True
    then have "x = r" using Cons.prems by (auto dest: inj_onD)
    then show ?thesis by simp
  next
    case False
    then show ?thesis using Cons by auto
  qed
qed simp

lemma py_remove_absent: "obj_id r \<notin> obj_id ` set q \<Longrightarrow> py_remove r q = Inl ValueError"
  by (induction q) auto

interpretation fcfs: request_queue "\<lambda>_. True" mset fcfs_add_request fcfs_pop_request fcfs_peek_request
  fcfs_prepend_request fcfs_remove_request fcfs_remove_requests fcfs_len fcfs_iter
proof
  fix q :: fcfs_queue
  assume "mset q \<noteq> {#}"
  then show "\<exists>r q'. fcfs_pop_request q = Inr (r, q') \<and> fcfs_peek_request q = Inr r \<and> True \<and>
      mset q = add_mset r (mset q') \<and> fcfs_iter q = r # fcfs_iter q'"
    by (cases q) (auto simp: fcfs_pop_request_def fcfs_peek_request_def fcfs_iter_def)
qed (simp_all add: fcfs_add_request_def fcfs_prepend_request_def fcfs_pop_request_def fcfs_peek_request_def
    fcfs_iter_def fcfs_remove_request_def fcfs_remove_requests_def fcfs_len_def py_remove_spec py_remove_absent)

interpretation by_priority: weak_order request_lt
  by unfold_locales (auto simp: request_lt_def split: if_splits)

lemmas heap_specs = by_priority.heappush_spec by_priority.heapify_spec

definition priority_inv :: "priority_queue \<Rightarrow> bool" where
  "priority_inv q \<longleftrightarrow> heap_from request_lt 0 (pq_heap q)"

definition priority_items :: "priority_queue \<Rightarrow> request multiset" where
  "priority_items q = mset (pq_heap q)"

lemma heappop_request:
  assumes "heap_from request_lt 0 h" and "h \<noteq> []"
  obtains r h' where "heappop request_lt h = Inr (r, h')" and "r = h ! 0" and "heap_from request_lt 0 h'"
    and "mset h = add_mset r (mset h')" and "\<And>y. y \<in> set h \<Longrightarrow> \<not> request_lt y r" and "heap_iter h = r # heap_iter h'"
proof -
  obtain r h' where r: "heappop request_lt h = Inr (r, h')" "heap_from request_lt 0 h'" "mset h = add_mset r (mset h')"
    "\<And>y. y \<in> set h \<Longrightarrow> \<not> request_lt y r"
    using by_priority.heappop_spec [OF assms] by metis
  moreover have "r = h ! 0"
    using r(1) assms(2) by (cases h rule: rev_cases) (auto simp: heappop_def Let_def nth_append split: if_splits)
  ultimately show thesis
    using that heap_iter.simps [of h] by simp
qed

interpretation prio: request_queue priority_inv priority_items priority_add_request priority_pop_request
  priority_peek_request priority_prepend_request priority_remove_request priority_remove_requests priority_len
  priority_iter
proof
  fix q r
  assume q: "priority_inv q"
  show "priority_inv (priority_add_request r q) \<and>
      priority_items (priority_add_request r q) = add_mset r (priority_items q)"
    using q heap_specs by (simp add: priority_inv_def priority_items_def priority_add_request_def)
  then show "priority_inv (priority_prepend_request r q) \<and>
      priority_items (priority_prepend_request r q) = add_mset r (priority_items q)"
    by (simp add: priority_prepend_request_def)
  show "\<exists>q'. priority_remove_request r q = Inr q' \<and> priority_inv q' \<and> priority_items q = add_mset r (priority_items q')"
    if "r \<in># priority_items q" "inj_on obj_id (set_mset (priority_items q))"
    using that py_remove_spec [of r "pq_heap q"] heap_specs
    by (auto simp: priority_items_def priority_remove_request_def priority_inv_def)
next
  fix q
  assume q: "priority_inv q" and "priority_items q \<noteq> {#}"
  then have h: "heap_from request_lt 0 (pq_heap q)" "pq_heap q \<noteq> []"
    by (simp_all add: priority_inv_def priority_items_def)
  obtain r h' where "heappop request_lt (pq_heap q) = Inr (r, h')" "r = pq_heap q ! 0" "heap_from request_lt 0 h'"
    "mset (pq_heap q) = add_mset r (mset h')" "heap_iter (pq_heap q) = r # heap_iter h'"
    by (rule heappop_request [OF h])
  with h show "\<exists>r q'. priority_pop_request q = Inr (r, q') \<and> priority_peek_request q = Inr r \<and> priority_inv q' \<and>
      priority_items q = add_mset r (priority_items q') \<and> priority_iter q = r # priority_iter q'"
    by (intro exI [of _ r] exI [of _ "q\<lparr>pq_heap := h'\<rparr>"])
      (simp add: priority_inv_def priority_items_def priority_pop_request_def priority_peek_request_def priority_iter_def)
qed (use heap_specs in \<open>simp_all add: priority_inv_def priority_items_def priority_pop_request_def
    priority_peek_request_def priority_iter_def heap_iter.simps heappop_def priority_remove_request_def
    priority_remove_requests_def priority_len_def py_remove_absent\<close>)

fun rq_inv :: "request_queue_obj \<Rightarrow> bool" where
  "rq_inv (FCFSRequestQueue q) = True"
| "rq_inv (PriorityRequestQueue q) = priority_inv q"

fun rq_items :: "request_queue_obj \<Rightarrow> request multiset" where
  "rq_items (FCFSRequestQueue q) = mset q"
| "rq_items (PriorityRequestQueue q) = priority_items q"

interpretation rq: request_queue rq_inv rq_items rq_add_request rq_pop_request rq_peek_request rq_prepend_request
  rq_remove_request rq_remove_requests rq_len rq_iter
proof
  fix q r
  assume q: "rq_inv q"
  show "rq_inv (rq_add_request r q) \<and> rq_items (rq_add_request r q) = add_mset r (rq_items q)"
    using q fcfs.add_law prio.add_law by (cases q) auto
  show "rq_inv (rq_prepend_request r q) \<and> rq_items (rq_prepend_request r q) = add_mset r (rq_items q)"
    using q fcfs.prepend_law prio.prepend_law by (cases q) auto
  show "\<exists>q'. rq_remove_request r q = Inr q' \<and> rq_inv q' \<and> rq_items q = add_mset r (rq_items q')"
    if "r \<in># rq_items q" "inj_on obj_id (set_mset (rq_items q))"
    using that q fcfs.remove_present prio.remove_present by (cases q) fastforce+
  show "rq_remove_request r q = Inl ValueError" if "obj_id r \<notin> obj_id ` set_mset (rq_items q)"
    using that q fcfs.remove_absent prio.remove_absent by (cases q) auto
next
  fix q
  assume q: "rq_inv q"
  show "rq_pop_request q = Inl IndexError \<and> rq_peek_request q = Inl IndexError \<and> rq_iter q = []" if "rq_items q = {#}"
    using that q fcfs.pop_empty prio.pop_empty by (cases q) auto
  show "\<exists>r q'. rq_pop_request q = Inr (r, q') \<and> rq_peek_request q = Inr r \<and> rq_inv q' \<and>
      rq_items q = add_mset r (rq_items q') \<and> rq_iter q = r # rq_iter q'" if "rq_items q \<noteq> {#}"
  proof (cases q)
    case (FCFSRequestQueue q1)
    then show ?thesis using that fcfs.pop_law [of q1] by fastforce
  next
    case (PriorityRequestQueue q2)
    then show ?thesis using that q prio.pop_law [of q2] by fastforce
  qed
  show "rq_len q = size (rq_items q)"
    using q fcfs.len_law prio.len_law by (cases q) auto
next
  fix q rs
  assume "rq_inv q"
  then show "rq_inv (rq_remove_requests rs q) \<and>
      rq_items (rq_remove_requests rs q) = filter_mset (not_among rs) (rq_items q)"
    using fcfs.removes_law prio.removes_law by (cases q) auto
qed

section \<open>The order of the priority queue\<close>

text \<open>In order: no request is smaller than one before it.\<close>

abbreviation in_order :: "request list \<Rightarrow> bool" where
  "in_order \<equiv> sorted_wrt (\<lambda>a b. \<not> request_lt b a)"

lemma heap_iter_sorted: "heap_from request_lt 0 h \<Longrightarrow> in_order (heap_iter h) \<and> mset (heap_iter h) = mset h"
proof (induction "length h" arbitrary: h)
  case 0
  then show ?case by (simp add: heap_iter.simps heappop_def)
next
  case (Suc n)
  then have ne: "h \<noteq> []" by auto
  obtain r h' where r: "heap_from request_lt 0 h'" "mset h = add_mset r (mset h')"
    "\<And>y. y \<in> set h \<Longrightarrow> \<not> request_lt y r" "heap_iter h = r # heap_iter h'"
    by (rule heappop_request [OF Suc.prems ne], blast)
  then have "length h' = n" "set h' \<subseteq> set h"
    using Suc.hyps(2) mset_eq_length [of h "r # h'"] mset_eq_setD [of h "r # h'"] by auto
  moreover from this have "in_order (heap_iter h') \<and> mset (heap_iter h') = mset h'"
    using Suc.hyps(1) r(1) by auto
  moreover from this have "set (heap_iter h') = set h'"
    using mset_eq_setD by blast
  ultimately show ?case using r by auto
qed

lemma in_order_unique:
  "in_order xs \<Longrightarrow> in_order ys \<Longrightarrow> mset xs = mset ys \<Longrightarrow> inj_on obj_id (set xs) \<Longrightarrow> xs = ys"
proof (induction xs arbitrary: ys)
  case (Cons x xs)
  obtain y ys' where ys: "ys = y # ys'"
    using Cons.prems(3) by (cases ys) auto
  have sets: "set (x # xs) = set (y # ys')"
    using Cons.prems(3) ys mset_eq_setD by blast
  have "\<not> request_lt x y" "\<not> request_lt y x"
    using Cons.prems(1,2) ys sets by (auto split: if_splits)
  then have "obj_id x = obj_id y" using request_lt_total by blast
  then have "x = y" using Cons.prems(4) sets by (metis inj_on_def list.set_intros(1))
  then show ?case using Cons ys by auto
qed simp

lemma in_order_filter: "in_order xs \<Longrightarrow> in_order (filter P xs)"
  by (induction xs) auto

text \<open>C30: Whatever the policy, popping a waiting queue until it is empty returns exactly the requests it held, in the
  order in which iterating over it lists them, and the next pop raises \<^verbatim>\<open>IndexError\<close>.\<close>

theorem queue_pops_what_it_iterates:
  assumes "rq_inv q"
  shows "\<exists>q'. pop_n rq_pop_request (rq_len q) q = Inr (rq_iter q, q') \<and> mset (rq_iter q) = rq_items q \<and>
    rq_items q' = {#} \<and> rq_pop_request q' = Inl IndexError"
  using rq.pop_all [OF assms] rq.iter_mset [OF assms] by blast

theorem queue_pops_what_it_iterates_witness:
  "\<exists>q'. pop_n rq_pop_request 2 (FCFSRequestQueue [plain_request ''a'' [1], plain_request ''b'' [2]]) =
     Inr ([plain_request ''a'' [1], plain_request ''b'' [2]], q') \<and> rq_items q' = {#}"
  using queue_pops_what_it_iterates [of "FCFSRequestQueue [plain_request ''a'' [1], plain_request ''b'' [2]]"]
  by (auto simp: fcfs_len_def fcfs_iter_def numeral_2_eq_2)



text \<open>C32: A priority queue built by adding requests in any order lists them sorted by \<^verbatim>\<open>Request.__lt__\<close>: the
  result is an ordered permutation of what was added, and its first element is the one that \<^verbatim>\<open>peek_request\<close> returns.\<close>

theorem priority_queue_sorts_requests:
  "in_order (priority_iter (fold priority_add_request rs priority_init)) \<and>
   mset (priority_iter (fold priority_add_request rs priority_init)) = mset rs \<and>
   priority_peek_request (fold priority_add_request rs priority_init) =
     (if rs = [] then Inl IndexError else Inr (hd (priority_iter (fold priority_add_request rs priority_init))))"
proof -
  define q where "q = fold priority_add_request rs priority_init"
  have "priority_inv q0 \<Longrightarrow> priority_inv (fold priority_add_request rs q0) \<and>
      priority_items (fold priority_add_request rs q0) = mset rs + priority_items q0" for q0
    by (induction rs arbitrary: q0) (auto simp: prio.add_law)
  then have q: "priority_inv q" "priority_items q = mset rs"
    by (simp_all add: q_def priority_init_def priority_inv_def priority_items_def heap_from_def ordered_but_def)
  then have "in_order (priority_iter q) \<and> mset (priority_iter q) = mset rs"
    using heap_iter_sorted [of "pq_heap q"] by (simp add: priority_inv_def priority_items_def priority_iter_def)
  moreover have "priority_peek_request q = (if rs = [] then Inl IndexError else Inr (hd (priority_iter q)))"
    using prio.pop_empty [OF q(1)] prio.pop_law [OF q(1)] q(2) by auto
  ultimately show ?thesis by (simp add: q_def)
qed

text \<open>C33: Removing a set of requests from a waiting queue deletes exactly them from its order of service: the requests
  that stay keep their relative order, for the deque and for the re-heapified heap alike.\<close>

theorem remove_requests_keeps_order:
  assumes "rq_inv q" and "inj_on obj_id (set_mset (rq_items q))"
  shows "rq_iter (rq_remove_requests rs q) = filter (not_among rs) (rq_iter q)"
proof (cases q)
  case (PriorityRequestQueue p)
  define p' where "p' = priority_remove_requests rs p"
  have p: "priority_inv p" "priority_inv p'" "priority_items p' = filter_mset (not_among rs) (priority_items p)"
    using assms(1) PriorityRequestQueue prio.removes_law [of p rs] by (simp_all add: p'_def)
  have "in_order (priority_iter p')" "in_order (priority_iter p)"
    "mset (priority_iter p) = priority_items p" "mset (priority_iter p') = priority_items p'"
    using p heap_iter_sorted by (simp_all add: priority_inv_def priority_items_def priority_iter_def)
  moreover from this have "inj_on obj_id (set (filter (not_among rs) (priority_iter p)))"
    using assms(2) PriorityRequestQueue by (metis filter_is_subset inj_on_subset rq_items.simps(2) set_mset_mset)
  ultimately have "priority_iter p' = filter (not_among rs) (priority_iter p)"
    using in_order_unique [of "filter (not_among rs) (priority_iter p)" "priority_iter p'"] in_order_filter p(3) by simp
  then show ?thesis using PriorityRequestQueue by (simp add: p'_def)
qed (simp add: fcfs_iter_def fcfs_remove_requests_def)

theorem remove_requests_keeps_order_witness:
  "rq_iter (rq_remove_requests [plain_request ''a'' [1]]
     (PriorityRequestQueue \<lparr>pq_heap = [plain_request ''a'' [1], (plain_request ''b'' [2])\<lparr>obj_id := 1\<rparr>]\<rparr>)) =
   filter (not_among [plain_request ''a'' [1]])
     (rq_iter (PriorityRequestQueue \<lparr>pq_heap = [plain_request ''a'' [1], (plain_request ''b'' [2])\<lparr>obj_id := 1\<rparr>]\<rparr>))"
proof (rule remove_requests_keeps_order)
  show "rq_inv (PriorityRequestQueue \<lparr>pq_heap = [plain_request ''a'' [1], (plain_request ''b'' [2])\<lparr>obj_id := 1\<rparr>]\<rparr>)"
    by (simp add: priority_inv_def heap_from_def ordered_but_def parent_def request_lt_def plain_request_def less_Suc_eq)
qed (simp add: priority_items_def plain_request_def)

text \<open>A preempted request goes to the front of a first-come-first-served queue: it is the next to be popped,
  and the requests that were waiting follow in their old order; a whole queue prepended this way comes out reversed.\<close>

lemma fcfs_prepend_is_popped_next:
  "fcfs_pop_request (fcfs_prepend_request r q) = Inr (r, q) \<and>
   fcfs_iter (fcfs_prepend_requests rs q) = rev rs @ fcfs_iter q \<and>
   fcfs_iter (fcfs_add_request r q) = fcfs_iter q @ [r]"
proof -
  have "fold (\<lambda>r q. r # q) rs q = rev rs @ q"
    by (induction rs arbitrary: q) auto
  then show ?thesis
    by (simp add: fcfs_pop_request_def fcfs_prepend_request_def fcfs_iter_def fcfs_prepend_requests_def fcfs_add_request_def)
qed

end
