(* ===== verification/Sched_Utils.thy ===== *)
theory Sched_Utils
  imports Request "HOL-Library.Sublist"
begin

text \<open>
  The helpers of the scheduler (\<^verbatim>\<open>v1/core/sched/utils.py\<close>): the stop check run after every sampled token, the
  detection of repeated patterns at the end of the output, and the removal of requests from the running list.
\<close>

section \<open>Repetition\<close>

text \<open>The inner and outer loop of \<^verbatim>\<open>_has_repeating_pattern\<close>, each over what is left of its range.\<close>

fun repeats_at :: "int list \<Rightarrow> int \<Rightarrow> int \<Rightarrow> int \<Rightarrow> int list \<Rightarrow> bool result" where
  "repeats_at token_ids pattern_len n target_token [] = Inr True"
| "repeats_at token_ids pattern_len n target_token (m # ms) =
     bindE (py_index token_ids (- (pattern_len * m + n))) (\<lambda>t.
       if t \<noteq> target_token then Inr False else repeats_at token_ids pattern_len n target_token ms)"

fun repeats_from :: "int list \<Rightarrow> int \<Rightarrow> int \<Rightarrow> int list \<Rightarrow> bool result" where
  "repeats_from token_ids pattern_len repetition_min_count [] = Inr True"
| "repeats_from token_ids pattern_len repetition_min_count (n # ns) =
     bindE (py_index token_ids (- n)) (\<lambda>target_token.
     bindE (repeats_at token_ids pattern_len n target_token [1..repetition_min_count - 1]) (\<lambda>same.
       if same then repeats_from token_ids pattern_len repetition_min_count ns else Inr False))"

definition has_repeating_pattern :: "int list \<Rightarrow> int \<Rightarrow> int \<Rightarrow> bool result" where
  "has_repeating_pattern token_ids pattern_len repetition_min_count =
     repeats_from token_ids pattern_len repetition_min_count [1..pattern_len]"

fun search_pattern :: "int list \<Rightarrow> int \<Rightarrow> int list \<Rightarrow> bool result" where
  "search_pattern token_ids cnt [] = Inr False"
| "search_pattern token_ids cnt (pattern_len # ls) =
     (if pattern_len * cnt > int (length token_ids) then Inr False
      else bindE (has_repeating_pattern token_ids pattern_len cnt) (\<lambda>found.
             if found then Inr True else search_pattern token_ids cnt ls))"

definition check_sequence_repetition :: "int list \<Rightarrow> repetition_params \<Rightarrow> bool result" where
  "check_sequence_repetition token_ids params =
     (let mx = max_pattern_size params; cnt = min_count params;
          mn = (if min_pattern_size params \<le> 0 then 1 else min_pattern_size params)
      in if mx \<le> 0 \<or> cnt < 2 \<or> mn > mx then Inr False
         else search_pattern token_ids cnt [mn..mx])"

section \<open>Removing requests from a list\<close>

text \<open>The set of items is a list without duplicates, its first element what \<^verbatim>\<open>next(iter(...))\<close> returns.\<close>

definition remove_all :: "'a list \<Rightarrow> 'a list \<Rightarrow> 'a list" where
  "remove_all lst items_to_remove =
     (case items_to_remove of
        [] \<Rightarrow> lst
      | [item] \<Rightarrow> remove1 item lst
      | _ \<Rightarrow> filter (\<lambda>x. x \<notin> set items_to_remove) lst)"

section \<open>The stop check\<close>

text \<open>\<^verbatim>\<open>sampling_params.stop_token_ids or ()\<close>\<close>

definition stop_tokens :: "sampling_params_t \<Rightarrow> int list" where
  "stop_tokens sp = (case sp_stop_token_ids sp of None \<Rightarrow> [] | Some ts \<Rightarrow> ts)"

definition check_stop :: "int \<Rightarrow> request \<Rightarrow> (bool \<times> request) result" where
  "check_stop max_model_len r =
     (if pooling_params r \<noteq> None then Inl AssertionError
      else case sampling_params r of
        None \<Rightarrow> Inl AssertionError
      | Some sp \<Rightarrow>
          bindE (py_index (output_token_ids r) (- 1)) (\<lambda>last_token_id.
            if sp_eos_token_id sp = Some last_token_id then Inr (True, r\<lparr>status := FINISHED_STOPPED\<rparr>)
            else if last_token_id \<in> set (stop_tokens sp) then
              Inr (True, r\<lparr>status := FINISHED_STOPPED, stop_reason := Some (StopToken last_token_id)\<rparr>)
            else if num_tokens r \<ge> max_model_len \<or> num_output_tokens r \<ge> max_tokens r then
              Inr (True, r\<lparr>status := FINISHED_LENGTH_CAPPED\<rparr>)
            else if num_output_tokens r < sp_min_tokens sp then Inr (False, r)
            else case sp_repetition_detection sp of
                None \<Rightarrow> Inr (False, r)
              | Some params \<Rightarrow>
                  bindE (check_sequence_repetition (output_token_ids r) params) (\<lambda>found.
                    if found then
                      Inr (True, r\<lparr>status := FINISHED_REPETITION, stop_reason := Some (StopString ''repetition_detected'')\<rparr>)
                    else Inr (False, r))))"

section \<open>What a repetition is\<close>

text \<open>The list ends with \<^verbatim>\<open>c\<close> copies of one pattern of length \<^verbatim>\<open>l\<close>.\<close>

definition ends_repeating :: "int list \<Rightarrow> nat \<Rightarrow> nat \<Rightarrow> bool" where
  "ends_repeating xs l c \<longleftrightarrow> (\<exists>p. length p = l \<and> suffix (concat (replicate c p)) xs)"

lemma py_index_from_end:
  "0 < n \<Longrightarrow> n \<le> int (length xs) \<Longrightarrow> py_index xs (- n) = Inr (xs ! (length xs - nat n))"
  by (auto simp: py_index_def intro: arg_cong [of _ _ "(!) xs"])

lemma repeats_at_eq:
  assumes "0 < n" "0 \<le> l" "\<And>m. m \<in> set ms \<Longrightarrow> 0 < m \<and> l * m + n \<le> int (length xs)"
  shows "repeats_at xs l n t ms = Inr (\<forall>m \<in> set ms. xs ! (length xs - nat (l * m + n)) = t)"
  using assms(3)
proof (induction ms)
  case (Cons m ms)
  then have "0 \<le> l * m" "l * m + n \<le> int (length xs)"
    using assms(2) by (auto intro: mult_nonneg_nonneg less_imp_le)
  then have "0 < l * m + n" "l * m + n \<le> int (length xs)"
    using assms(1) by auto
  then have "py_index xs (- (l * m + n)) = Inr (xs ! (length xs - nat (l * m + n)))"
    by (rule py_index_from_end)
  then show ?case using Cons by (simp del: minus_add_distrib)
qed simp

lemma repeats_from_eq:
  assumes "0 < c" "\<And>n. n \<in> set ns \<Longrightarrow> 0 < n \<and> n \<le> l" "l * c \<le> int (length xs)"
  shows "repeats_from xs l c ns =
    Inr (\<forall>n \<in> set ns. \<forall>m \<in> {1..c - 1}. xs ! (length xs - nat (l * m + n)) = xs ! (length xs - nat n))"
  using assms(2)
proof (induction ns)
  case (Cons n ns)
  have n: "0 < n" "n \<le> l" using Cons.prems by auto
  have fits: "l * m + n \<le> int (length xs)" if "m \<in> set [1..c - 1]" for m
  proof -
    have "l * m + n \<le> l * (m + 1)" using n by (simp add: algebra_simps)
    also have "\<dots> \<le> l * c" using that n by (intro mult_left_mono) auto
    finally show ?thesis using assms(3) by simp
  qed
  have "l * 1 \<le> l * c" using n assms(1) by (intro mult_left_mono) auto
  then have "n \<le> int (length xs)" using n assms(3) by linarith
  moreover have "repeats_at xs l n t [1..c - 1] = Inr (\<forall>m \<in> {1..c - 1}. xs ! (length xs - nat (l * m + n)) = t)" for t
    using repeats_at_eq [of n l "[1..c - 1]" xs t] n fits by simp
  ultimately show ?case
    using Cons n by (simp add: py_index_from_end)
qed simp

text \<open>Comparing every token of the last pattern with its earlier copies is comparing with the repeated pattern.\<close>

lemma nth_concat_replicate: "j < length p * c \<Longrightarrow> concat (replicate c p) ! j = p ! (j mod length p)"
proof (induction c arbitrary: j)
  case (Suc c)
  then show ?case by (cases "j < length p") (auto simp: nth_append le_mod_geq)
qed simp

lemma pattern_position:
  fixes c :: nat
  assumes "1 \<le> n" "n \<le> l" "m < c"
  shows "l * m + n \<le> l * c" and "(l * c - (l * m + n)) mod l = l - n" and "l * c - (l * m + n) < l * c"
proof -
  obtain d where d: "c = Suc (m + d)" using assms(3) less_imp_Suc_add by blast
  then have eq: "l * c = (l * m + n) + (l * d + (l - n))" using assms by (simp add: algebra_simps)
  then show "l * m + n \<le> l * c" "l * c - (l * m + n) < l * c" using assms by auto
  have "l * c - (l * m + n) = (l - n) + d * l" using eq by (simp add: algebra_simps)
  moreover have "((l - n) + d * l) mod l = l - n" using assms(1,2) by (subst mod_mult_self1) simp
  ultimately show "(l * c - (l * m + n)) mod l = l - n" by simp
qed

lemma ends_repeating_imp:
  assumes "ends_repeating xs l c" "1 \<le> n" "n \<le> l" "m < c"
  shows "xs ! (length xs - (l * m + n)) = xs ! (length xs - n)"
proof -
  obtain p zs where p: "length p = l" and xs: "xs = zs @ concat (replicate c p)"
    using assms(1) by (auto simp: ends_repeating_def suffix_def)
  have len: "length xs = length zs + l * c"
    using p by (simp add: xs length_concat sum_list_replicate)
  have "xs ! (length xs - (l * i + n)) = p ! (l - n)" if "i < c" for i
  proof -
    note pos = pattern_position [OF assms(2,3) that]
    have "length xs - (l * i + n) = length zs + (l * c - (l * i + n))" using len pos(1) by simp
    then have "xs ! (length xs - (l * i + n)) = concat (replicate c p) ! (l * c - (l * i + n))"
      by (simp add: xs nth_append)
    then show ?thesis using nth_concat_replicate [of "l * c - (l * i + n)" p c] pos p by simp
  qed
  from this [of m] this [of 0] show ?thesis using assms(4) by simp
qed

lemma ends_repeating_if:
  assumes "0 < l" "0 < c" "l * c \<le> length xs"
    and same: "\<And>n m. 1 \<le> n \<Longrightarrow> n \<le> l \<Longrightarrow> m < c \<Longrightarrow> xs ! (length xs - (l * m + n)) = xs ! (length xs - n)"
  shows "ends_repeating xs l c"
proof -
  define p where "p = drop (length xs - l) xs"
  have "l * 1 \<le> l * c" using assms(2) by (intro mult_le_mono) auto
  then have l: "l \<le> length xs" using assms(3) by linarith
  then have p: "length p = l" by (simp add: p_def)
  have "drop (length xs - l * c) xs ! j = concat (replicate c p) ! j" if j: "j < l * c" for j
  proof -
    define q r where "q = j div l" and "r = j mod l"
    have jq: "j = l * q + r" "r < l" using assms(1) by (simp_all add: q_def r_def)
    have "q < c" using j assms(1) by (simp add: q_def div_less_iff_less_mult mult.commute)
    then obtain d where d: "c = Suc (q + d)" using less_imp_Suc_add by blast
    have "l * c = j + (l * d + (l - r))" using jq d by (simp add: algebra_simps)
    then have "length xs - l * c + j = length xs - (l * d + (l - r))" using assms(3) by linarith
    moreover have "xs ! (length xs - (l * d + (l - r))) = xs ! (length xs - (l - r))"
      using same [of "l - r" d] jq d by simp
    moreover have "p ! r = xs ! (length xs - (l - r))" using jq l by (simp add: p_def)
    ultimately show ?thesis
      using nth_concat_replicate [of j p c] j p assms(3) by (simp add: r_def)
  qed
  then have "drop (length xs - l * c) xs = concat (replicate c p)"
    using assms(3) p by (intro nth_equalityI) (simp_all add: length_concat sum_list_replicate)
  then show ?thesis
    using p suffix_drop unfolding ends_repeating_def by metis
qed

lemma has_repeating_pattern_eq:
  assumes "0 < l" "2 \<le> c" "l * c \<le> int (length xs)"
  shows "has_repeating_pattern xs l c = Inr (ends_repeating xs (nat l) (nat c))"
proof -
  have eq: "nat (l * int m + int n) = nat l * m + n" for m n
  proof -
    have "l * int m + int n = int (nat l * m + n)" using assms(1) by simp
    then show ?thesis by (simp only: nat_int)
  qed
  have "int (nat l * nat c) \<le> int (length xs)" using assms by simp
  then have fit: "nat l * nat c \<le> length xs" by (simp only: of_nat_le_iff)
  have "(\<forall>n \<in> set [1..l]. \<forall>m \<in> {1..c - 1}. xs ! (length xs - nat (l * m + n)) = xs ! (length xs - nat n))
    \<longleftrightarrow> ends_repeating xs (nat l) (nat c)" (is "?all \<longleftrightarrow> _")
  proof
    assume a: ?all
    have same: "xs ! (length xs - (nat l * m + n)) = xs ! (length xs - n)" if "1 \<le> n" "n \<le> nat l" "m < nat c" for n m
    proof (cases "m = 0")
      case False
      have mem: "int n \<in> set [1..l]" "int m \<in> {1..c - 1}" using that False by auto
      from a [THEN bspec, OF mem(1), THEN bspec, OF mem(2)]
      have "xs ! (length xs - nat (l * int m + int n)) = xs ! (length xs - nat (int n))" .
      then show ?thesis by (simp only: eq nat_int)
    qed simp
    show "ends_repeating xs (nat l) (nat c)"
      by (rule ends_repeating_if [OF _ _ fit same]) (use assms(1,2) in simp_all)
  next
    assume r: "ends_repeating xs (nat l) (nat c)"
    show ?all
    proof (intro ballI)
      fix n m assume "n \<in> set [1..l]" "m \<in> {1..c - 1}"
      then have "1 \<le> nat n" "nat n \<le> nat l" "nat m < nat c" "int (nat m) = m" "int (nat n) = n" by auto
      then show "xs ! (length xs - nat (l * m + n)) = xs ! (length xs - nat n)"
        using ends_repeating_imp [OF r, of "nat n" "nat m"] eq [of "nat m" "nat n"] by metis
    qed
  qed
  moreover have "repeats_from xs l c [1..l] =
      Inr (\<forall>n \<in> set [1..l]. \<forall>m \<in> {1..c - 1}. xs ! (length xs - nat (l * m + n)) = xs ! (length xs - nat n))"
    by (rule repeats_from_eq) (use assms in simp_all)
  ultimately show ?thesis
    by (simp only: has_repeating_pattern_def)
qed

lemma search_pattern_eq:
  assumes "2 \<le> c" "0 < a"
  shows "search_pattern xs c [a..b] =
    Inr (\<exists>l \<in> {a..b}. l * c \<le> int (length xs) \<and> ends_repeating xs (nat l) (nat c))"
  using assms(2)
proof (induction "nat (b + 1 - a)" arbitrary: a)
  case 0
  then show ?case by simp
next
  case (Suc k)
  then have ab: "a \<le> b" by simp
  have split: "{a..b} = insert a {a + 1..b}" using ab by auto
  have mono: "\<not> l * c \<le> int (length xs)" if "l \<in> {a..b}" "\<not> a * c \<le> int (length xs)" for l
  proof -
    have "a * c \<le> l * c" using that(1) assms(1) by (intro mult_right_mono) auto
    then show ?thesis using that(2) by linarith
  qed
  have "search_pattern xs c [a + 1..b] =
      Inr (\<exists>l \<in> {a + 1..b}. l * c \<le> int (length xs) \<and> ends_repeating xs (nat l) (nat c))"
    using Suc by (intro Suc.hyps(1)) auto
  moreover have "search_pattern xs c [a..b] =
      (if a * c > int (length xs) then Inr False
       else if ends_repeating xs (nat a) (nat c) then Inr True else search_pattern xs c [a + 1..b])"
    using upto_rec1 [OF ab] has_repeating_pattern_eq [of a c xs] Suc.prems assms(1) by simp
  ultimately show ?case
    using mono split by (cases "a * c > int (length xs)") auto
qed

lemma repetition_exact:
  "check_sequence_repetition xs p =
     Inr (2 \<le> min_count p \<and>
       (\<exists>l. max 1 (min_pattern_size p) \<le> l \<and> l \<le> max_pattern_size p \<and> ends_repeating xs (nat l) (nat (min_count p))))"
proof -
  define mn where "mn = (if min_pattern_size p \<le> 0 then 1 else min_pattern_size p)"
  have "0 < mn" "max 1 (min_pattern_size p) = mn" by (auto simp: mn_def)
  have fits: "l * min_count p \<le> int (length xs)"
    if "ends_repeating xs (nat l) (nat (min_count p))" "0 < l" "2 \<le> min_count p" for l
  proof -
    have "nat l * nat (min_count p) \<le> length xs"
      using that(1) by (auto simp: ends_repeating_def length_concat sum_list_replicate mult.commute dest!: suffix_length_le)
    then show ?thesis using that by (simp add: nat_mult_distrib [symmetric] nat_le_iff)
  qed
  show ?thesis
    using search_pattern_eq [of "min_count p" mn xs "max_pattern_size p"] \<open>0 < mn\<close> fits
    unfolding check_sequence_repetition_def Let_def mn_def [symmetric] \<open>max 1 _ = mn\<close>
    by auto fastforce+
qed

text \<open>C34: Repetition detection is exact and never raises: \<^verbatim>\<open>check_sequence_repetition\<close> returns true precisely when
  it is enabled and the tokens end with the required number of copies of a pattern whose length is in the
  configured range.\<close>

theorem repetition_detection_exact:
  "check_sequence_repetition xs p =
     Inr (2 \<le> min_count p \<and>
       (\<exists>l. max 1 (min_pattern_size p) \<le> l \<and> l \<le> max_pattern_size p \<and> ends_repeating xs (nat l) (nat (min_count p))))"
  by (rule repetition_exact)

lemma check_stop_total:
  assumes "pooling_params r = None" and "sampling_params r = Some sp" and "output_token_ids r \<noteq> []"
  shows "\<exists>stop r'. check_stop max_model_len r = Inr (stop, r') \<and>
    (stop \<longleftrightarrow> sp_eos_token_id sp = Some (last (output_token_ids r)) \<or>
       last (output_token_ids r) \<in> set (stop_tokens sp) \<or>
       num_tokens r \<ge> max_model_len \<or> num_output_tokens r \<ge> max_tokens r \<or>
       (num_output_tokens r \<ge> sp_min_tokens sp \<and>
        (\<exists>p. sp_repetition_detection sp = Some p \<and> check_sequence_repetition (output_token_ids r) p = Inr True))) \<and>
    (stop \<longrightarrow> request_is_finished r') \<and> (\<not> stop \<longrightarrow> r' = r)"
proof -
  have [simp]: "py_index (output_token_ids r) (- 1) = Inr (last (output_token_ids r))"
    using assms(3) by (simp add: py_index_from_end Suc_le_eq last_conv_nth)
  have "\<exists>b. check_sequence_repetition (output_token_ids r) p = Inr b" for p
    using repetition_exact by blast
  then obtain rep where rep: "\<And>p. check_sequence_repetition (output_token_ids r) p = Inr (rep p)"
    by metis
  show ?thesis
    using assms(1,2)
    by (cases "sp_repetition_detection sp")
      (simp_all add: check_stop_def rep request_is_finished_def status_is_finished_def less_request_status_def)
qed



text \<open>A request that has not produced a token raises: \<^verbatim>\<open>check_stop\<close> reads the last output token first, and
  refuses pooling requests and requests without sampling parameters.\<close>

lemma check_stop_raises:
  "check_stop max_model_len r = Inl e \<longleftrightarrow>
     ((pooling_params r \<noteq> None \<or> sampling_params r = None) \<and> e = AssertionError) \<or>
     (pooling_params r = None \<and> sampling_params r \<noteq> None \<and> output_token_ids r = [] \<and> e = IndexError)"
proof (cases "pooling_params r = None \<and> sampling_params r \<noteq> None \<and> output_token_ids r \<noteq> []")
  case True
  then obtain sp where "sampling_params r = Some sp" by blast
  with True obtain x where "check_stop max_model_len r = Inr x" using check_stop_total by blast
  then show ?thesis using True by simp
next
  case False
  then show ?thesis by (cases "sampling_params r") (auto simp: check_stop_def py_index_def)
qed

text \<open>Removing requests from the running list. When the list has no duplicates, \<^verbatim>\<open>remove_all\<close> keeps exactly the
  elements outside the set, in order, on the fast path for one element as on the general path; it keeps every other
  element in any case.\<close>

lemma remove_all_filters:
  "(distinct lst \<longrightarrow> remove_all lst items = filter (\<lambda>x. x \<notin> set items) lst) \<and>
   filter (\<lambda>x. x \<notin> set items) (remove_all lst items) = filter (\<lambda>x. x \<notin> set items) lst"
proof -
  have "filter (\<lambda>x. x \<noteq> i) (remove1 i lst) = filter (\<lambda>x. x \<noteq> i) lst" for i
    by (induction lst) auto
  then show ?thesis
    by (auto simp: remove_all_def distinct_remove1_removeAll removeAll_filter_not_eq split: list.split intro!: filter_cong)
qed



end
