(* ===== verification/Encoder_Cache.thy ===== *)
theory Encoder_Cache
  imports Request
begin

text \<open>
  The encoder cache manager (\<^verbatim>\<open>v1/core/encoder_cache_manager.py\<close>): the accounting of the embeddings of multimodal
  inputs, shared between requests by the hash of the input and evicted oldest first once no request refers to
  them, and the variant for encoder-decoder models. Sets are lists without duplicates, the ordered dictionary of
  evictable entries is an association list with the oldest entry first.
\<close>

section \<open>EncoderCacheManager\<close>

record encoder_cache =
  ec_cache_size :: int
  ec_num_free_slots :: int
  ec_num_freeable_slots :: int
  ec_cached :: "string \<rightharpoonup> string list"
  ec_request_cached_ids :: "string \<rightharpoonup> nat list"
  ec_freeable :: "(string \<times> int) list"
  ec_freed :: "string list"

definition ec_init :: "int \<Rightarrow> encoder_cache" where
  "ec_init cache_size =
     \<lparr>ec_cache_size = cache_size, ec_num_free_slots = cache_size, ec_num_freeable_slots = cache_size,
      ec_cached = Map.empty, ec_request_cached_ids = Map.empty, ec_freeable = [], ec_freed = []\<rparr>"

definition ec_create_manager :: "int \<Rightarrow> encoder_cache" where
  "ec_create_manager cache_size = ec_init cache_size"

definition ec_reset :: "encoder_cache \<Rightarrow> encoder_cache" where
  "ec_reset m =
     m\<lparr>ec_cached := Map.empty, ec_request_cached_ids := Map.empty, ec_freeable := [], ec_freed := [],
       ec_num_free_slots := ec_cache_size m, ec_num_freeable_slots := ec_cache_size m\<rparr>"

text \<open>\<^verbatim>\<open>request.mm_features[input_id].identifier\<close>\<close>

definition mm_hash_of :: "request \<Rightarrow> nat \<Rightarrow> string result" where
  "mm_hash_of r i = bindE (py_index (mm_features r) (int i)) (\<lambda>f. Inr (mm_identifier f))"

text \<open>\<^verbatim>\<open>self.request_cached_ids.setdefault(request_id, set()).add(input_id)\<close>\<close>

definition ec_note_input :: "string \<Rightarrow> nat \<Rightarrow> encoder_cache \<Rightarrow> encoder_cache" where
  "ec_note_input rid i m =
     m\<lparr>ec_request_cached_ids := (ec_request_cached_ids m)
         (rid \<mapsto> List.insert i (case ec_request_cached_ids m rid of None \<Rightarrow> [] | Some is \<Rightarrow> is))\<rparr>"

text \<open>\<^verbatim>\<open>OrderedDict.pop(key)\<close>\<close>

definition od_pop :: "string \<Rightarrow> (string \<times> int) list \<Rightarrow> (int \<times> (string \<times> int) list) result" where
  "od_pop k d = (case map_of d k of None \<Rightarrow> Inl KeyError | Some v \<Rightarrow> Inr (v, filter (\<lambda>e. fst e \<noteq> k) d))"

text \<open>\<^verbatim>\<open>OrderedDict.__setitem__\<close>: a present key keeps its place.\<close>

definition od_set :: "string \<Rightarrow> int \<Rightarrow> (string \<times> int) list \<Rightarrow> (string \<times> int) list" where
  "od_set k v d =
     (if k \<in> fst ` set d then map (\<lambda>e. if fst e = k then (k, v) else e) d else d @ [(k, v)])"

definition check_and_update_cache :: "request \<Rightarrow> nat \<Rightarrow> encoder_cache \<Rightarrow> (bool \<times> encoder_cache) result" where
  "check_and_update_cache r input_id m =
     bindE (mm_hash_of r input_id) (\<lambda>h.
       case ec_cached m h of
         None \<Rightarrow> Inr (False, m)
       | Some refs \<Rightarrow>
           bindE (if refs = [] then
                    bindE (od_pop h (ec_freeable m)) (\<lambda>(n, d).
                      Inr (m\<lparr>ec_freeable := d, ec_num_freeable_slots := ec_num_freeable_slots m - n\<rparr>))
                  else Inr m) (\<lambda>m1.
             Inr (True, ec_note_input (request_id r) input_id
               (m1\<lparr>ec_cached := (ec_cached m1)(h \<mapsto> List.insert (request_id r) refs)\<rparr>))))"

text \<open>The eviction loop of \<^verbatim>\<open>can_allocate\<close>, one entry per round; \<^verbatim>\<open>popitem\<close> of an empty dictionary raises.\<close>

fun evict_until :: "int \<Rightarrow> (string \<times> int) list \<Rightarrow> encoder_cache \<Rightarrow> encoder_cache result" where
  "evict_until n [] m = (if n > ec_num_free_slots m then Inl KeyError else Inr (m\<lparr>ec_freeable := []\<rparr>))"
| "evict_until n ((h, k) # d) m =
     (if n > ec_num_free_slots m then
        (if ec_cached m h = None then Inl KeyError
         else evict_until n d (m\<lparr>ec_cached := (ec_cached m)(h := None), ec_freed := ec_freed m @ [h],
                                ec_num_free_slots := ec_num_free_slots m + k\<rparr>))
      else Inr (m\<lparr>ec_freeable := (h, k) # d\<rparr>))"

definition can_allocate :: "request \<Rightarrow> nat \<Rightarrow> int \<Rightarrow> int \<Rightarrow> encoder_cache \<Rightarrow> (bool \<times> encoder_cache) result" where
  "can_allocate r input_id encoder_compute_budget num_embeds_to_schedule m =
     bindE (get_num_encoder_embeds r input_id) (\<lambda>embeds.
       if embeds > encoder_compute_budget then Inr (False, m)
       else let num_embeds = embeds + num_embeds_to_schedule
            in if num_embeds \<le> ec_num_free_slots m then Inr (True, m)
               else if num_embeds > ec_num_freeable_slots m then Inr (False, m)
               else bindE (evict_until num_embeds (ec_freeable m) m) (\<lambda>m'. Inr (True, m')))"

definition ec_allocate :: "request \<Rightarrow> nat \<Rightarrow> encoder_cache \<Rightarrow> encoder_cache result" where
  "ec_allocate r input_id m =
     bindE (mm_hash_of r input_id) (\<lambda>h.
       let refs = (case ec_cached m h of None \<Rightarrow> [] | Some refs \<Rightarrow> refs)
       in bindE (get_num_encoder_embeds r input_id) (\<lambda>n.
            if \<not> (ec_num_free_slots m \<ge> n) then Inl AssertionError
            else if \<not> (ec_num_freeable_slots m \<ge> n) then Inl AssertionError
            else Inr (let m1 = ec_note_input (request_id r) input_id
                                 (m\<lparr>ec_cached := (ec_cached m)(h \<mapsto> List.insert (request_id r) refs)\<rparr>)
                      in m1\<lparr>ec_num_free_slots := ec_num_free_slots m1 - n,
                            ec_num_freeable_slots := ec_num_freeable_slots m1 - n\<rparr>)))"

definition get_cached_input_ids :: "request \<Rightarrow> encoder_cache \<Rightarrow> nat list" where
  "get_cached_input_ids r m = (case ec_request_cached_ids m (request_id r) of None \<Rightarrow> [] | Some is \<Rightarrow> is)"

text \<open>The first step of \<^verbatim>\<open>free_encoder_input\<close>: forget the input of the request.\<close>

definition ec_forget_input :: "string \<Rightarrow> nat \<Rightarrow> encoder_cache \<Rightarrow> encoder_cache" where
  "ec_forget_input rid i m =
     (case ec_request_cached_ids m rid of
        None \<Rightarrow> m
      | Some is \<Rightarrow>
          (let is' = removeAll i is
           in m\<lparr>ec_request_cached_ids := (ec_request_cached_ids m)(rid := if is' = [] then None else Some is')\<rparr>))"

text \<open>\<^verbatim>\<open>any(request.mm_features[other_id].identifier == mm_hash for other_id in ...)\<close>\<close>

fun any_same_hash :: "request \<Rightarrow> string \<Rightarrow> nat list \<Rightarrow> bool result" where
  "any_same_hash r h [] = Inr False"
| "any_same_hash r h (j # js) = bindE (mm_hash_of r j) (\<lambda>h'. if h' = h then Inr True else any_same_hash r h js)"

definition free_encoder_input :: "request \<Rightarrow> nat \<Rightarrow> encoder_cache \<Rightarrow> encoder_cache result" where
  "free_encoder_input r input_id m =
     bindE (mm_hash_of r input_id) (\<lambda>h.
       let m1 = ec_forget_input (request_id r) input_id m
       in case ec_cached m1 h of
            None \<Rightarrow> Inr m1
          | Some refs \<Rightarrow>
              if refs = [] then Inr m1
              else bindE (any_same_hash r h (get_cached_input_ids r m1)) (\<lambda>held.
                if held then Inr m1
                else let refs' = removeAll (request_id r) refs; m2 = m1\<lparr>ec_cached := (ec_cached m1)(h \<mapsto> refs')\<rparr>
                     in if refs' \<noteq> [] then Inr m2
                        else bindE (get_num_encoder_embeds r input_id) (\<lambda>n.
                               Inr (m2\<lparr>ec_freeable := od_set h n (ec_freeable m2),
                                       ec_num_freeable_slots := ec_num_freeable_slots m2 + n\<rparr>))))"

definition ec_free :: "request \<Rightarrow> encoder_cache \<Rightarrow> encoder_cache result" where
  "ec_free r m = foldE (free_encoder_input r) (get_cached_input_ids r m) m"

definition get_freed_mm_hashes :: "encoder_cache \<Rightarrow> string list \<times> encoder_cache" where
  "get_freed_mm_hashes m = (filter (\<lambda>h. ec_cached m h = None) (ec_freed m), m\<lparr>ec_freed := []\<rparr>)"

section \<open>The budget\<close>

record mm_scheduler_config =
  sc_disable_chunked_mm_input :: bool
  sc_max_num_batched_tokens :: int
  sc_max_num_encoder_input_tokens :: int
  sc_encoder_cache_size :: int

definition compute_mm_encoder_budget :: "mm_scheduler_config \<Rightarrow> (string \<times> int) list \<Rightarrow> (int \<times> int) result" where
  "compute_mm_encoder_budget cfg mm_max_toks_per_item =
     (if mm_max_toks_per_item = [] then Inr (0, 0)
      else let max_item = Max (set (map snd mm_max_toks_per_item))
           in if sc_disable_chunked_mm_input cfg \<and> max_item > sc_max_num_batched_tokens cfg then Inl ValueError
              else Inr (max (sc_max_num_encoder_input_tokens cfg) max_item, max (sc_encoder_cache_size cfg) max_item))"

section \<open>EncoderDecoderCacheManager\<close>

record encdec_cache =
  ed_cache_size :: int
  ed_num_free_slots :: int
  ed_allocated :: "string list"
  ed_to_free :: "string list"

definition ed_init :: "int \<Rightarrow> encdec_cache" where
  "ed_init cache_size = \<lparr>ed_cache_size = cache_size, ed_num_free_slots = cache_size, ed_allocated = [], ed_to_free = []\<rparr>"

definition ed_reset :: "encdec_cache \<Rightarrow> encdec_cache" where
  "ed_reset m = m\<lparr>ed_num_free_slots := ed_cache_size m, ed_allocated := [], ed_to_free := []\<rparr>"

definition ed_check_and_update_cache :: "request \<Rightarrow> nat \<Rightarrow> encdec_cache \<Rightarrow> bool \<times> encdec_cache" where
  "ed_check_and_update_cache r input_id m = (False, m)"

definition ed_can_allocate :: "request \<Rightarrow> nat \<Rightarrow> int \<Rightarrow> int \<Rightarrow> encdec_cache \<Rightarrow> bool result" where
  "ed_can_allocate r input_id encoder_compute_budget num_embeds_to_schedule m =
     bindE (get_num_encoder_embeds r input_id) (\<lambda>n.
       if n > encoder_compute_budget then Inr False
       else Inr (n + num_embeds_to_schedule \<le> ed_num_free_slots m))"

definition ed_allocate :: "request \<Rightarrow> nat \<Rightarrow> encdec_cache \<Rightarrow> encdec_cache result" where
  "ed_allocate r input_id m =
     bindE (get_num_encoder_embeds r input_id) (\<lambda>n.
     bindE (mm_hash_of r input_id) (\<lambda>h.
       Inr (m\<lparr>ed_num_free_slots := ed_num_free_slots m - n, ed_allocated := ed_allocated m @ [h]\<rparr>)))"

definition ed_free_encoder_input :: "request \<Rightarrow> nat \<Rightarrow> encdec_cache \<Rightarrow> encdec_cache result" where
  "ed_free_encoder_input r input_id m =
     bindE (get_num_encoder_embeds r input_id) (\<lambda>n. Inr (m\<lparr>ed_num_free_slots := ed_num_free_slots m + n\<rparr>))"

definition ed_free :: "request \<Rightarrow> encdec_cache \<Rightarrow> encdec_cache result" where
  "ed_free r m = foldE (ed_free_encoder_input r) [0..<length (mm_features r)] m"

definition ed_get_cached_input_ids :: "request \<Rightarrow> encdec_cache \<Rightarrow> nat list" where
  "ed_get_cached_input_ids r m = [0..<length (mm_features r)]"

definition ed_get_freed_mm_hashes :: "encdec_cache \<Rightarrow> string list \<times> encdec_cache" where
  "ed_get_freed_mm_hashes m = (ed_to_free m, m\<lparr>ed_to_free := ed_allocated m, ed_allocated := []\<rparr>)"

section \<open>The accounting invariant\<close>

text \<open>An identifier is the hash of the data, so it determines the number of embeddings, \<^verbatim>\<open>sz\<close>; \<^verbatim>\<open>reg\<close> is the
  multimodal inputs of each request.\<close>

definition known_request :: "(string \<Rightarrow> int) \<Rightarrow> (string \<Rightarrow> mm_feature list) \<Rightarrow> request \<Rightarrow> bool" where
  "known_request sz reg r \<longleftrightarrow> mm_features r = reg (request_id r) \<and>
     (\<forall>f \<in> set (mm_features r). get_num_embeds (mm_position f) = sz (mm_identifier f) \<and> 0 \<le> sz (mm_identifier f))"

definition idle :: "(string \<rightharpoonup> string list) \<Rightarrow> string set" where
  "idle c = {h. c h = Some []}"

definition ledger :: "(string \<Rightarrow> int) \<Rightarrow> int \<Rightarrow> (string \<rightharpoonup> string list) \<Rightarrow> int \<Rightarrow> (string \<times> int) list \<Rightarrow> int \<Rightarrow> bool" where
  "ledger sz cap c free d freeable \<longleftrightarrow> finite (dom c) \<and> (\<forall>h. c h \<noteq> None \<longrightarrow> 0 \<le> sz h) \<and>
     0 \<le> free \<and> free = cap - sum sz (dom c) \<and>
     distinct (map fst d) \<and> set d = (\<lambda>h. (h, sz h)) ` idle c \<and> freeable = free + sum sz (idle c)"

definition slots_ok :: "(string \<Rightarrow> int) \<Rightarrow> encoder_cache \<Rightarrow> bool" where
  "slots_ok sz m \<longleftrightarrow>
     ledger sz (ec_cache_size m) (ec_cached m) (ec_num_free_slots m) (ec_freeable m) (ec_num_freeable_slots m)"

definition holds_input :: "encoder_cache \<Rightarrow> string \<Rightarrow> nat \<Rightarrow> bool" where
  "holds_input m rid i \<longleftrightarrow> (\<exists>is. ec_request_cached_ids m rid = Some is \<and> i \<in> set is)"

definition refers :: "encoder_cache \<Rightarrow> string \<Rightarrow> string \<Rightarrow> bool" where
  "refers m rid h \<longleftrightarrow> (\<exists>refs. ec_cached m h = Some refs \<and> rid \<in> set refs)"

definition enc_refs_ok :: "(string \<Rightarrow> mm_feature list) \<Rightarrow> encoder_cache \<Rightarrow> bool" where
  "enc_refs_ok reg m \<longleftrightarrow>
     (\<forall>rid i. holds_input m rid i \<longrightarrow> i < length (reg rid)) \<and>
     (\<forall>rid h. refers m rid h \<longleftrightarrow> (\<exists>i. holds_input m rid i \<and> mm_identifier (reg rid ! i) = h))"

lemma idle_dom: "idle c \<subseteq> dom c"
  by (auto simp: idle_def)

lemma idle_upd:
  "idle (c(h \<mapsto> refs)) = (if refs = [] then insert h (idle c) else idle c - {h})"
  "idle (c(h := None)) = idle c - {h}"
  by (auto simp: idle_def)

text \<open>How the ledger changes when an entry is added, gets its first or loses its last reference, or is evicted.\<close>

lemma ledger_add:
  assumes "ledger sz cap c free d n" and "c h = None" and "0 \<le> sz h" and "sz h \<le> free" and "refs \<noteq> []"
  shows "ledger sz cap (c(h \<mapsto> refs)) (free - sz h) d (n - sz h)"
proof -
  have "h \<notin> dom c" "idle c - {h} = idle c" using assms(2) by (auto simp: idle_def)
  then show ?thesis using assms by (auto simp: ledger_def idle_upd simp del: domIff)
qed

lemma ledger_refs:
  assumes "ledger sz cap c free d n" and "c h = Some refs" and "refs \<noteq> []" and "refs' \<noteq> []"
  shows "ledger sz cap (c(h \<mapsto> refs')) free d n"
proof -
  have "insert h (dom c) = dom c" "idle c - {h} = idle c" using assms(2,3) by (auto simp: idle_def)
  then show ?thesis using assms by (auto simp: ledger_def idle_upd)
qed

lemma ledger_reuse:
  assumes "ledger sz cap c free d n" and "c h = Some []" and "refs \<noteq> []"
  shows "od_pop h d = Inr (sz h, filter (\<lambda>e. fst e \<noteq> h) d)"
    and "ledger sz cap (c(h \<mapsto> refs)) free (filter (\<lambda>e. fst e \<noteq> h) d) (n - sz h)"
proof -
  have h: "insert h (dom c) = dom c" "h \<in> idle c" using assms(2) by (auto simp: idle_def)
  have fin: "finite (idle c)" using assms(1) finite_subset [OF idle_dom] by (auto simp: ledger_def)
  show "od_pop h d = Inr (sz h, filter (\<lambda>e. fst e \<noteq> h) d)"
  proof -
    have "map_of d h = Some (sz h)" using assms(1) h by (intro map_of_is_SomeI) (auto simp: ledger_def)
    then show ?thesis by (simp add: od_pop_def)
  qed
  show "ledger sz cap (c(h \<mapsto> refs)) free (filter (\<lambda>e. fst e \<noteq> h) d) (n - sz h)"
    using assms h fin by (auto simp: ledger_def idle_upd sum_diff1 distinct_map_filter)
qed

lemma ledger_release:
  assumes "ledger sz cap c free d n" and "c h = Some refs" and "refs \<noteq> []"
  shows "ledger sz cap (c(h \<mapsto> [])) free (od_set h (sz h) d) (n + sz h)"
proof -
  have h: "insert h (dom c) = dom c" "h \<notin> idle c" using assms(2,3) by (auto simp: idle_def)
  have fin: "finite (idle c)" using assms(1) finite_subset [OF idle_dom] by (auto simp: ledger_def)
  have "h \<notin> fst ` set d" using assms(1) h(2) by (auto simp: ledger_def)
  then show ?thesis using assms h fin by (auto simp: ledger_def idle_upd od_set_def)
qed

lemma ledger_evict:
  assumes "ledger sz cap c free ((h, k) # d) n"
  shows "c h = Some []" and "k = sz h" and "ledger sz cap (c(h := None)) (free + k) d n"
proof -
  have "(h, k) \<in> (\<lambda>h. (h, sz h)) ` idle c" using assms unfolding ledger_def by (metis list.set_intros(1))
  then show h: "c h = Some []" and k: "k = sz h" by (auto simp: idle_def)
  have fin: "finite (idle c)" using assms finite_subset [OF idle_dom] by (auto simp: ledger_def)
  have set: "insert (h, k) (set d) = (\<lambda>h. (h, sz h)) ` idle c" and "(h, k) \<notin> set d"
    using assms by (auto simp: ledger_def image_iff)
  then have "set d = (\<lambda>h. (h, sz h)) ` idle c - {(h, k)}" by blast
  then have d: "set d = (\<lambda>h. (h, sz h)) ` (idle c - {h})" using k by auto
  have "h \<in> dom c" "h \<in> idle c" using h by (auto simp: idle_def)
  then have sums: "sum sz (dom c - {h}) = sum sz (dom c) - sz h" "sum sz (idle c - {h}) = sum sz (idle c) - sz h"
    using assms fin by (simp_all add: sum_diff1 ledger_def del: domIff)
  show "ledger sz cap (c(h := None)) (free + k) d n"
    using assms d sums k h by (auto simp: ledger_def idle_upd)
qed

lemma ledger_bounds:
  assumes "ledger sz cap c free d n"
  shows "0 \<le> free" and "free \<le> n" and "n \<le> cap"
proof -
  have "0 \<le> sum sz (idle c)" using assms idle_dom [of c] by (intro sum_nonneg) (auto simp: ledger_def)
  moreover have "sum sz (idle c) \<le> sum sz (dom c)"
    using assms by (intro sum_mono2) (auto simp: ledger_def idle_def)
  ultimately show "0 \<le> free" "free \<le> n" "n \<le> cap" using assms by (auto simp: ledger_def)
qed

lemma known_embeds:
  assumes "known_request sz reg r" and "i < length (mm_features r)"
  shows "get_num_encoder_embeds r i = Inr (sz (mm_identifier (mm_features r ! i)))"
    and "mm_hash_of r i = Inr (mm_identifier (mm_features r ! i))"
    and "0 \<le> sz (mm_identifier (mm_features r ! i))"
  using assms nth_mem [of i "mm_features r"]
  by (auto simp: known_request_def get_num_encoder_embeds_def mm_hash_of_def)

lemma mm_hash_of_InrD: "mm_hash_of r i = Inr h \<Longrightarrow> i < length (mm_features r) \<and> h = mm_identifier (mm_features r ! i)"
  by (auto simp: mm_hash_of_def py_index_def result_simps split: if_splits)

section \<open>Every operation keeps the ledger\<close>

lemma check_and_update_slots:
  assumes "slots_ok sz m" and "mm_hash_of r i = Inr h"
  shows "\<exists>b m'. check_and_update_cache r i m = Inr (b, m') \<and> slots_ok sz m' \<and> ec_cache_size m' = ec_cache_size m"
proof (cases "ec_cached m h")
  case None
  then show ?thesis using assms by (auto simp: check_and_update_cache_def)
next
  case (Some refs)
  have ne: "List.insert (request_id r) refs \<noteq> []" by (auto simp: List.insert_def)
  show ?thesis
  proof (cases "refs = []")
    case True
    then show ?thesis
      using assms Some ledger_reuse [OF assms(1) [unfolded slots_ok_def], of h, OF _ ne]
      by (auto simp: check_and_update_cache_def ec_note_input_def slots_ok_def)
  next
    case False
    then show ?thesis
      using assms Some ledger_refs [OF assms(1) [unfolded slots_ok_def] Some False ne]
      by (auto simp: check_and_update_cache_def ec_note_input_def slots_ok_def)
  qed
qed

lemma allocate_slots:
  assumes "slots_ok sz m" and "known_request sz reg r" and "mm_hash_of r i = Inr h" and "ec_cached m h = None"
    and "sz h \<le> ec_num_free_slots m"
  shows "\<exists>m'. ec_allocate r i m = Inr m' \<and> slots_ok sz m' \<and> ec_num_free_slots m' = ec_num_free_slots m - sz h \<and>
    ec_cached m' = (ec_cached m)(h \<mapsto> [request_id r])"
proof -
  have i: "i < length (mm_features r)" "h = mm_identifier (mm_features r ! i)"
    using mm_hash_of_InrD [OF assms(3)] by auto
  show ?thesis
    using assms known_embeds [OF assms(2) i(1), folded i(2)] ledger_bounds [OF assms(1) [unfolded slots_ok_def]]
      ledger_add [OF assms(1) [unfolded slots_ok_def] assms(4), of "[request_id r]"]
    by (simp add: ec_allocate_def ec_note_input_def slots_ok_def Let_def)
qed

lemma forget_input_same [simp]:
  "ec_cached (ec_forget_input rid i m) = ec_cached m" "ec_cache_size (ec_forget_input rid i m) = ec_cache_size m"
  "ec_num_free_slots (ec_forget_input rid i m) = ec_num_free_slots m"
  "ec_num_freeable_slots (ec_forget_input rid i m) = ec_num_freeable_slots m"
  "ec_freeable (ec_forget_input rid i m) = ec_freeable m" "ec_freed (ec_forget_input rid i m) = ec_freed m"
  by (simp_all add: ec_forget_input_def Let_def split: option.split)

lemma any_same_hash_eq:
  "\<forall>j \<in> set js. j < length (mm_features r) \<Longrightarrow>
     any_same_hash r h js = Inr (\<exists>j \<in> set js. mm_identifier (mm_features r ! j) = h)"
  by (induction js) (auto simp: mm_hash_of_def)

lemma get_cached_input_ids_holds: "set (get_cached_input_ids r m) = {i. holds_input m (request_id r) i}"
  by (cases "ec_request_cached_ids m (request_id r)") (auto simp: get_cached_input_ids_def holds_input_def)

lemma holds_forget: "holds_input (ec_forget_input rid i m) rid' j \<longleftrightarrow> holds_input m rid' j \<and> \<not> (rid' = rid \<and> j = i)"
proof (cases "ec_request_cached_ids m rid")
  case (Some js)
  have "removeAll i js = [] \<Longrightarrow> set js \<subseteq> {i}" by (metis set_removeAll Diff_eq_empty_iff list.set(1))
  then show ?thesis using Some by (auto simp: holds_input_def ec_forget_input_def Let_def)
qed (auto simp: holds_input_def ec_forget_input_def)

text \<open>What \<^verbatim>\<open>free_encoder_input\<close> does: the request no longer holds the input, and no longer refers to the data
  unless another of its inputs is the same data.\<close>

definition released :: "string \<Rightarrow> nat \<Rightarrow> string \<Rightarrow> (nat \<Rightarrow> bool) \<Rightarrow> encoder_cache \<Rightarrow> encoder_cache \<Rightarrow> bool" where
  "released rid i h same m m' \<longleftrightarrow>
     (\<forall>rid' j. holds_input m' rid' j \<longleftrightarrow> holds_input m rid' j \<and> \<not> (rid' = rid \<and> j = i)) \<and>
     (\<forall>rid' h'. refers m' rid' h' \<longleftrightarrow>
        refers m rid' h' \<and> (rid' = rid \<and> h' = h \<longrightarrow> (\<exists>j. holds_input m' rid j \<and> same j)))"

lemma free_encoder_input_spec:
  assumes "slots_ok sz m" and "known_request sz reg r" and "mm_hash_of r i = Inr h"
    and valid: "\<And>j. holds_input m (request_id r) j \<Longrightarrow> j < length (mm_features r)"
  shows "\<exists>m'. free_encoder_input r i m = Inr m' \<and> slots_ok sz m' \<and> ec_cache_size m' = ec_cache_size m \<and>
    released (request_id r) i h (\<lambda>j. mm_identifier (mm_features r ! j) = h) m m'"
proof -
  define m1 where "m1 = ec_forget_input (request_id r) i m"
  note m1_simps = m1_def [symmetric]
  have i: "i < length (mm_features r)" "h = mm_identifier (mm_features r ! i)"
    using mm_hash_of_InrD [OF assms(3)] by auto
  have m1: "slots_ok sz m1" "ec_cached m1 = ec_cached m" "ec_cache_size m1 = ec_cache_size m"
    using assms(1) by (simp_all add: slots_ok_def m1_def)
  have holds1: "holds_input m1 rid j \<longleftrightarrow> holds_input m rid j \<and> \<not> (rid = request_id r \<and> j = i)" for rid j
    by (simp add: m1_def holds_forget)
  define held where "held = (\<exists>j. holds_input m1 (request_id r) j \<and> mm_identifier (mm_features r ! j) = h)"
  have any: "any_same_hash r h (get_cached_input_ids r m1) = Inr held"
    using valid holds1 by (subst any_same_hash_eq) (auto simp: get_cached_input_ids_holds held_def)
  have keep: "free_encoder_input r i m = Inr m1"
    if "ec_cached m h = None \<or> ec_cached m h = Some [] \<or> held"
    using that assms(3) any m1(2) by (auto simp: free_encoder_input_def m1_simps Let_def split: option.split)
  have refers1: "refers m1 = refers m" by (intro ext) (simp add: refers_def m1(2))
  show ?thesis
  proof (cases "ec_cached m h = None \<or> ec_cached m h = Some [] \<or> held")
    case True
    then show ?thesis
      using keep m1 holds1 refers1 by (auto simp: released_def held_def refers_def)
  next
    case False
    then obtain refs where refs: "ec_cached m h = Some refs" "refs \<noteq> []" by auto
    define refs' where "refs' = removeAll (request_id r) refs"
    define m2 where "m2 = (if refs' \<noteq> [] then m1\<lparr>ec_cached := (ec_cached m1)(h \<mapsto> refs')\<rparr>
      else m1\<lparr>ec_cached := (ec_cached m1)(h \<mapsto> []), ec_freeable := od_set h (sz h) (ec_freeable m1),
              ec_num_freeable_slots := ec_num_freeable_slots m1 + sz h\<rparr>)"
    have "free_encoder_input r i m = Inr m2"
      using False assms(3) refs any m1(2) known_embeds [OF assms(2) i(1), folded i(2)]
      by (simp add: free_encoder_input_def m1_simps Let_def refs'_def [symmetric] m2_def)
    moreover have "slots_ok sz m2"
      using ledger_release [OF m1(1) [unfolded slots_ok_def], of h] ledger_refs [OF m1(1) [unfolded slots_ok_def], of h _ refs']
        refs m1 by (auto simp: m2_def slots_ok_def)
    moreover have "ec_cached m2 = (ec_cached m)(h \<mapsto> refs')" "ec_request_cached_ids m2 = ec_request_cached_ids m1"
      "ec_cache_size m2 = ec_cache_size m"
      using m1 by (simp_all add: m2_def)
    moreover from this have "released (request_id r) i h (\<lambda>j. mm_identifier (mm_features r ! j) = h) m m2"
      using holds1 refs False by (auto simp: released_def refers_def holds_input_def held_def refs'_def)
    ultimately show ?thesis by blast
  qed
qed

lemma evict_until_spec:
  assumes "ledger sz (ec_cache_size m) (ec_cached m) (ec_num_free_slots m) d (ec_num_freeable_slots m)"
    and "n \<le> ec_num_freeable_slots m"
  shows "\<exists>k m'. evict_until n d m = Inr m' \<and> slots_ok sz m' \<and> n \<le> ec_num_free_slots m' \<and>
    ec_freeable m' = drop k d \<and> ec_freed m' = ec_freed m @ map fst (take k d) \<and>
    ec_cached m' = (\<lambda>h. if h \<in> set (map fst (take k d)) then None else ec_cached m h) \<and>
    ec_num_freeable_slots m' = ec_num_freeable_slots m \<and> ec_cache_size m' = ec_cache_size m \<and>
    ec_request_cached_ids m' = ec_request_cached_ids m \<and>
    (\<forall>j < k. ec_num_free_slots m + sum_list (map snd (take j d)) < n)"
  using assms
proof (induction n d m rule: evict_until.induct)
  case (1 n m)
  have "sum sz (idle (ec_cached m)) = 0" using 1(1) by (simp add: ledger_def)
  then have "n \<le> ec_num_free_slots m" using 1 by (simp add: ledger_def)
  then show ?case using 1(1) by (intro exI [of _ 0]) (simp add: slots_ok_def)
next
  case (2 n h k d m)
  note ev = ledger_evict [OF 2(2)]
  show ?case
  proof (cases "n > ec_num_free_slots m")
    case True
    define m1 where "m1 = m\<lparr>ec_cached := (ec_cached m)(h := None), ec_freed := ec_freed m @ [h],
                            ec_num_free_slots := ec_num_free_slots m + k\<rparr>"
    have step: "evict_until n ((h, k) # d) m = evict_until n d m1"
      using True ev(1) by (simp add: m1_def)
    have "\<exists>j m'. evict_until n d m1 = Inr m' \<and> slots_ok sz m' \<and> n \<le> ec_num_free_slots m' \<and>
        ec_freeable m' = drop j d \<and> ec_freed m' = ec_freed m1 @ map fst (take j d) \<and>
        ec_cached m' = (\<lambda>h. if h \<in> set (map fst (take j d)) then None else ec_cached m1 h) \<and>
        ec_num_freeable_slots m' = ec_num_freeable_slots m1 \<and> ec_cache_size m' = ec_cache_size m1 \<and>
        ec_request_cached_ids m' = ec_request_cached_ids m1 \<and>
        (\<forall>i < j. ec_num_free_slots m1 + sum_list (map snd (take i d)) < n)"
      unfolding m1_def using True ev 2(3) by (intro 2(1)) (simp_all add: fun_upd_def)
    then obtain j m' where m': "evict_until n d m1 = Inr m'" "slots_ok sz m'" "n \<le> ec_num_free_slots m'"
        "ec_freeable m' = drop j d" "ec_freed m' = ec_freed m1 @ map fst (take j d)"
        "ec_cached m' = (\<lambda>h. if h \<in> set (map fst (take j d)) then None else ec_cached m1 h)"
        "ec_num_freeable_slots m' = ec_num_freeable_slots m1" "ec_cache_size m' = ec_cache_size m1"
        "ec_request_cached_ids m' = ec_request_cached_ids m1"
        "\<forall>i < j. ec_num_free_slots m1 + sum_list (map snd (take i d)) < n"
      by blast
    have "\<forall>i < Suc j. ec_num_free_slots m + sum_list (map snd (take i ((h, k) # d))) < n"
      using m'(10) True by (auto simp: less_Suc_eq_0_disj m1_def add.assoc)
    then show ?thesis
      using m'(1-9) step by (intro exI [of _ "Suc j"] exI [of _ m']) (auto simp: m1_def fun_eq_iff)
  next
    case False
    then show ?thesis using 2(2) by (intro exI [of _ 0]) (simp add: slots_ok_def)
  qed
qed

lemma can_allocate_spec:
  assumes "slots_ok sz m" and "known_request sz reg r" and "mm_hash_of r i = Inr h"
  shows "\<exists>b k m'. can_allocate r i budget pending m = Inr (b, m') \<and> slots_ok sz m' \<and>
    (b \<longleftrightarrow> sz h \<le> budget \<and> sz h + pending \<le> ec_num_freeable_slots m) \<and>
    (b \<longrightarrow> sz h + pending \<le> ec_num_free_slots m') \<and> (\<not> b \<longrightarrow> m' = m) \<and>
    ec_freeable m' = drop k (ec_freeable m) \<and> ec_freed m' = ec_freed m @ map fst (take k (ec_freeable m)) \<and>
    ec_cached m' = (\<lambda>h. if h \<in> set (map fst (take k (ec_freeable m))) then None else ec_cached m h) \<and>
    ec_cache_size m' = ec_cache_size m \<and> ec_request_cached_ids m' = ec_request_cached_ids m \<and>
    (\<forall>j < k. ec_num_free_slots m + sum_list (map snd (take j (ec_freeable m))) < sz h + pending)"
proof -
  have i: "i < length (mm_features r)" "h = mm_identifier (mm_features r ! i)"
    using mm_hash_of_InrD [OF assms(3)] by auto
  note n = known_embeds [OF assms(2) i(1), folded i(2)]
  note le = ledger_bounds [OF assms(1) [unfolded slots_ok_def]]
  let ?evicts = "sz h \<le> budget \<and> sz h + pending > ec_num_free_slots m \<and> sz h + pending \<le> ec_num_freeable_slots m"
  show ?thesis
  proof (cases ?evicts)
    case True
    then have c: "can_allocate r i budget pending m =
        bindE (evict_until (sz h + pending) (ec_freeable m) m) (\<lambda>m'. Inr (True, m'))"
      using n by (simp add: can_allocate_def)
    have "sz h + pending \<le> ec_num_freeable_slots m" using True by simp
    from evict_until_spec [OF assms(1) [unfolded slots_ok_def] this] obtain k m' where
      "evict_until (sz h + pending) (ec_freeable m) m = Inr m'" and m': "slots_ok sz m'"
      "sz h + pending \<le> ec_num_free_slots m'" "ec_freeable m' = drop k (ec_freeable m)"
      "ec_freed m' = ec_freed m @ map fst (take k (ec_freeable m))"
      "ec_cached m' = (\<lambda>h. if h \<in> set (map fst (take k (ec_freeable m))) then None else ec_cached m h)"
      "ec_cache_size m' = ec_cache_size m" "ec_request_cached_ids m' = ec_request_cached_ids m"
      "\<forall>j < k. ec_num_free_slots m + sum_list (map snd (take j (ec_freeable m))) < sz h + pending"
      by blast
    with c have "can_allocate r i budget pending m = Inr (True, m')" by simp
    then show ?thesis
      using True m' by (intro exI [of _ True] exI [of _ k] exI [of _ m']) simp
  next
    case False
    then have "can_allocate r i budget pending m =
        Inr (sz h \<le> budget \<and> sz h + pending \<le> ec_num_freeable_slots m, m)"
      using n le by (auto simp: can_allocate_def)
    then show ?thesis
      using False assms(1) le
      by (intro exI [of _ "sz h \<le> budget \<and> sz h + pending \<le> ec_num_freeable_slots m"] exI [of _ 0] exI [of _ m]) auto
  qed
qed

text \<open>An entry in the eviction order has no reference, so evicting it changes no reference.\<close>

lemma can_allocate_refs:
  assumes "slots_ok sz m" and "ec_request_cached_ids m' = ec_request_cached_ids m"
    and "ec_cached m' = (\<lambda>h. if h \<in> set (map fst (take k (ec_freeable m))) then None else ec_cached m h)"
  shows "refers m' = refers m" and "holds_input m' = holds_input m"
    and "ec_cached m h = Some refs \<Longrightarrow> refs \<noteq> [] \<Longrightarrow> ec_cached m' h = Some refs"
proof -
  have "ec_cached m h = Some []" if "(h, b) \<in> set (take k (ec_freeable m))" for h b
    using assms(1) that set_take_subset [of k "ec_freeable m"] by (auto simp: slots_ok_def ledger_def idle_def)
  then show "refers m' = refers m" "ec_cached m h = Some refs \<Longrightarrow> refs \<noteq> [] \<Longrightarrow> ec_cached m' h = Some refs"
    using assms(3) by (fastforce simp: refers_def fun_eq_iff)+
  show "holds_input m' = holds_input m"
    using assms(2) by (auto simp: holds_input_def fun_eq_iff)
qed

section \<open>References\<close>

lemma enc_refs_cong: "refers m' = refers m \<Longrightarrow> holds_input m' = holds_input m \<Longrightarrow> enc_refs_ok reg m' = enc_refs_ok reg m"
  by (simp add: enc_refs_ok_def)

lemma enc_refs_add:
  assumes "enc_refs_ok reg m" and "i < length (reg rid)" and "mm_identifier (reg rid ! i) = h"
    and "\<And>rid' j. holds_input m' rid' j \<longleftrightarrow> holds_input m rid' j \<or> rid' = rid \<and> j = i"
    and "\<And>rid' h'. refers m' rid' h' \<longleftrightarrow> refers m rid' h' \<or> rid' = rid \<and> h' = h"
  shows "enc_refs_ok reg m'"
  using assms unfolding enc_refs_ok_def by metis

lemma enc_refs_released:
  assumes "enc_refs_ok reg m" and "mm_identifier (reg rid ! i) = h"
    and "released rid i h (\<lambda>j. mm_identifier (reg rid ! j) = h) m m'"
  shows "enc_refs_ok reg m'"
  using assms unfolding enc_refs_ok_def released_def by metis

lemma holds_note_input: "holds_input (ec_note_input rid i m) rid' j \<longleftrightarrow> holds_input m rid' j \<or> rid' = rid \<and> j = i"
  by (cases "ec_request_cached_ids m rid") (auto simp: holds_input_def ec_note_input_def)

lemma check_and_update_refs:
  assumes "enc_refs_ok reg m" and "known_request sz reg r" and "mm_hash_of r i = Inr h"
    and "check_and_update_cache r i m = Inr (b, m')"
  shows "enc_refs_ok reg m'"
proof -
  have i: "i < length (reg (request_id r))" "mm_identifier (reg (request_id r) ! i) = h"
    using mm_hash_of_InrD [OF assms(3)] assms(2) by (auto simp: known_request_def)
  show ?thesis
  proof (cases "ec_cached m h")
    case None
    then show ?thesis using assms by (simp add: check_and_update_cache_def)
  next
    case (Some refs)
    with assms(3,4) have m': "ec_cached m' = (ec_cached m)(h \<mapsto> List.insert (request_id r) refs)"
      "ec_request_cached_ids m' = ec_request_cached_ids (ec_note_input (request_id r) i m)"
      by (auto simp: check_and_update_cache_def ec_note_input_def result_simps split: if_splits)
    then have "holds_input m' = holds_input (ec_note_input (request_id r) i m)"
      by (auto simp: holds_input_def fun_eq_iff)
    then show ?thesis
      using m'(1) Some by (intro enc_refs_add [OF assms(1) i]) (auto simp: holds_note_input refers_def)
  qed
qed

lemma allocate_refs:
  assumes "enc_refs_ok reg m" and "known_request sz reg r" and "mm_hash_of r i = Inr h"
    and "ec_allocate r i m = Inr m'"
  shows "enc_refs_ok reg m'"
proof (rule enc_refs_add [OF assms(1)])
  show "i < length (reg (request_id r))" "mm_identifier (reg (request_id r) ! i) = h"
    using mm_hash_of_InrD [OF assms(3)] assms(2) by (auto simp: known_request_def)
  define m1 where "m1 = m\<lparr>ec_cached := (ec_cached m)(h \<mapsto> List.insert (request_id r) (case ec_cached m h of None \<Rightarrow> [] | Some refs \<Rightarrow> refs))\<rparr>"
  have m': "ec_cached m' = ec_cached m1" "ec_request_cached_ids m' = ec_request_cached_ids (ec_note_input (request_id r) i m1)"
    using assms(3,4) by (auto simp: ec_allocate_def Let_def result_simps m1_def [symmetric] ec_note_input_def split: if_splits)
  have "holds_input m' = holds_input (ec_note_input (request_id r) i m1)" "holds_input m1 = holds_input m"
    using m'(2) by (auto simp: holds_input_def fun_eq_iff m1_def)
  then show "holds_input m' rid' j \<longleftrightarrow> holds_input m rid' j \<or> rid' = request_id r \<and> j = i" for rid' j
    by (simp add: holds_note_input)
  show "refers m' rid' h' \<longleftrightarrow> refers m rid' h' \<or> rid' = request_id r \<and> h' = h" for rid' h'
    using m'(1) by (auto simp: refers_def m1_def split: option.splits)
qed

lemma ec_free_spec:
  assumes "slots_ok sz m" and "known_request sz reg r" and "enc_refs_ok reg m"
  shows "\<exists>m'. ec_free r m = Inr m' \<and> slots_ok sz m' \<and> enc_refs_ok reg m' \<and> ec_cache_size m' = ec_cache_size m \<and>
    (\<forall>rid j. holds_input m' rid j \<longleftrightarrow> holds_input m rid j \<and> rid \<noteq> request_id r)"
proof -
  have "set js \<subseteq> {..<length (mm_features r)} \<Longrightarrow> slots_ok sz m0 \<Longrightarrow> enc_refs_ok reg m0 \<Longrightarrow>
      \<exists>m'. foldE (free_encoder_input r) js m0 = Inr m' \<and> slots_ok sz m' \<and> enc_refs_ok reg m' \<and>
        ec_cache_size m' = ec_cache_size m0 \<and>
        (\<forall>rid j. holds_input m' rid j \<longleftrightarrow> holds_input m0 rid j \<and> \<not> (rid = request_id r \<and> j \<in> set js))" for js m0
  proof (induction js arbitrary: m0)
    case (Cons i js)
    have feats: "mm_features r = reg (request_id r)" using assms(2) by (simp add: known_request_def)
    have h: "mm_hash_of r i = Inr (mm_identifier (mm_features r ! i))"
      using Cons.prems(1) assms(2) known_embeds by auto
    have "j < length (mm_features r)" if "holds_input m0 (request_id r) j" for j
      using Cons.prems(3) that feats by (simp add: enc_refs_ok_def)
    from free_encoder_input_spec [OF Cons.prems(2) assms(2) h this] obtain m1 where
      m1: "free_encoder_input r i m0 = Inr m1" "slots_ok sz m1" "ec_cache_size m1 = ec_cache_size m0"
      and rel: "released (request_id r) i (mm_identifier (mm_features r ! i))
        (\<lambda>j. mm_identifier (mm_features r ! j) = mm_identifier (mm_features r ! i)) m0 m1" by blast
    have "enc_refs_ok reg m1"
      using enc_refs_released [OF Cons.prems(3) _ rel [unfolded feats]] by simp
    with Cons.IH [of m1] m1 Cons.prems(1) obtain m' where "foldE (free_encoder_input r) js m1 = Inr m'"
      "slots_ok sz m'" "enc_refs_ok reg m'" "ec_cache_size m' = ec_cache_size m0"
      "\<forall>rid j. holds_input m' rid j \<longleftrightarrow> holds_input m1 rid j \<and> \<not> (rid = request_id r \<and> j \<in> set js)" by auto
    moreover have "holds_input m1 rid j \<longleftrightarrow> holds_input m0 rid j \<and> \<not> (rid = request_id r \<and> j = i)" for rid j
      using rel by (simp add: released_def)
    ultimately show ?case using m1(1) by auto
  qed simp
  moreover have "set (get_cached_input_ids r m) \<subseteq> {..<length (mm_features r)}"
    using assms(2,3) by (auto simp: get_cached_input_ids_holds enc_refs_ok_def known_request_def)
  ultimately show ?thesis
    using assms(1,3) unfolding ec_free_def get_cached_input_ids_holds
    by (smt (verit, best) get_cached_input_ids_holds mem_Collect_eq)
qed

section \<open>The manager as a state machine\<close>

text \<open>The states that the calls of the scheduler reach: an input is allocated only when its data is not in the cache,
  which \<^verbatim>\<open>_try_schedule_encoder_inputs\<close> asks \<^verbatim>\<open>check_and_update_cache\<close> before.\<close>

inductive ec_reachable :: "(string \<Rightarrow> int) \<Rightarrow> (string \<Rightarrow> mm_feature list) \<Rightarrow> int \<Rightarrow> encoder_cache \<Rightarrow> bool"
  for sz reg cap where
  init: "0 \<le> cap \<Longrightarrow> ec_reachable sz reg cap (ec_create_manager cap)"
| reset: "ec_reachable sz reg cap m \<Longrightarrow> ec_reachable sz reg cap (ec_reset m)"
| check: "ec_reachable sz reg cap m \<Longrightarrow> known_request sz reg r \<Longrightarrow> check_and_update_cache r i m = Inr (b, m') \<Longrightarrow>
    ec_reachable sz reg cap m'"
| can: "ec_reachable sz reg cap m \<Longrightarrow> known_request sz reg r \<Longrightarrow> can_allocate r i budget pending m = Inr (b, m') \<Longrightarrow>
    ec_reachable sz reg cap m'"
| alloc: "ec_reachable sz reg cap m \<Longrightarrow> known_request sz reg r \<Longrightarrow> mm_hash_of r i = Inr h \<Longrightarrow> ec_cached m h = None \<Longrightarrow>
    ec_allocate r i m = Inr m' \<Longrightarrow> ec_reachable sz reg cap m'"
| free_input: "ec_reachable sz reg cap m \<Longrightarrow> known_request sz reg r \<Longrightarrow> free_encoder_input r i m = Inr m' \<Longrightarrow>
    ec_reachable sz reg cap m'"
| free: "ec_reachable sz reg cap m \<Longrightarrow> known_request sz reg r \<Longrightarrow> ec_free r m = Inr m' \<Longrightarrow> ec_reachable sz reg cap m'"
| freed: "ec_reachable sz reg cap m \<Longrightarrow> get_freed_mm_hashes m = (hs, m') \<Longrightarrow> ec_reachable sz reg cap m'"

definition ec_inv :: "(string \<Rightarrow> int) \<Rightarrow> (string \<Rightarrow> mm_feature list) \<Rightarrow> int \<Rightarrow> encoder_cache \<Rightarrow> bool" where
  "ec_inv sz reg cap m \<longleftrightarrow> slots_ok sz m \<and> enc_refs_ok reg m \<and> ec_cache_size m = cap"

lemma ec_inv_empty:
  "0 \<le> ec_cache_size m \<Longrightarrow> ec_cached m = Map.empty \<Longrightarrow> ec_request_cached_ids m = Map.empty \<Longrightarrow> ec_freeable m = [] \<Longrightarrow>
   ec_num_free_slots m = ec_cache_size m \<Longrightarrow> ec_num_freeable_slots m = ec_cache_size m \<Longrightarrow>
   ec_inv sz reg (ec_cache_size m) m"
  by (simp add: ec_inv_def slots_ok_def ledger_def idle_def enc_refs_ok_def refers_def holds_input_def)

lemma allocate_hash: "ec_allocate r i m = Inr m' \<Longrightarrow> \<exists>h. mm_hash_of r i = Inr h"
  by (auto simp: ec_allocate_def result_simps)

lemma ec_reachable_inv: "ec_reachable sz reg cap m \<Longrightarrow> ec_inv sz reg cap m"
proof (induction rule: ec_reachable.induct)
  case init
  then show ?case
    using ec_inv_empty [of "ec_init cap"] by (simp add: ec_create_manager_def ec_init_def)
next
  case (reset m)
  then show ?case
    using ec_inv_empty [of "ec_reset m"] ledger_bounds [of sz cap "ec_cached m"]
    by (fastforce simp: ec_inv_def ec_reset_def slots_ok_def)
next
  case (check m r i b m')
  obtain h where h: "mm_hash_of r i = Inr h"
    using check.hyps(3) by (auto simp: check_and_update_cache_def result_simps)
  then show ?case
    using check check_and_update_slots [of sz m r i h] check_and_update_refs [of reg m sz r i h b m'] by (auto simp: ec_inv_def)
next
  case (can m r i budget pending b m')
  obtain h where h: "mm_hash_of r i = Inr h"
    using can.hyps(3) by (auto simp: can_allocate_def get_num_encoder_embeds_def mm_hash_of_def result_simps split: if_splits)
  obtain k where k: "slots_ok sz m'" "ec_cache_size m' = ec_cache_size m" "ec_request_cached_ids m' = ec_request_cached_ids m"
    "ec_cached m' = (\<lambda>h. if h \<in> set (map fst (take k (ec_freeable m))) then None else ec_cached m h)"
    using can can_allocate_spec [of sz m reg r i h budget pending] h by (auto simp: ec_inv_def)
  then show ?case
    using can.IH can_allocate_refs [of sz m m' k] enc_refs_cong [of m' m reg] by (auto simp: ec_inv_def)
next
  case (alloc m r i h m')
  have "i < length (mm_features r)" "h = mm_identifier (mm_features r ! i)" using mm_hash_of_InrD [OF alloc.hyps(3)] by auto
  then have "sz h \<le> ec_num_free_slots m"
    using alloc.hyps known_embeds [OF alloc.hyps(2)] by (auto simp: ec_allocate_def Let_def result_simps split: if_splits)
  moreover have "ec_cache_size m' = ec_cache_size m"
    using alloc.hyps(3,5) by (auto simp: ec_allocate_def Let_def result_simps ec_note_input_def split: if_splits)
  ultimately show ?case
    using alloc allocate_slots [of sz m reg r i h] allocate_refs [of reg m sz r i h m'] by (auto simp: ec_inv_def)
next
  case (free_input m r i m')
  obtain h where h: "mm_hash_of r i = Inr h" using free_input.hyps(3) by (auto simp: free_encoder_input_def result_simps)
  have feats: "mm_features r = reg (request_id r)" using free_input.hyps(2) by (simp add: known_request_def)
  have ok: "slots_ok sz m" using free_input.IH by (simp add: ec_inv_def)
  have valid: "j < length (mm_features r)" if "holds_input m (request_id r) j" for j
    using free_input.IH that feats by (simp add: ec_inv_def enc_refs_ok_def)
  have m': "slots_ok sz m'" "ec_cache_size m' = ec_cache_size m"
    "released (request_id r) i h (\<lambda>j. mm_identifier (mm_features r ! j) = h) m m'"
    using free_encoder_input_spec [OF ok free_input.hyps(2) h valid] free_input.hyps(3) by auto
  then show ?case
    using free_input.IH enc_refs_released [of reg m "request_id r" i h m'] mm_hash_of_InrD [OF h] feats
    by (auto simp: ec_inv_def)
next
  case (free m r m')
  then show ?case using ec_free_spec [of sz m reg r] by (auto simp: ec_inv_def)
next
  case (freed m hs m')
  then have m': "m' = m\<lparr>ec_freed := []\<rparr>" by (simp add: get_freed_mm_hashes_def)
  have "refers m' = refers m" "holds_input m' = holds_input m" by (simp_all add: m' refers_def holds_input_def fun_eq_iff)
  then show ?case
    using freed.IH enc_refs_cong [of m' m reg] by (auto simp: m' ec_inv_def slots_ok_def)
qed

lemma allocate_all:
  assumes "ec_reachable sz reg cap m" and "known_request sz reg r" and "set js \<subseteq> {..<length (mm_features r)}"
    and "distinct (map (\<lambda>j. mm_identifier (mm_features r ! j)) js)"
    and "\<forall>j \<in> set js. ec_cached m (mm_identifier (mm_features r ! j)) = None"
    and "(\<Sum>j \<leftarrow> js. sz (mm_identifier (mm_features r ! j))) \<le> ec_num_free_slots m"
  shows "\<exists>m'. foldE (ec_allocate r) js m = Inr m' \<and> ec_reachable sz reg cap m'"
  using assms(1,3-6)
proof (induction js arbitrary: m)
  case (Cons j js)
  let ?id = "\<lambda>j. mm_identifier (mm_features r ! j)"
  have h: "mm_hash_of r j = Inr (?id j)" using known_embeds [OF assms(2)] Cons.prems(2) by auto
  have "0 \<le> (\<Sum>k \<leftarrow> js. sz (?id k))" using known_embeds(3) [OF assms(2)] Cons.prems(2) by (intro sum_list_nonneg) auto
  then have "sz (?id j) \<le> ec_num_free_slots m" using Cons.prems(5) by simp
  with allocate_slots [of sz m reg r j "?id j"] ec_reachable_inv [OF Cons.prems(1)] assms(2) h Cons.prems(4)
  obtain m1 where m1: "ec_allocate r j m = Inr m1" "ec_num_free_slots m1 = ec_num_free_slots m - sz (?id j)"
    "ec_cached m1 = (ec_cached m)(?id j \<mapsto> [request_id r])" by (auto simp: ec_inv_def)
  have "ec_reachable sz reg cap m1"
    using ec_reachable.alloc [OF Cons.prems(1) assms(2) h _ m1(1)] Cons.prems(4) by simp
  moreover have "\<forall>k \<in> set js. ec_cached m1 (?id k) = None"
    using Cons.prems(3,4) m1(3) by (auto simp: image_iff)
  ultimately have "\<exists>m'. foldE (ec_allocate r) js m1 = Inr m' \<and> ec_reachable sz reg cap m'"
    using Cons.prems m1(2) by (intro Cons.IH) auto
  with m1(1) show ?case by simp
qed auto

section \<open>Properties\<close>

text \<open>An example: one request with one image of four embeddings.\<close>

definition image_request :: request where
  "image_request = (plain_request ''r'' [1, 2, 3, 4])
     \<lparr>mm_features := [\<lparr>mm_identifier = ''img'', mm_position = \<lparr>offset = 0, plength = 4, is_embed = None\<rparr>\<rparr>]\<rparr>"

lemma image_request_known: "known_request (\<lambda>_. 4) (\<lambda>_. mm_features image_request) image_request"
  by (simp add: known_request_def image_request_def get_num_embeds_def)

lemma image_request_hash: "mm_hash_of image_request 0 = Inr ''img''"
  by (simp add: mm_hash_of_def image_request_def py_index_def)

text \<open>C24: In every state that the scheduler's calls reach, the encoder cache's counters are exact: the free slots are
  the capacity minus the embeddings of all cached entries, the reclaimable slots add those of the entries without
  reference, the eviction order lists exactly these entries once, and both counters stay between zero and the
  capacity.\<close>

theorem encoder_cache_accounting:
  assumes "ec_reachable sz reg cap m"
  shows "ec_num_free_slots m = cap - (\<Sum>h \<in> dom (ec_cached m). sz h) \<and>
    ec_num_freeable_slots m = ec_num_free_slots m + (\<Sum>h \<in> {h. ec_cached m h = Some []}. sz h) \<and>
    distinct (map fst (ec_freeable m)) \<and> set (ec_freeable m) = {(h, sz h) | h. ec_cached m h = Some []} \<and>
    0 \<le> ec_num_free_slots m \<and> ec_num_free_slots m \<le> ec_num_freeable_slots m \<and> ec_num_freeable_slots m \<le> cap"
proof -
  have inv: "ledger sz cap (ec_cached m) (ec_num_free_slots m) (ec_freeable m) (ec_num_freeable_slots m)"
    using ec_reachable_inv [OF assms] by (auto simp: ec_inv_def slots_ok_def)
  then show ?thesis using ledger_bounds [OF inv] by (auto simp: ledger_def idle_def)
qed

theorem encoder_cache_accounting_witness:
  "ec_num_free_slots (ec_create_manager 10) = 10 - (\<Sum>h \<in> dom (ec_cached (ec_create_manager 10)). 4)"
  using encoder_cache_accounting [OF ec_reachable.init [of 10 "\<lambda>_. 4" "\<lambda>_. []"]] by simp



text \<open>Releasing a request drops every reference it held and touches no other request; when no request holds an
  input, the whole capacity is reclaimable, so no slot is ever lost.\<close>

lemma encoder_free_loses_nothing:
  assumes "ec_reachable sz reg cap m" and "known_request sz reg r"
  shows "\<exists>m'. ec_free r m = Inr m' \<and> ec_reachable sz reg cap m' \<and>
    (\<forall>rid j. holds_input m' rid j \<longleftrightarrow> holds_input m rid j \<and> rid \<noteq> request_id r) \<and>
    (\<forall>h. \<not> refers m' (request_id r) h) \<and>
    ((\<forall>rid j. holds_input m rid j \<longrightarrow> rid = request_id r) \<longrightarrow> ec_num_freeable_slots m' = cap)"
proof -
  have inv: "slots_ok sz m" "enc_refs_ok reg m" "ec_cache_size m = cap"
    using ec_reachable_inv [OF assms(1)] by (simp_all add: ec_inv_def)
  from ec_free_spec [OF inv(1) assms(2) inv(2)] obtain m' where m': "ec_free r m = Inr m'" "slots_ok sz m'"
    "enc_refs_ok reg m'" "ec_cache_size m' = cap"
    and holds: "\<forall>rid j. holds_input m' rid j \<longleftrightarrow> holds_input m rid j \<and> rid \<noteq> request_id r" using inv(3) by auto
  have "\<forall>h. \<not> refers m' (request_id r) h"
    using m'(3) holds by (auto simp: enc_refs_ok_def)
  moreover have "ec_num_freeable_slots m' = cap" if "\<forall>rid j. holds_input m rid j \<longrightarrow> rid = request_id r"
  proof -
    have "\<not> refers m' rid h" for rid h using that holds m'(3) by (auto simp: enc_refs_ok_def)
    then have "\<And>h refs. ec_cached m' h = Some refs \<Longrightarrow> refs = []"
      by (metis hd_in_set refers_def)
    then have "idle (ec_cached m') = dom (ec_cached m')" by (auto simp: idle_def)
    then show ?thesis using m'(2,4) by (simp add: slots_ok_def ledger_def)
  qed
  moreover have "ec_reachable sz reg cap m'" using ec_reachable.free [OF assms m'(1)] .
  ultimately show ?thesis using m'(1) holds by blast
qed

text \<open>C26: The assertions of \<^verbatim>\<open>allocate\<close> never fail: when \<^verbatim>\<open>can_allocate\<close> accepted an input on top of inputs already
  accepted in the same pass, allocating all of them succeeds, provided they are different data not yet cached.\<close>

theorem accepted_inputs_can_be_allocated:
  assumes "ec_reachable sz reg cap m" and "known_request sz reg r"
    and "can_allocate r i budget (\<Sum>j \<leftarrow> js. sz (mm_identifier (mm_features r ! j))) m = Inr (True, m')"
    and "set (js @ [i]) \<subseteq> {..<length (mm_features r)}"
    and "distinct (map (\<lambda>j. mm_identifier (mm_features r ! j)) (js @ [i]))"
    and "\<forall>j \<in> set (js @ [i]). ec_cached m (mm_identifier (mm_features r ! j)) = None"
  shows "\<exists>m''. foldE (ec_allocate r) (js @ [i]) m' = Inr m'' \<and> ec_reachable sz reg cap m''"
proof -
  let ?id = "\<lambda>j. mm_identifier (mm_features r ! j)"
  have i: "mm_hash_of r i = Inr (?id i)" using known_embeds [OF assms(2)] assms(4) by simp
  have "slots_ok sz m" using ec_reachable_inv [OF assms(1)] by (simp add: ec_inv_def)
  from can_allocate_spec [OF this assms(2) i, of budget "\<Sum>j \<leftarrow> js. sz (?id j)"] assms(3)
  have "sz (?id i) + (\<Sum>j \<leftarrow> js. sz (?id j)) \<le> ec_num_free_slots m'"
    "\<And>h. ec_cached m h = None \<Longrightarrow> ec_cached m' h = None" by (auto split: if_splits)
  then show ?thesis
    using allocate_all [OF ec_reachable.can [OF assms(1,2,3)] assms(2), of "js @ [i]"] assms(4-6) by (simp add: add.commute)
qed

theorem accepted_inputs_can_be_allocated_witness:
  "\<exists>m''. foldE (ec_allocate image_request) [0] (ec_create_manager 10) = Inr m'' \<and>
     ec_reachable (\<lambda>_. 4) (\<lambda>_. mm_features image_request) 10 m''"
  using accepted_inputs_can_be_allocated [OF ec_reachable.init image_request_known, of 10 0 8 "[]" "ec_create_manager 10"]
  by (simp add: ec_create_manager_def ec_init_def can_allocate_def get_num_encoder_embeds_def get_num_embeds_def image_request_def)

text \<open>C37: The encoder-decoder manager has no record of what it allocated: \<^verbatim>\<open>_free_encoder_inputs\<close> frees every input
  of a request in each step, so after one allocation and \<^verbatim>\<open>n\<close> steps of a request with one input the free slots exceed
  the capacity by \<^verbatim>\<open>n - 1\<close> times its size, and the capacity no longer limits later requests.\<close>

theorem encdec_free_slots_grow:
  assumes "get_num_encoder_embeds r 0 = Inr n" and "mm_hash_of r 0 = Inr h"
  shows "\<exists>m1 m2. ed_allocate r 0 (ed_init cap) = Inr m1 \<and>
    foldE (ed_free_encoder_input r) (replicate k 0) m1 = Inr m2 \<and>
    ed_num_free_slots m2 = cap + (int k - 1) * n"
proof -
  have "foldE (ed_free_encoder_input r) (replicate k 0) m1 =
      Inr (m1\<lparr>ed_num_free_slots := ed_num_free_slots m1 + int k * n\<rparr>)" for m1
    by (induction k arbitrary: m1) (simp_all add: ed_free_encoder_input_def assms algebra_simps)
  then show ?thesis
    by (simp add: ed_allocate_def assms ed_init_def algebra_simps)
qed

theorem encdec_free_slots_grow_witness:
  "\<exists>m1 m2. ed_allocate image_request 0 (ed_init 10) = Inr m1 \<and>
     foldE (ed_free_encoder_input image_request) (replicate 5 0) m1 = Inr m2 \<and> ed_num_free_slots m2 = 26"
  using encdec_free_slots_grow [of image_request 4 "''img''" 10 5] image_request_hash
  by (simp add: get_num_encoder_embeds_def get_num_embeds_def image_request_def)

text \<open>C36: The budget of a multimodal model always admits its largest item: both the compute budget and the cache size
  are at least the size of every item, and with chunked inputs disabled every item also fits one batch.\<close>

theorem encoder_budget_admits_every_item:
  assumes "compute_mm_encoder_budget cfg items = Inr (compute, cache)" and "(modality, n) \<in> set items"
  shows "n \<le> compute \<and> n \<le> cache \<and> sc_encoder_cache_size cfg \<le> cache \<and>
    (sc_disable_chunked_mm_input cfg \<longrightarrow> n \<le> sc_max_num_batched_tokens cfg)"
proof -
  have "n \<le> Max (set (map snd items))" using assms(2) by (intro Max_ge) force+
  then show ?thesis
    using assms by (auto simp: compute_mm_encoder_budget_def Let_def split: if_splits)
qed

theorem encoder_budget_admits_every_item_witness:
  "compute_mm_encoder_budget \<lparr>sc_disable_chunked_mm_input = False, sc_max_num_batched_tokens = 4,
     sc_max_num_encoder_input_tokens = 9, sc_encoder_cache_size = 7\<rparr> [(''image'', 5)] = Inr (9, 7) \<and> (5::int) \<le> 7"
  using encoder_budget_admits_every_item [of "\<lparr>sc_disable_chunked_mm_input = False, sc_max_num_batched_tokens = 4,
    sc_max_num_encoder_input_tokens = 9, sc_encoder_cache_size = 7\<rparr>" "[(''image'', 5)]" 9 7 "''image''" 5]
  by (simp add: compute_mm_encoder_budget_def)

end
