(* ===== verification/Free_Queue.thy ===== *)
theory Free_Queue
  imports Prelude
begin

text \<open>
  \<^verbatim>\<open>KVCacheBlock\<close> and \<^verbatim>\<open>FreeKVCacheBlockQueue\<close> of \<^verbatim>\<open>vllm/v1/core/kv_cache_utils.py\<close>.

  The block objects live in a store, a map from addresses to block records.  The address of a real
  block is its block id, and the two fake blocks of the queue have addresses of their own, so that
  the Python test \<^verbatim>\<open>is\<close> is equality of addresses.  Every operation performs the pointer writes of the
  source in the source's order.  \<^verbatim>\<open>fq_rep q xs\<close> says that the pointers of \<^verbatim>\<open>q\<close> spell the list \<^verbatim>\<open>xs\<close>, and
  the locale \<^verbatim>\<open>eviction_queue\<close> is the contract the block pool relies on: the operations act on the
  spelled list as list operations and leave the rest of the store alone.
\<close>

section \<open>Blocks and the store\<close>

record kv_cache_block =
  block_id :: int
  ref_cnt :: int
  block_hash :: "bytes option"
  block_hash_num_tokens :: "int option"
  prev_free_block :: "nat option"
  next_free_block :: "nat option"
  is_null :: bool
  pool_id :: int

definition new_block :: "int \<Rightarrow> int \<Rightarrow> kv_cache_block" where
  "new_block i pool = \<lparr>block_id = i, ref_cnt = 0, block_hash = None, block_hash_num_tokens = None,
     prev_free_block = None, next_free_block = None, is_null = False, pool_id = pool\<rparr>"

definition set_block_hash :: "bytes \<Rightarrow> int option \<Rightarrow> kv_cache_block \<Rightarrow> kv_cache_block result" where
  "set_block_hash bh n b =
     (if block_hash b = None \<and> block_hash_num_tokens b = None
      then Inr (b\<lparr>block_hash := Some bh, block_hash_num_tokens := n\<rparr>)
      else Inl AssertionError)"

definition reset_hash :: "kv_cache_block \<Rightarrow> kv_cache_block" where
  "reset_hash b = b\<lparr>block_hash := None, block_hash_num_tokens := None\<rparr>"

type_synonym store = "nat \<Rightarrow> kv_cache_block"

definition set_prev :: "nat \<Rightarrow> nat option \<Rightarrow> store \<Rightarrow> store" where
  "set_prev a p h = h(a := (h a)\<lparr>prev_free_block := p\<rparr>)"

definition set_next :: "nat \<Rightarrow> nat option \<Rightarrow> store \<Rightarrow> store" where
  "set_next a p h = h(a := (h a)\<lparr>next_free_block := p\<rparr>)"

text \<open>What the queue never touches of a block.\<close>

definition payload :: "kv_cache_block \<Rightarrow> kv_cache_block" where
  "payload b = b\<lparr>prev_free_block := None, next_free_block := None\<rparr>"

section \<open>The queue\<close>

record free_queue =
  heap :: store
  fake_free_list_head :: nat
  fake_free_list_tail :: nat
  num_free_blocks :: int

text \<open>One iteration of the constructor's loop: link block \<^verbatim>\<open>i\<close> to its neighbours.\<close>

definition init_links :: "nat list \<Rightarrow> nat \<Rightarrow> store \<Rightarrow> store" where
  "init_links blocks i h =
     (let h1 = (if i > 0 then set_prev (blocks ! i) (Some (blocks ! (i - 1))) h else h)
      in if Suc i < length blocks then set_next (blocks ! i) (Some (blocks ! Suc i)) h1 else h1)"

text \<open>The constructor; \<^verbatim>\<open>hd_a\<close> and \<^verbatim>\<open>tl_a\<close> are the addresses of the two fake blocks it creates.\<close>

definition free_queue_init :: "store \<Rightarrow> nat list \<Rightarrow> nat \<Rightarrow> nat \<Rightarrow> free_queue" where
  "free_queue_init h0 blocks hd_a tl_a =
     (let h1 = fold (init_links blocks) [0..<length blocks] h0;
          h2 = h1(hd_a := new_block (- 1) 0, tl_a := new_block (- 1) 0);
          h3 = (if length blocks > 0
                then set_next (last blocks) (Some tl_a)
                       (set_prev tl_a (Some (last blocks))
                         (set_prev (hd blocks) (Some hd_a)
                           (set_next hd_a (Some (hd blocks)) h2)))
                else set_prev tl_a (Some hd_a) (set_next hd_a (Some tl_a) h2))
      in \<lparr>heap = h3, fake_free_list_head = hd_a, fake_free_list_tail = tl_a,
          num_free_blocks = int (length blocks)\<rparr>)"

definition popleft :: "free_queue \<Rightarrow> (nat \<times> free_queue) result" where
  "popleft q =
     (let h = heap q; hd_a = fake_free_list_head q
      in case next_free_block (h hd_a) of
           None \<Rightarrow> if num_free_blocks q = 0 then Inl ValueError else Inl AssertionError
         | Some first_block \<Rightarrow>
             if first_block = fake_free_list_tail q
             then (if num_free_blocks q = 0 then Inl ValueError else Inl AssertionError)
             else (case next_free_block (h first_block) of
                     None \<Rightarrow> Inl RuntimeError
                   | Some second \<Rightarrow>
                       let h1 = set_next hd_a (Some second) h;
                           h2 = set_prev second (Some hd_a) h1;
                           h3 = set_prev first_block None (set_next first_block None h2)
                       in Inr (first_block, q\<lparr>heap := h3, num_free_blocks := num_free_blocks q - 1\<rparr>)))"

primrec popleft_n_loop :: "nat \<Rightarrow> nat option \<Rightarrow> store \<Rightarrow> (nat list \<times> nat option \<times> store) result" where
  "popleft_n_loop 0 cur h = Inr ([], cur, h)"
| "popleft_n_loop (Suc k) cur h =
     (case cur of
        None \<Rightarrow> Inl AssertionError
      | Some c \<Rightarrow>
          bindE (popleft_n_loop k (next_free_block (h c)) (set_next c None (set_prev c None h)))
            (\<lambda>(ret, cur', h'). Inr (c # ret, cur', h')))"

definition popleft_n :: "int \<Rightarrow> free_queue \<Rightarrow> (nat list \<times> free_queue) result" where
  "popleft_n n q =
     (if n = 0 then Inr ([], q)
      else if \<not> num_free_blocks q \<ge> n then Inl AssertionError
      else bindE (popleft_n_loop (nat n) (next_free_block (heap q (fake_free_list_head q))) (heap q))
             (\<lambda>(ret, cur, h).
                let h' = (case cur of
                            None \<Rightarrow> h
                          | Some c \<Rightarrow> set_prev c (Some (fake_free_list_head q))
                                       (set_next (fake_free_list_head q) (Some c) h))
                in Inr (ret, q\<lparr>heap := h', num_free_blocks := num_free_blocks q - n\<rparr>)))"

definition fq_remove :: "nat \<Rightarrow> free_queue \<Rightarrow> free_queue result" where
  "fq_remove block q =
     (case (prev_free_block (heap q block), next_free_block (heap q block)) of
        (Some p, Some n) \<Rightarrow>
          (let h1 = set_next p (Some n) (heap q);
               h2 = set_prev n (Some p) h1;
               h3 = set_prev block None (set_next block None h2)
           in Inr (q\<lparr>heap := h3, num_free_blocks := num_free_blocks q - 1\<rparr>))
      | _ \<Rightarrow> Inl RuntimeError)"

definition fq_append :: "nat \<Rightarrow> free_queue \<Rightarrow> free_queue result" where
  "fq_append block q =
     (let tl_a = fake_free_list_tail q
      in case prev_free_block (heap q tl_a) of
           None \<Rightarrow> Inl RuntimeError
         | Some last_block \<Rightarrow>
             let h1 = set_next last_block (Some block) (heap q);
                 h2 = set_prev block (Some last_block) h1;
                 h3 = set_next block (Some tl_a) h2;
                 h4 = set_prev tl_a (Some block) h3
             in Inr (q\<lparr>heap := h4, num_free_blocks := num_free_blocks q + 1\<rparr>))"

text \<open>The loop shared by \<^verbatim>\<open>prepend_n\<close> and \<^verbatim>\<open>append_n\<close>: chain the blocks after \<^verbatim>\<open>prev\<close>; the last one is
  returned.\<close>

primrec chain_blocks :: "nat list \<Rightarrow> nat \<Rightarrow> store \<Rightarrow> nat \<times> store" where
  "chain_blocks [] prev h = (prev, h)"
| "chain_blocks (b # bs) prev h =
     chain_blocks bs b (set_next prev (Some b) (set_prev b (Some prev) h))"

definition prepend_n :: "nat list \<Rightarrow> free_queue \<Rightarrow> free_queue result" where
  "prepend_n blocks q =
     (if length blocks = 0 then Inr q
      else (case next_free_block (heap q (fake_free_list_head q)) of
              None \<Rightarrow> Inl AssertionError
            | Some first_block \<Rightarrow>
                let (prev_block, h) = chain_blocks blocks (fake_free_list_head q) (heap q);
                    h' = set_prev first_block (Some prev_block)
                           (set_next prev_block (Some first_block) h)
                in Inr (q\<lparr>heap := h', num_free_blocks := num_free_blocks q + int (length blocks)\<rparr>)))"

definition append_n :: "nat list \<Rightarrow> free_queue \<Rightarrow> free_queue result" where
  "append_n blocks q =
     (if length blocks = 0 then Inr q
      else (case prev_free_block (heap q (fake_free_list_tail q)) of
              None \<Rightarrow> Inl AssertionError
            | Some last_block \<Rightarrow>
                let (last', h) = chain_blocks blocks last_block (heap q);
                    h' = set_prev (fake_free_list_tail q) (Some last')
                           (set_next last' (Some (fake_free_list_tail q)) h)
                in Inr (q\<lparr>heap := h', num_free_blocks := num_free_blocks q + int (length blocks)\<rparr>)))"

text \<open>The two traversals may run for ever on a cyclic list, so they are partial: \<^verbatim>\<open>None\<close> is a loop that
  never returns.\<close>

partial_function (option) collect_free :: "store \<Rightarrow> nat \<Rightarrow> nat list option" where
  "collect_free h cur =
     (case next_free_block (h cur) of
        None \<Rightarrow> Some []
      | Some n \<Rightarrow> Option.bind (collect_free h n) (\<lambda>r. Some (cur # r)))"

definition get_all_free_blocks :: "free_queue \<Rightarrow> nat list result option" where
  "get_all_free_blocks q =
     (case next_free_block (heap q (fake_free_list_head q)) of
        None \<Rightarrow> Some (Inl RuntimeError)
      | Some c \<Rightarrow> Option.bind (collect_free (heap q) c) (\<lambda>r. Some (Inr r)))"

partial_function (option) walk_free :: "free_queue \<Rightarrow> nat option \<Rightarrow> nat list option" where
  "walk_free q cur =
     (case cur of
        None \<Rightarrow> Some []
      | Some c \<Rightarrow>
          if c = fake_free_list_tail q then Some []
          else Option.bind (walk_free q (next_free_block (heap q c))) (\<lambda>r. Some (c # r)))"

definition iter_blocks_after :: "nat option \<Rightarrow> free_queue \<Rightarrow> nat list option" where
  "iter_blocks_after cursor q =
     (case cursor of
        None \<Rightarrow> walk_free q (next_free_block (heap q (fake_free_list_head q)))
      | Some c \<Rightarrow> walk_free q (next_free_block (heap q c)))"

section \<open>The list a queue spells\<close>

fun linked :: "store \<Rightarrow> nat list \<Rightarrow> bool" where
  "linked h (a # b # ns) \<longleftrightarrow>
     next_free_block (h a) = Some b \<and> prev_free_block (h b) = Some a \<and> linked h (b # ns)"
| "linked h _ \<longleftrightarrow> True"

definition fq_rep :: "free_queue \<Rightarrow> nat list \<Rightarrow> bool" where
  "fq_rep q xs \<longleftrightarrow>
     linked (heap q) (fake_free_list_head q # xs @ [fake_free_list_tail q]) \<and>
     distinct (fake_free_list_head q # xs @ [fake_free_list_tail q]) \<and>
     num_free_blocks q = int (length xs) \<and>
     prev_free_block (heap q (fake_free_list_head q)) = None \<and>
     next_free_block (heap q (fake_free_list_tail q)) = None \<and>
     (\<forall>a. a \<notin> set (fake_free_list_head q # xs @ [fake_free_list_tail q]) \<longrightarrow>
        prev_free_block (heap q a) = None \<and> next_free_block (heap q a) = None)"

text \<open>What no queue operation changes: the addresses of the fake blocks and every block's payload.\<close>

definition fq_frame :: "free_queue \<Rightarrow> nat \<times> nat \<times> (nat \<Rightarrow> kv_cache_block)" where
  "fq_frame q = (fake_free_list_head q, fake_free_list_tail q, \<lambda>a. payload (heap q a))"

definition fq_real :: "nat \<times> nat \<times> (nat \<Rightarrow> kv_cache_block) \<Rightarrow> nat \<Rightarrow> bool" where
  "fq_real f a \<longleftrightarrow> a \<noteq> fst f \<and> a \<noteq> fst (snd f)"

section \<open>The contract of an eviction queue\<close>

locale eviction_queue =
  fixes rep :: "'q \<Rightarrow> nat list \<Rightarrow> bool"
    and frame :: "'q \<Rightarrow> 'f"
    and real :: "'f \<Rightarrow> nat \<Rightarrow> bool"
    and count :: "'q \<Rightarrow> int"
    and popl :: "'q \<Rightarrow> (nat \<times> 'q) result"
    and popn :: "int \<Rightarrow> 'q \<Rightarrow> (nat list \<times> 'q) result"
    and rem :: "nat \<Rightarrow> 'q \<Rightarrow> 'q result"
    and app :: "nat \<Rightarrow> 'q \<Rightarrow> 'q result"
    and appn :: "nat list \<Rightarrow> 'q \<Rightarrow> 'q result"
    and pren :: "nat list \<Rightarrow> 'q \<Rightarrow> 'q result"
  assumes rep_real: "rep q xs \<Longrightarrow> distinct xs \<and> (\<forall>x \<in> set xs. real (frame q) x)"
    and rep_count: "rep q xs \<Longrightarrow> count q = int (length xs)"
    and rep_fun: "rep q xs \<Longrightarrow> rep q ys \<Longrightarrow> xs = ys"
    and popl_empty: "rep q [] \<Longrightarrow> popl q = Inl ValueError"
    and popl_cons: "rep q (x # xs) \<Longrightarrow> \<exists>q'. popl q = Inr (x, q') \<and> rep q' xs \<and> frame q' = frame q"
    and popn_short: "rep q xs \<Longrightarrow> int (length xs) < n \<Longrightarrow> 0 < n \<Longrightarrow> popn n q = Inl AssertionError"
    and popn_enough: "rep q (xs @ ys) \<Longrightarrow>
      \<exists>q'. popn (int (length xs)) q = Inr (xs, q') \<and> rep q' ys \<and> frame q' = frame q"
    and rem_absent: "rep q xs \<Longrightarrow> x \<notin> set xs \<Longrightarrow> rem x q = Inl RuntimeError"
    and rem_present: "rep q (xs @ x # ys) \<Longrightarrow>
      \<exists>q'. rem x q = Inr q' \<and> rep q' (xs @ ys) \<and> frame q' = frame q"
    and app_fresh: "rep q xs \<Longrightarrow> real (frame q) x \<Longrightarrow> x \<notin> set xs \<Longrightarrow>
      \<exists>q'. app x q = Inr q' \<and> rep q' (xs @ [x]) \<and> frame q' = frame q"
    and appn_fresh: "rep q xs \<Longrightarrow> distinct ys \<Longrightarrow> \<forall>y \<in> set ys. real (frame q) y \<and> y \<notin> set xs \<Longrightarrow>
      \<exists>q'. appn ys q = Inr q' \<and> rep q' (xs @ ys) \<and> frame q' = frame q"
    and pren_fresh: "rep q xs \<Longrightarrow> distinct ys \<Longrightarrow> \<forall>y \<in> set ys. real (frame q) y \<and> y \<notin> set xs \<Longrightarrow>
      \<exists>q'. pren ys q = Inr q' \<and> rep q' (ys @ xs) \<and> frame q' = frame q"
begin

lemma popn_take:
  assumes "rep q xs" and "n \<le> length xs"
  shows "\<exists>q'. popn (int n) q = Inr (take n xs, q') \<and> rep q' (drop n xs) \<and> frame q' = frame q"
  using popn_enough [of q "take n xs" "drop n xs"] assms by (simp add: min_absorb2)

lemma rem_mem:
  assumes "rep q xs" and "x \<in> set xs"
  shows "\<exists>q'. rem x q = Inr q' \<and> rep q' (remove1 x xs) \<and> frame q' = frame q"
proof -
  obtain us vs where xs: "xs = us @ x # vs" "x \<notin> set us" using split_list_first [OF assms(2)] by blast
  then have "remove1 x xs = us @ vs" by (simp add: remove1_append)
  then show ?thesis using rem_present [of q us x vs] assms(1) xs by simp
qed

text \<open>Blocks given back at the end are only handed out after everything that was free before.\<close>

lemma append_then_pop:
  assumes "rep q xs" and "distinct ys" and "\<forall>y \<in> set ys. real (frame q) y \<and> y \<notin> set xs"
    and "k \<le> length ys"
  shows "\<exists>q1 q2. appn ys q = Inr q1 \<and> popn (int (length xs + k)) q1 = Inr (xs @ take k ys, q2) \<and>
    rep q2 (drop k ys) \<and> frame q2 = frame q"
proof -
  obtain q1 where q1: "appn ys q = Inr q1" "rep q1 (xs @ ys)" "frame q1 = frame q"
    using appn_fresh assms(1-3) by blast
  then show ?thesis using popn_take [of q1 "xs @ ys" "length xs + k"] assms(4) by auto
qed

text \<open>Blocks put at the front are handed out first.\<close>

lemma prepend_then_pop:
  assumes "rep q xs" and "distinct ys" and "\<forall>y \<in> set ys. real (frame q) y \<and> y \<notin> set xs"
  shows "\<exists>q1 q2. pren ys q = Inr q1 \<and> popn (int (length ys)) q1 = Inr (ys, q2) \<and>
    rep q2 xs \<and> frame q2 = frame q"
proof -
  obtain q1 where q1: "pren ys q = Inr q1" "rep q1 (ys @ xs)" "frame q1 = frame q"
    using pren_fresh assms by blast
  then show ?thesis using popn_enough [of q1 ys xs] by auto
qed

text \<open>Taking blocks and giving them back in any order keeps the set of free blocks.\<close>

lemma pop_append_conserves:
  assumes "rep q xs" and "n \<le> length xs" and "mset ys = mset (take n xs)"
  shows "\<exists>q1 q2. popn (int n) q = Inr (take n xs, q1) \<and> appn ys q1 = Inr q2 \<and>
    rep q2 (drop n xs @ ys) \<and> mset (drop n xs @ ys) = mset xs"
proof -
  obtain q1 where q1: "popn (int n) q = Inr (take n xs, q1)" "rep q1 (drop n xs)" "frame q1 = frame q"
    using popn_take assms(1,2) by blast
  have d: "distinct xs" "\<forall>x \<in> set xs. real (frame q) x" using rep_real assms(1) by auto
  have s: "set ys = set (take n xs)" using assms(3) by (metis set_mset_mset)
  have "distinct ys" using d(1) assms(3) by (metis mset_eq_imp_distinct_iff distinct_take)
  moreover have "\<forall>y \<in> set ys. real (frame q1) y \<and> y \<notin> set (drop n xs)"
    using s d q1(3) set_take_disj_set_drop_if_distinct [OF d(1), of n n]
    by (auto dest: in_set_takeD)
  ultimately obtain q2 where "appn ys q1 = Inr q2" "rep q2 (drop n xs @ ys)"
    using appn_fresh q1(2) by blast
  moreover have "mset (drop n xs @ ys) = mset xs"
    using assms(3) by (metis append_take_drop_id mset_append add.commute)
  ultimately show ?thesis using q1(1) by blast
qed

end

section \<open>Pointer lemmas\<close>

lemma store_simps [simp, heap_simps]:
  "next_free_block (set_prev a p h b) = next_free_block (h b)"
  "prev_free_block (set_next a p h b) = prev_free_block (h b)"
  "prev_free_block (set_prev a p h b) = (if b = a then p else prev_free_block (h b))"
  "next_free_block (set_next a p h b) = (if b = a then p else next_free_block (h b))"
  "payload (set_prev a p h b) = payload (h b)"
  "payload (set_next a p h b) = payload (h b)"
  by (simp_all add: set_prev_def set_next_def payload_def)

lemma linked_append:
  "linked h (xs @ a # ys) \<longleftrightarrow> linked h (xs @ [a]) \<and> linked h (a # ys)"
proof (induction xs rule: induct_list012)
  case (3 x y zs)
  then show ?case by auto
qed (cases ys; simp)+

lemma linked_split [simp]:
  "linked h (xs @ a # b # ys) \<longleftrightarrow> linked h (xs @ [a]) \<and> linked h (a # b # ys)"
  using linked_append by blast

lemma linked_join: "linked h (xs @ [a]) \<Longrightarrow> linked h (a # ys) \<Longrightarrow> linked h (xs @ a # ys)"
  using linked_append by blast

lemma linked_cong:
  assumes "\<And>x. x \<in> set (butlast ns) \<Longrightarrow> next_free_block (h x) = next_free_block (h' x)"
    and "\<And>x. x \<in> set (tl ns) \<Longrightarrow> prev_free_block (h x) = prev_free_block (h' x)"
  shows "linked h ns = linked h' ns"
  using assms by (induction h ns rule: linked.induct) auto

lemma linked_nth:
  "linked h ns \<longleftrightarrow> (\<forall>i. Suc i < length ns \<longrightarrow>
     next_free_block (h (ns ! i)) = Some (ns ! Suc i) \<and> prev_free_block (h (ns ! Suc i)) = Some (ns ! i))"
proof (induction h ns rule: linked.induct)
  case (1 h a b ns)
  show ?case (is "_ \<longleftrightarrow> (\<forall>i. ?P i)")
  proof -
    have "(\<forall>i. ?P i) \<longleftrightarrow> ?P 0 \<and> (\<forall>i. ?P (Suc i))" by (metis not0_implies_Suc)
    then show ?thesis using 1 by simp
  qed
qed auto

definition unlink :: "nat list \<Rightarrow> store \<Rightarrow> store" where
  "unlink xs h = (\<lambda>a. if a \<in> set xs then payload (h a) else h a)"

lemma unlink_simps [simp, heap_simps]:
  "prev_free_block (unlink xs h a) = (if a \<in> set xs then None else prev_free_block (h a))"
  "next_free_block (unlink xs h a) = (if a \<in> set xs then None else next_free_block (h a))"
  "payload (unlink xs h a) = payload (h a)"
  by (simp_all add: unlink_def payload_def)

lemma popleft_n_loop_linked:
  assumes "linked h (xs @ y # ys)" and "distinct (xs @ y # ys)"
  shows "popleft_n_loop (length xs) (Some (hd (xs @ [y]))) h = Inr (xs, Some y, unlink xs h)"
  using assms
proof (induction xs arbitrary: h)
  case (Cons x xs)
  let ?h = "set_next x None (set_prev x None h)"
  have nx: "next_free_block (h x) = Some (hd (xs @ [y]))"
    using Cons.prems(1) by (cases xs) auto
  have "linked h (xs @ y # ys)" using Cons.prems(1) by (cases xs) auto
  then have "linked ?h (xs @ y # ys)"
    using Cons.prems(2) by (subst linked_cong [where h' = h]) (auto dest: in_set_butlastD in_set_tlD)
  then have "popleft_n_loop (length xs) (Some (hd (xs @ [y]))) ?h = Inr (xs, Some y, unlink xs ?h)"
    using Cons by auto
  moreover have "unlink xs ?h = unlink (x # xs) h"
    using Cons.prems(2) by (auto simp: unlink_def payload_def set_prev_def set_next_def)
  ultimately show ?case using nx by simp
qed (simp add: unlink_def)

lemma chain_blocks_linked:
  assumes "distinct (p # bs)" and "chain_blocks bs p h = (l, h')"
  shows "l = last (p # bs)" "linked h' (p # bs)"
    "a \<notin> set bs \<Longrightarrow> prev_free_block (h' a) = prev_free_block (h a)"
    "a \<notin> set (butlast (p # bs)) \<Longrightarrow> next_free_block (h' a) = next_free_block (h a)"
    "payload (h' a) = payload (h a)"
  using assms
proof (induction bs arbitrary: p h a)
  case (Cons b bs)
  {
    case 1 then show ?case using Cons by simp
  next
    case 2
    let ?h = "set_next p (Some b) (set_prev b (Some p) h)"
    have c: "chain_blocks bs b ?h = (l, h')" and d: "distinct (b # bs)" using 2 by simp_all
    have "p \<notin> set (butlast (b # bs))" using 2 by (auto dest: in_set_butlastD)
    then have "next_free_block (h' p) = next_free_block (?h p)" using Cons.IH(4) d c by blast
    moreover have "prev_free_block (h' b) = prev_free_block (?h b)" using Cons.IH(3) d c by auto
    ultimately have "next_free_block (h' p) = Some b" "prev_free_block (h' b) = Some p" by simp_all
    then show ?case using 2 Cons.IH(2) by simp
  next
    case 3 then show ?case using Cons.IH(3) [of a b] by auto
  next
    case 4 then show ?case using Cons.IH(4) [of a b] by (auto split: if_splits)
  next
    case 5 then show ?case using Cons.IH(5) [of b _ a] by simp
  }
qed auto

section \<open>The code meets the contract\<close>

lemma fq_repI:
  assumes "linked (heap q) (fake_free_list_head q # xs @ [fake_free_list_tail q])"
    and "distinct (fake_free_list_head q # xs @ [fake_free_list_tail q])"
    and "num_free_blocks q = int (length xs)"
    and "prev_free_block (heap q (fake_free_list_head q)) = None"
    and "next_free_block (heap q (fake_free_list_tail q)) = None"
    and "\<And>a. a \<notin> set (fake_free_list_head q # xs @ [fake_free_list_tail q]) \<Longrightarrow>
        prev_free_block (heap q a) = None \<and> next_free_block (heap q a) = None"
  shows "fq_rep q xs"
  using assms unfolding fq_rep_def by blast

lemma fq_rep_first:
  assumes "fq_rep q xs"
  shows "next_free_block (heap q (fake_free_list_head q)) = Some (hd (xs @ [fake_free_list_tail q]))"
  using assms by (cases xs) (auto simp: fq_rep_def)

lemma fq_rep_last:
  assumes "fq_rep q xs"
  shows "prev_free_block (heap q (fake_free_list_tail q)) = Some (last (fake_free_list_head q # xs))"
proof (cases xs rule: rev_exhaust)
  case (snoc ys y)
  then have "linked (heap q) ((fake_free_list_head q # ys) @ y # [fake_free_list_tail q])"
    using assms by (simp add: fq_rep_def)
  then show ?thesis using snoc by (subst (asm) linked_append) simp
qed (use assms in \<open>auto simp: fq_rep_def\<close>)

lemma fq_pop_empty: "fq_rep q [] \<Longrightarrow> popleft q = Inl ValueError"
  by (auto simp: popleft_def fq_rep_def Let_def)

lemma fq_pop_cons:
  assumes r: "fq_rep q (x # xs)"
  shows "\<exists>q'. popleft q = Inr (x, q') \<and> fq_rep q' xs \<and> fq_frame q' = fq_frame q"
proof -
  let ?hd = "fake_free_list_head q" and ?tl = "fake_free_list_tail q"
  let ?s = "hd (xs @ [?tl])"
  let ?h = "set_prev x None (set_next x None (set_prev ?s (Some ?hd) (set_next ?hd (Some ?s) (heap q))))"
  let ?q = "q\<lparr>heap := ?h, num_free_blocks := num_free_blocks q - 1\<rparr>"
  have l: "linked (heap q) (?hd # x # xs @ [?tl])" and d: "distinct (?hd # x # xs @ [?tl])"
    using r by (simp_all add: fq_rep_def)
  then have sx: "next_free_block (heap q x) = Some ?s" by (cases xs) auto
  have "popleft q = Inr (x, ?q)"
    using l d sx by (auto simp: popleft_def Let_def)
  moreover have "fq_rep ?q xs"
  proof (rule fq_repI)
    have "linked (heap q) (xs @ [?tl])" using l by (cases xs) auto
    then have "linked ?h (xs @ [?tl])"
      using d by (subst linked_cong [where h' = "heap q"]; cases xs) (auto dest: in_set_butlastD)
    then show "linked (heap ?q) (fake_free_list_head ?q # xs @ [fake_free_list_tail ?q])"
      using d by (cases xs) auto
  qed (use r d in \<open>auto simp: fq_rep_def hd_append split: if_splits\<close>)
  moreover have "fq_frame ?q = fq_frame q" by (simp add: fq_frame_def)
  ultimately show ?thesis by blast
qed

lemma fq_popn_short:
  "fq_rep q xs \<Longrightarrow> int (length xs) < n \<Longrightarrow> 0 < n \<Longrightarrow> popleft_n n q = Inl AssertionError"
  by (auto simp: popleft_n_def fq_rep_def)

lemma fq_popn_enough:
  assumes r: "fq_rep q (xs @ ys)"
  shows "\<exists>q'. popleft_n (int (length xs)) q = Inr (xs, q') \<and> fq_rep q' ys \<and> fq_frame q' = fq_frame q"
proof (cases "xs = []")
  case False
  let ?hd = "fake_free_list_head q" and ?tl = "fake_free_list_tail q"
  define s where "s = hd (ys @ [?tl])"
  define zs where "zs = tl (ys @ [?tl])"
  have yz: "ys @ [?tl] = s # zs" by (simp add: s_def zs_def)
  let ?h = "set_prev s (Some ?hd) (set_next ?hd (Some s) (unlink xs (heap q)))"
  let ?q = "q\<lparr>heap := ?h, num_free_blocks := num_free_blocks q - int (length xs)\<rparr>"
  have l: "linked (heap q) (?hd # xs @ s # zs)" and d: "distinct (?hd # xs @ s # zs)"
    using r yz by (simp_all add: fq_rep_def)
  have l': "linked (heap q) (xs @ s # zs)" using l False by (cases xs) auto
  have f: "next_free_block (heap q ?hd) = Some (hd (xs @ [s]))" using l False by (cases xs) auto
  have "popleft_n (int (length xs)) q = Inr (xs, ?q)"
    using False popleft_n_loop_linked [OF l'] d r f
    by (simp add: popleft_n_def fq_rep_def)
  moreover have "fq_rep ?q ys"
  proof (rule fq_repI)
    have "linked (heap q) (s # zs)" using l' linked_append by blast
    then have "linked ?h (s # zs)"
      using d by (subst linked_cong [where h' = "heap q"]) (auto dest: in_set_butlastD split: if_splits)
    then show "linked (heap ?q) (fake_free_list_head ?q # ys @ [fake_free_list_tail ?q])"
      using yz d by simp
    fix a assume "a \<notin> set (fake_free_list_head ?q # ys @ [fake_free_list_tail ?q])"
    moreover have "s \<in> set (ys @ [?tl])" using yz by simp
    ultimately have "a \<noteq> ?hd" "a \<notin> set ys" "a \<noteq> ?tl" "a \<noteq> s" by auto
    then show "prev_free_block (heap ?q a) = None \<and> next_free_block (heap ?q a) = None"
      using r by (auto simp: fq_rep_def)
  next
    have "s \<in> set (ys @ [?tl])" using yz by simp
    then show "prev_free_block (heap ?q (fake_free_list_head ?q)) = None"
      and "next_free_block (heap ?q (fake_free_list_tail ?q)) = None"
      using r by (auto simp add: fq_rep_def)
  qed (use r in \<open>auto simp: fq_rep_def\<close>)
  moreover have "fq_frame ?q = fq_frame q" by (simp add: fq_frame_def)
  ultimately show ?thesis by blast
qed (use r in \<open>simp add: popleft_n_def\<close>)

lemma fq_rem_absent:
  "fq_rep q xs \<Longrightarrow> x \<notin> set xs \<Longrightarrow> fq_remove x q = Inl RuntimeError"
  by (cases "x = fake_free_list_head q \<or> x = fake_free_list_tail q")
    (auto simp: fq_remove_def fq_rep_def split: option.splits)

lemma fq_rem_present:
  assumes r: "fq_rep q (xs @ x # ys)"
  shows "\<exists>q'. fq_remove x q = Inr q' \<and> fq_rep q' (xs @ ys) \<and> fq_frame q' = fq_frame q"
proof -
  let ?hd = "fake_free_list_head q" and ?tl = "fake_free_list_tail q"
  define us where "us = butlast (?hd # xs)"
  define p where "p = last (?hd # xs)"
  define n where "n = hd (ys @ [?tl])"
  define vs where "vs = tl (ys @ [?tl])"
  have up: "?hd # xs = us @ [p]" and nv: "ys @ [?tl] = n # vs"
    unfolding us_def p_def n_def vs_def by simp_all
  let ?h = "set_prev x None (set_next x None (set_prev n (Some p) (set_next p (Some n) (heap q))))"
  let ?q = "q\<lparr>heap := ?h, num_free_blocks := num_free_blocks q - 1\<rparr>"
  have e: "?hd # (xs @ x # ys) @ [?tl] = us @ p # x # n # vs" "?hd # (xs @ ys) @ [?tl] = us @ p # n # vs"
    using up nv by (metis append.assoc append_Cons append_Nil)+
  then have l: "linked (heap q) (us @ p # x # n # vs)" and d: "distinct (us @ p # x # n # vs)"
    using r by (simp_all only: fq_rep_def)
  have lu: "linked (heap q) (us @ [p])" and lv: "linked (heap q) (n # vs)"
    and x: "prev_free_block (heap q x) = Some p" "next_free_block (heap q x) = Some n"
    using l by simp_all
  have "fq_remove x q = Inr ?q" using x by (simp add: fq_remove_def Let_def)
  moreover have "fq_rep ?q (xs @ ys)"
  proof (rule fq_repI)
    have "linked ?h (us @ [p])"
      using lu d by (subst linked_cong [where h' = "heap q"]) (auto dest: in_set_tlD simp: butlast_append)
    moreover have "linked ?h (n # vs)"
      using lv d by (subst linked_cong [where h' = "heap q"]) (auto dest: in_set_butlastD split: if_splits)
    ultimately have "linked ?h (us @ p # n # vs)"
      using d by simp
    then show "linked (heap ?q) (fake_free_list_head ?q # (xs @ ys) @ [fake_free_list_tail ?q])"
      using e by simp
    fix a assume "a \<notin> set (fake_free_list_head ?q # (xs @ ys) @ [fake_free_list_tail ?q])"
    moreover from this have "a \<notin> set (us @ p # n # vs)" unfolding e(2) [symmetric] by simp
    ultimately have "a \<noteq> p" "a \<noteq> n" "a \<notin> set (xs @ ys)" "a \<noteq> ?hd" "a \<noteq> ?tl" by auto
    then show "prev_free_block (heap ?q a) = None \<and> next_free_block (heap ?q a) = None"
      using r by (auto simp: fq_rep_def)
  next
    have "p \<in> set (?hd # xs)" "n \<in> set (ys @ [?tl])" using up nv by simp_all
    then have "?tl \<noteq> p" "?hd \<noteq> n" using r by (auto simp: fq_rep_def)
    then show "next_free_block (heap ?q (fake_free_list_tail ?q)) = None"
      and "prev_free_block (heap ?q (fake_free_list_head ?q)) = None"
      using r by (simp_all add: fq_rep_def)
  qed (use r in \<open>auto simp: fq_rep_def\<close>)
  moreover have "fq_frame ?q = fq_frame q" by (simp add: fq_frame_def)
  ultimately show ?thesis by blast
qed

text \<open>Appending and prepending share one fact: a chain spliced between two neighbours.\<close>

lemma chain_splice:
  assumes l: "linked h (us @ p # n # vs)" and d: "distinct (us @ p # bs @ n # vs)"
    and c: "chain_blocks bs p h = (l, h1)" and h': "h' = set_prev n (Some l) (set_next l (Some n) h1)"
  shows "linked h' (us @ p # bs @ n # vs)"
    "a \<notin> set (p # bs @ [n]) \<Longrightarrow> prev_free_block (h' a) = prev_free_block (h a) \<and>
      next_free_block (h' a) = next_free_block (h a)"
    "next_free_block (h' n) = next_free_block (h n)"
    "prev_free_block (h' p) = prev_free_block (h p)"
    "payload (h' a) = payload (h a)"
proof -
  have db: "distinct (p # bs)" using d by simp
  note C = chain_blocks_linked [OF db c]
  have lin: "l \<in> set (p # bs)" using C(1) by (metis last_in_set list.distinct(1))
  have lu: "linked h (us @ [p])" and lv: "linked h (n # vs)"
    using l by simp_all
  have nb: "next_free_block (h1 a) = next_free_block (h a)" if "a \<notin> set (p # bs)" for a
    using that C(4) in_set_butlastD by metis
  have o: "prev_free_block (h' a) = prev_free_block (h a)" "next_free_block (h' a) = next_free_block (h a)"
    if "a \<notin> set (p # bs @ [n])" for a
    using that C(3) [of a] nb [of a] lin h' by auto
  have nn: "next_free_block (h' n) = next_free_block (h n)"
    using d nb [of n] lin h' by auto
  have pp: "prev_free_block (h' p) = prev_free_block (h p)" using d C(3) [of p] h' by auto
  have du: "\<forall>x \<in> set us. x \<notin> set (p # bs @ [n])" and dv: "\<forall>x \<in> set vs. x \<notin> set (p # bs @ [n])"
    using d by auto
  have "linked h' (us @ [p]) = linked h (us @ [p])"
    by (rule linked_cong) (use du o pp in \<open>auto dest!: in_set_tlD\<close>)
  moreover have "linked h' (n # vs) = linked h (n # vs)"
    by (rule linked_cong) (use dv o nn in \<open>auto dest!: in_set_butlastD split: if_splits\<close>)
  moreover obtain ws where ws: "p # bs = ws @ [l]" using C(1) by (metis append_butlast_last_id list.distinct(1))
  moreover have "linked h' (p # bs)"
  proof -
    have "l \<notin> set (butlast (p # bs))" using db unfolding ws by simp
    then have "linked h' (p # bs) = linked h1 (p # bs)"
      by (intro linked_cong) (use d h' in \<open>auto simp del: butlast.simps\<close>)
    then show ?thesis using C(2) by simp
  qed
  moreover have "next_free_block (h' l) = Some n" "prev_free_block (h' n) = Some l"
    using h' by simp_all
  ultimately have "linked h' (us @ [p])" "linked h' (ws @ l # n # vs)" "p # bs @ n # vs = ws @ l # n # vs"
    using lu lv by simp_all
  then show "linked h' (us @ p # bs @ n # vs)" by (metis linked_join)
  show "a \<notin> set (p # bs @ [n]) \<Longrightarrow> prev_free_block (h' a) = prev_free_block (h a) \<and>
      next_free_block (h' a) = next_free_block (h a)" using o by blast
  show "payload (h' a) = payload (h a)" using C(5) h' by simp
  show "next_free_block (h' n) = next_free_block (h n)" by (rule nn)
  show "prev_free_block (h' p) = prev_free_block (h p)" by (rule pp)
qed

lemma fq_rep_splice:
  assumes r: "fq_rep q (xs @ ys)" and d: "distinct bs"
    and f: "\<forall>b \<in> set bs. fq_real (fq_frame q) b \<and> b \<notin> set (xs @ ys)"
    and c: "chain_blocks bs (last (fake_free_list_head q # xs)) (heap q) = (l, h1)"
    and n: "n = hd (ys @ [fake_free_list_tail q])"
    and q': "q' = q\<lparr>heap := set_prev n (Some l) (set_next l (Some n) h1),
      num_free_blocks := num_free_blocks q + int (length bs)\<rparr>"
  shows "fq_rep q' (xs @ bs @ ys)" "fq_frame q' = fq_frame q"
proof -
  let ?hd = "fake_free_list_head q" and ?tl = "fake_free_list_tail q"
  define us where "us = butlast (?hd # xs)"
  define p where "p = last (?hd # xs)"
  define vs where "vs = tl (ys @ [?tl])"
  have up: "?hd # xs = us @ [p]" and nv: "ys @ [?tl] = n # vs"
    unfolding us_def p_def n vs_def by simp_all
  then have e: "?hd # (xs @ zs @ ys) @ [?tl] = us @ p # zs @ n # vs" for zs
    by (metis append.assoc append_Cons append_Nil)
  have l: "linked (heap q) (us @ p # n # vs)"
    using r e [of "[]"] by (simp add: fq_rep_def)
  have "distinct (?hd # (xs @ bs @ ys) @ [?tl])"
    using r d f by (auto simp: fq_rep_def fq_real_def fq_frame_def)
  then have dd: "distinct (us @ p # bs @ n # vs)" by (simp only: e)
  note S = chain_splice [OF l dd c [folded p_def] refl]
  have in_p: "p \<in> set (?hd # xs)" "n \<in> set (ys @ [?tl])" using up nv by simp_all
  then have ne: "?tl \<noteq> p" "?hd \<noteq> n" using r by (auto simp: fq_rep_def)
  have fr: "?hd \<notin> set bs" "?tl \<notin> set bs" using f by (auto simp: fq_real_def fq_frame_def)
  show "fq_rep q' (xs @ bs @ ys)"
  proof (rule fq_repI)
    show "linked (heap q') (fake_free_list_head q' # (xs @ bs @ ys) @ [fake_free_list_tail q'])"
      using S(1) q' e [of bs] by simp
    show "distinct (fake_free_list_head q' # (xs @ bs @ ys) @ [fake_free_list_tail q'])"
      using dd q' e [of bs] by simp
    show "prev_free_block (heap q' (fake_free_list_head q')) = None"
      using S(2) [of ?hd] S(4) ne(2) fr(1) r q' by (cases "?hd = p") (auto simp: fq_rep_def)
    show "next_free_block (heap q' (fake_free_list_tail q')) = None"
      using S(2) [of ?tl] S(3) ne(1) fr(2) r q' by (cases "?tl = n") (auto simp: fq_rep_def)
    fix a assume "a \<notin> set (fake_free_list_head q' # (xs @ bs @ ys) @ [fake_free_list_tail q'])"
    then have "a \<notin> set (p # bs @ [n])" "a \<notin> set (?hd # (xs @ ys) @ [?tl])" using q' in_p by auto
    then show "prev_free_block (heap q' a) = None \<and> next_free_block (heap q' a) = None"
      using S(2) [of a] r q' by (simp add: fq_rep_def)
  qed (use r q' in \<open>auto simp: fq_rep_def\<close>)
  show "fq_frame q' = fq_frame q" using S(5) q' by (simp add: fq_frame_def)
qed

lemma fq_appn_fresh:
  assumes r: "fq_rep q xs" and d: "distinct ys"
    and f: "\<forall>y \<in> set ys. fq_real (fq_frame q) y \<and> y \<notin> set xs"
  shows "\<exists>q'. append_n ys q = Inr q' \<and> fq_rep q' (xs @ ys) \<and> fq_frame q' = fq_frame q"
proof (cases "ys = []")
  case False
  let ?p = "last (fake_free_list_head q # xs)" and ?tl = "fake_free_list_tail q"
  obtain l h1 where c: "chain_blocks ys ?p (heap q) = (l, h1)" by force
  define q' where "q' = q\<lparr>heap := set_prev ?tl (Some l) (set_next l (Some ?tl) h1),
      num_free_blocks := num_free_blocks q + int (length ys)\<rparr>"
  have "append_n ys q = Inr q'"
    using False c fq_rep_last [OF r] by (simp add: append_n_def q'_def Let_def)
  then show ?thesis using fq_rep_splice [of q xs "[]" ys l h1 ?tl q'] r d f c q'_def by simp
qed (use r in \<open>simp add: append_n_def\<close>)

lemma fq_pren_fresh:
  assumes r: "fq_rep q xs" and d: "distinct ys"
    and f: "\<forall>y \<in> set ys. fq_real (fq_frame q) y \<and> y \<notin> set xs"
  shows "\<exists>q'. prepend_n ys q = Inr q' \<and> fq_rep q' (ys @ xs) \<and> fq_frame q' = fq_frame q"
proof (cases "ys = []")
  case False
  let ?p = "fake_free_list_head q" and ?n = "hd (xs @ [fake_free_list_tail q])"
  obtain l h1 where c: "chain_blocks ys ?p (heap q) = (l, h1)" by force
  define q' where "q' = q\<lparr>heap := set_prev ?n (Some l) (set_next l (Some ?n) h1),
      num_free_blocks := num_free_blocks q + int (length ys)\<rparr>"
  have "prepend_n ys q = Inr q'"
    using False c fq_rep_first [OF r] by (simp add: prepend_n_def q'_def Let_def)
  then show ?thesis using fq_rep_splice [of q "[]" xs ys l h1 ?n q'] r d f c q'_def by simp
qed (use r in \<open>simp add: prepend_n_def\<close>)

text \<open>\<^verbatim>\<open>append\<close> writes the four pointers in another order than \<^verbatim>\<open>append_n\<close> on one block; the store is the
  same.\<close>

lemma fq_append_eq:
  assumes "fq_rep q xs" and "fq_real (fq_frame q) x" and "x \<notin> set xs"
  shows "fq_append x q = append_n [x] q"
proof -
  have "last (fake_free_list_head q # xs) \<noteq> x"
    using assms last_in_set [of "fake_free_list_head q # xs"] by (auto simp: fq_real_def fq_frame_def)
  then have "set_prev x (Some l) (set_next l (Some x) h) = set_next l (Some x) (set_prev x (Some l) h)"
    if "l = last (fake_free_list_head q # xs)" for l h
    using that by (simp add: set_prev_def set_next_def fun_upd_twist)
  then show ?thesis using fq_rep_last [OF assms(1)] by (simp add: fq_append_def append_n_def Let_def)
qed

lemma fq_rep_fun:
  assumes "fq_rep q xs" and "fq_rep q ys"
  shows "xs = ys"
proof -
  have len: "length xs = length ys" using assms by (simp add: fq_rep_def)
  have "linked h (a # us @ [t]) \<Longrightarrow> linked h (a # vs @ [t]) \<Longrightarrow> length us = length vs \<Longrightarrow> us = vs" for h a us vs t
  proof (induction us arbitrary: a vs)
    case (Cons u us)
    then obtain v vs' where "vs = v # vs'" by (cases vs) auto
    with Cons show ?case by auto
  qed simp
  then show ?thesis using assms len by (fastforce simp: fq_rep_def)
qed

interpretation fq: eviction_queue fq_rep fq_frame fq_real num_free_blocks popleft popleft_n
  fq_remove fq_append append_n prepend_n
proof (unfold_locales, goal_cases)
  case (1 q xs) then show ?case by (auto simp: fq_rep_def fq_real_def fq_frame_def)
next
  case (10 q xs x)
  then show ?case using fq_appn_fresh [of q xs "[x]"] fq_append_eq by simp
qed (simp_all add: fq_rep_fun fq_pop_empty fq_pop_cons fq_popn_short fq_popn_enough fq_rem_absent
    fq_rem_present fq_appn_fresh fq_pren_fresh, simp_all add: fq_rep_def)

section \<open>Construction and traversal\<close>

lemma init_links_at [simp]:
  "prev_free_block (init_links bs k g a) = (if a = bs ! k \<and> 0 < k then Some (bs ! (k - 1)) else prev_free_block (g a))"
  "next_free_block (init_links bs k g a) =
     (if a = bs ! k \<and> Suc k < length bs then Some (bs ! Suc k) else next_free_block (g a))"
  "payload (init_links bs k g a) = payload (g a)"
  "a \<noteq> bs ! k \<Longrightarrow> init_links bs k g a = g a"
  by (simp_all add: init_links_def Let_def set_prev_def set_next_def payload_def)

lemma init_links_fold:
  fixes h :: store
  assumes "distinct bs" and "k \<le> length bs" and "\<And>a. prev_free_block (h a) = None \<and> next_free_block (h a) = None"
  defines "h' \<equiv> fold (init_links bs) [0..<k] h"
  shows "i < length bs \<Longrightarrow> prev_free_block (h' (bs ! i)) = (if 0 < i \<and> i < k then Some (bs ! (i - 1)) else None)"
    "i < length bs \<Longrightarrow>
      next_free_block (h' (bs ! i)) = (if Suc i < length bs \<and> i < k then Some (bs ! Suc i) else None)"
    "a \<notin> set bs \<Longrightarrow> h' a = h a" "payload (h' a) = payload (h a)"
  using assms(2) unfolding h'_def
proof (induction k)
  case (Suc k)
  have e: "fold (init_links bs) [0..<Suc k] h = init_links bs k (fold (init_links bs) [0..<k] h)" by simp
  {
    case 1
    then have "prev_free_block (fold (init_links bs) [0..<k] h (bs ! i)) =
      (if 0 < i \<and> i < k then Some (bs ! (i - 1)) else None)" using Suc.IH(1) by simp
    moreover have "bs ! i = bs ! k \<longleftrightarrow> i = k" using 1 assms(1) by (simp add: nth_eq_iff_index_eq)
    ultimately show ?case unfolding e init_links_at by (simp only: less_Suc_eq) auto
  next
    case 2
    then have "next_free_block (fold (init_links bs) [0..<k] h (bs ! i)) =
      (if Suc i < length bs \<and> i < k then Some (bs ! Suc i) else None)" using Suc.IH(2) by simp
    moreover have "bs ! i = bs ! k \<longleftrightarrow> i = k" using 2 assms(1) by (simp add: nth_eq_iff_index_eq)
    ultimately show ?case unfolding e init_links_at by (simp only: less_Suc_eq) auto
  next
    case 3
    then have "a \<noteq> bs ! k" "fold (init_links bs) [0..<k] h a = h a" using Suc.IH(3) by auto
    then show ?case unfolding e by simp
  next
    case 4
    then have "payload (fold (init_links bs) [0..<k] h a) = payload (h a)" using Suc.IH(4) by simp
    then show ?case unfolding e by simp
  }
qed (simp_all add: assms(3))

lemma free_queue_init_rep:
  assumes d: "distinct bs" and n: "\<And>a. prev_free_block (h a) = None \<and> next_free_block (h a) = None"
    and f: "hd_a \<notin> set bs" "tl_a \<notin> set bs" "hd_a \<noteq> tl_a"
  shows "fq_rep (free_queue_init h bs hd_a tl_a) bs"
    and "a \<in> set bs \<Longrightarrow> payload (heap (free_queue_init h bs hd_a tl_a) a) = payload (h a)"
    and "fake_free_list_head (free_queue_init h bs hd_a tl_a) = hd_a"
    and "fake_free_list_tail (free_queue_init h bs hd_a tl_a) = tl_a"
proof -
  let ?q = "free_queue_init h bs hd_a tl_a"
  let ?h = "fold (init_links bs) [0..<length bs] h"
  note I = init_links_fold [OF d order_refl, of h, OF n]
  note defs = free_queue_init_def Let_def new_block_def
  have ends: "\<forall>b \<in> set bs. b \<noteq> hd_a \<and> b \<noteq> tl_a" using f by auto
  show "fake_free_list_head ?q = hd_a" "fake_free_list_tail ?q = tl_a" by (simp_all add: defs)
  show "a \<in> set bs \<Longrightarrow> payload (heap ?q a) = payload (h a)"
    using I(4) [of a] ends by (auto simp: defs)
  show "fq_rep ?q bs"
  proof (cases "bs = []")
    case True
    then show ?thesis using n f by (auto simp: defs fq_rep_def)
  next
    case False
    have nx: "next_free_block (heap ?q (bs ! i)) = (if Suc i < length bs then Some (bs ! Suc i) else Some tl_a)"
      if "i < length bs" for i
      using that I(2) ends nth_mem [OF that] d False
      by (auto simp: defs last_conv_nth nth_eq_iff_index_eq)
    have pv: "prev_free_block (heap ?q (bs ! i)) = (if 0 < i then Some (bs ! (i - 1)) else Some hd_a)"
      if "i < length bs" for i
      using that I(1) ends nth_mem [OF that] d False
      by (auto simp: defs hd_conv_nth nth_eq_iff_index_eq)
    have e: "next_free_block (heap ?q hd_a) = Some (bs ! 0)" "prev_free_block (heap ?q tl_a) = Some (bs ! (length bs - 1))"
      "prev_free_block (heap ?q hd_a) = None" "next_free_block (heap ?q tl_a) = None"
      using False f ends by (auto simp: defs hd_conv_nth last_conv_nth)
    have hq: "fake_free_list_head ?q = hd_a" "fake_free_list_tail ?q = tl_a" "num_free_blocks ?q = int (length bs)"
      by (simp_all add: defs)
    have "linked (heap ?q) (hd_a # bs @ [tl_a])"
      unfolding linked_nth
    proof (intro allI impI, goal_cases)
      case (1 i)
      show ?case
      proof (cases i)
        case 0
        then show ?thesis using False e pv [of 0] by (simp add: nth_append)
      next
        case (Suc j)
        then show ?thesis using 1 False e(2) nx [of j] pv [of "Suc j"]
          by (cases "Suc j < length bs") (auto simp: nth_append dest: less_antisym)
      qed
    qed
    moreover have "prev_free_block (heap ?q a) = None \<and> next_free_block (heap ?q a) = None"
      if "a \<notin> set (hd_a # bs @ [tl_a])" for a
      using that I(3) [of a] n [of a] False by (auto simp: defs)
    ultimately show ?thesis using d f e by (intro fq_repI) (simp_all add: hq)
  qed
qed

lemma collect_free_linked:
  assumes "linked h (xs @ [t])" and "next_free_block (h t) = None"
  shows "collect_free h (hd (xs @ [t])) = Some xs"
  using assms
proof (induction xs)
  case Nil
  then show ?case by (subst collect_free.simps) simp
next
  case (Cons x xs)
  then have "next_free_block (h x) = Some (hd (xs @ [t]))" "linked h (xs @ [t])" by (cases xs; simp)+
  then show ?case using Cons by (subst collect_free.simps) simp
qed

lemma walk_free_linked:
  assumes "linked (heap q) (xs @ [fake_free_list_tail q])" and "fake_free_list_tail q \<notin> set xs"
  shows "walk_free q (Some (hd (xs @ [fake_free_list_tail q]))) = Some xs"
  using assms
proof (induction xs)
  case Nil
  then show ?case by (subst walk_free.simps) simp
next
  case (Cons x xs)
  then have "next_free_block (heap q x) = Some (hd (xs @ [fake_free_list_tail q]))"
    "linked (heap q) (xs @ [fake_free_list_tail q])" by (cases xs; simp)+
  then show ?case using Cons by (subst walk_free.simps) simp
qed

lemma linked_suffix: "linked h (xs @ ys) \<Longrightarrow> linked h ys"
proof (induction xs)
  case (Cons x xs)
  then show ?case by (cases "xs @ ys") auto
qed simp

lemma fq_rep_linked_tail:
  "fq_rep q (xs @ ys) \<Longrightarrow> linked (heap q) (ys @ [fake_free_list_tail q])"
  using linked_suffix [of "heap q" "fake_free_list_head q # xs"] by (simp add: fq_rep_def)

lemma get_all_free_blocks_rep: "fq_rep q xs \<Longrightarrow> get_all_free_blocks q = Some (Inr xs)"
  using collect_free_linked [of "heap q" xs "fake_free_list_tail q"] fq_rep_linked_tail [of q "[]" xs]
  by (simp add: get_all_free_blocks_def fq_rep_first) (simp add: fq_rep_def)

lemma iter_blocks_after_rep:
  "fq_rep q xs \<Longrightarrow> iter_blocks_after None q = Some xs"
  "fq_rep q (xs @ x # ys) \<Longrightarrow> iter_blocks_after (Some x) q = Some ys"
proof -
  show "fq_rep q xs \<Longrightarrow> iter_blocks_after None q = Some xs"
    using walk_free_linked [of q xs] fq_rep_linked_tail [of q "[]" xs]
    by (simp add: iter_blocks_after_def fq_rep_first) (simp add: fq_rep_def)
  assume r: "fq_rep q (xs @ x # ys)"
  have "linked (heap q) (x # ys @ [fake_free_list_tail q])"
    using fq_rep_linked_tail [of q xs "x # ys"] r by simp
  then have "next_free_block (heap q x) = Some (hd (ys @ [fake_free_list_tail q]))"
    "linked (heap q) (ys @ [fake_free_list_tail q])" by (cases ys; simp)+
  then show "iter_blocks_after (Some x) q = Some ys"
    using walk_free_linked [of q ys] r by (simp add: iter_blocks_after_def fq_rep_def)
qed

section \<open>Properties\<close>

text \<open>C17: building the free queue over distinct blocks links them in the given order, and walking the links
  from the fake head ends and returns exactly these blocks: both traversals terminate, and the one that
  starts after a cursor returns the blocks behind it.\<close>

theorem free_queue_construction_and_traversal:
  assumes "distinct bs" and "\<And>a. prev_free_block (h a) = None \<and> next_free_block (h a) = None"
    and "hd_a \<notin> set bs" and "tl_a \<notin> set bs" and "hd_a \<noteq> tl_a" and "bs = us @ x # vs"
  shows "fq_rep (free_queue_init h bs hd_a tl_a) bs \<and>
    get_all_free_blocks (free_queue_init h bs hd_a tl_a) = Some (Inr bs) \<and>
    iter_blocks_after None (free_queue_init h bs hd_a tl_a) = Some bs \<and>
    iter_blocks_after (Some x) (free_queue_init h bs hd_a tl_a) = Some vs"
proof -
  have "fq_rep (free_queue_init h bs hd_a tl_a) bs" using free_queue_init_rep(1) assms(1-5) by blast
  then show ?thesis using get_all_free_blocks_rep iter_blocks_after_rep assms(6) by blast
qed

theorem free_queue_construction_and_traversal_witness:
  "fq_rep (free_queue_init (\<lambda>a. new_block (int a) 0) [0, 1, 2] 3 4) [0, 1, 2] \<and>
   get_all_free_blocks (free_queue_init (\<lambda>a. new_block (int a) 0) [0, 1, 2] 3 4) = Some (Inr [0, 1, 2]) \<and>
   iter_blocks_after None (free_queue_init (\<lambda>a. new_block (int a) 0) [0, 1, 2] 3 4) = Some [0, 1, 2] \<and>
   iter_blocks_after (Some 1) (free_queue_init (\<lambda>a. new_block (int a) 0) [0, 1, 2] 3 4) = Some [2]"
  by (rule free_queue_construction_and_traversal [where us = "[0]"]) (simp_all add: new_block_def)

text \<open>C11: the pointer operations refine list operations.  On a queue that spells \<^verbatim>\<open>xs\<close>, removing a block
  gives the list without it when it is in the queue and raises \<^verbatim>\<open>RuntimeError\<close> otherwise; popping \<^verbatim>\<open>n\<close> blocks
  returns the first \<^verbatim>\<open>n\<close> and leaves the rest, and raises \<^verbatim>\<open>AssertionError\<close> when there are fewer; blocks
  that are prepended come out first and blocks that are appended come out last.  None of them changes
  anything else of any block.\<close>

theorem free_queue_refines_list:
  assumes "fq_rep q xs" and "0 \<le> n" and "distinct ys"
    and "\<forall>y \<in> set ys. fq_real (fq_frame q) y \<and> y \<notin> set xs"
  shows "(case fq_remove b q of
      Inr q' \<Rightarrow> b \<in> set xs \<and> fq_rep q' (remove1 b xs) \<and> fq_frame q' = fq_frame q
    | Inl e \<Rightarrow> b \<notin> set xs \<and> e = RuntimeError) \<and>
    (case popleft_n n q of
      Inr (bs, q') \<Rightarrow> n \<le> int (length xs) \<and> bs = take (nat n) xs \<and> fq_rep q' (drop (nat n) xs) \<and> fq_frame q' = fq_frame q
    | Inl e \<Rightarrow> int (length xs) < n \<and> e = AssertionError) \<and>
    (\<exists>q' q''. prepend_n ys q = Inr q' \<and> fq_rep q' (ys @ xs) \<and> append_n ys q = Inr q'' \<and> fq_rep q'' (xs @ ys) \<and>
      fq_frame q' = fq_frame q \<and> fq_frame q'' = fq_frame q)"
proof (intro conjI)
  show "case fq_remove b q of
      Inr q' \<Rightarrow> b \<in> set xs \<and> fq_rep q' (remove1 b xs) \<and> fq_frame q' = fq_frame q
    | Inl e \<Rightarrow> b \<notin> set xs \<and> e = RuntimeError"
    using fq.rem_mem [OF assms(1), of b] fq.rem_absent [OF assms(1), of b] by (cases "b \<in> set xs") auto
  show "case popleft_n n q of
      Inr (bs, q') \<Rightarrow> n \<le> int (length xs) \<and> bs = take (nat n) xs \<and> fq_rep q' (drop (nat n) xs) \<and> fq_frame q' = fq_frame q
    | Inl e \<Rightarrow> int (length xs) < n \<and> e = AssertionError"
    using fq.popn_take [OF assms(1), of "nat n"] fq.popn_short [OF assms(1), of n] assms(2)
    by (cases "n \<le> int (length xs)") (auto simp: nat_le_iff)
  show "\<exists>q' q''. prepend_n ys q = Inr q' \<and> fq_rep q' (ys @ xs) \<and> append_n ys q = Inr q'' \<and> fq_rep q'' (xs @ ys) \<and>
      fq_frame q' = fq_frame q \<and> fq_frame q'' = fq_frame q"
    using fq.pren_fresh [OF assms(1,3,4)] fq.appn_fresh [OF assms(1,3,4)] by blast
qed

theorem free_queue_refines_list_witness:
  "let q = free_queue_init (\<lambda>a. new_block (int a) 0) [0, 1, 2] 10 11 in
   (case fq_remove 1 q of Inr q' \<Rightarrow> 1 \<in> set [0, 1, 2 :: nat] \<and> fq_rep q' (remove1 1 [0, 1, 2]) \<and> fq_frame q' = fq_frame q
    | Inl e \<Rightarrow> 1 \<notin> set [0, 1, 2 :: nat] \<and> e = RuntimeError) \<and>
   (case popleft_n 2 q of
      Inr (bs, q') \<Rightarrow> (2 :: int) \<le> int (length [0, 1, 2 :: nat]) \<and> bs = take (nat 2) [0, 1, 2] \<and>
        fq_rep q' (drop (nat 2) [0, 1, 2]) \<and> fq_frame q' = fq_frame q
    | Inl e \<Rightarrow> int (length [0, 1, 2 :: nat]) < 2 \<and> e = AssertionError) \<and>
   (\<exists>q' q''. prepend_n [5] q = Inr q' \<and> fq_rep q' ([5] @ [0, 1, 2]) \<and> append_n [5] q = Inr q'' \<and>
      fq_rep q'' ([0, 1, 2] @ [5]) \<and> fq_frame q' = fq_frame q \<and> fq_frame q'' = fq_frame q)"
proof -
  have "fq_rep (free_queue_init (\<lambda>a. new_block (int a) 0) [0, 1, 2] 10 11) [0, 1, 2]"
    by (rule free_queue_init_rep(1)) (simp_all add: new_block_def)
  then show ?thesis unfolding Let_def
    by (rule free_queue_refines_list) (simp_all add: fq_real_def fq_frame_def free_queue_init_def Let_def)
qed



end
