(* ===== verification/Block_Map.thy ===== *)
theory Block_Map
  imports Prelude
begin

text \<open>
  \<^verbatim>\<open>BlockHashToBlockMap\<close> of \<^verbatim>\<open>vllm/v1/core/block_pool.py\<close>: the index from packed block hashes to cached
  blocks.  A key maps to a single block or to a dict of blocks; a dict keyed by block id is the list of
  its ids in insertion order.  The locale \<^verbatim>\<open>hash_index\<close> is the contract the block pool uses: the index is
  a map from keys to lists of distinct block ids.
\<close>

datatype cache_entry = Single nat | Many "nat list"

type_synonym block_map = "bytes \<Rightarrow> cache_entry option"

definition bm_empty :: block_map where
  "bm_empty = (\<lambda>_. None)"

definition get_one_block :: "block_map \<Rightarrow> bytes \<Rightarrow> nat option result" where
  "get_one_block m key =
     (case m key of
        None \<Rightarrow> Inr None
      | Some (Single b) \<Rightarrow> Inr (Some b)
      | Some (Many bs) \<Rightarrow> (case bs of [] \<Rightarrow> Inl StopIteration | b # _ \<Rightarrow> Inr (Some b)))"

definition bm_contain :: "block_map \<Rightarrow> bytes \<Rightarrow> nat \<Rightarrow> bool" where
  "bm_contain m key b =
     (case m key of None \<Rightarrow> False | Some (Single c) \<Rightarrow> c = b | Some (Many bs) \<Rightarrow> b \<in> set bs)"

definition bm_insert :: "block_map \<Rightarrow> bytes \<Rightarrow> nat \<Rightarrow> block_map" where
  "bm_insert m key b =
     (case m key of
        None \<Rightarrow> m(key \<mapsto> Single b)
      | Some (Single c) \<Rightarrow> m(key \<mapsto> Many (if c = b then [b] else [c, b]))
      | Some (Many bs) \<Rightarrow> m(key \<mapsto> Many (if b \<in> set bs then bs else bs @ [b])))"

definition bm_pop :: "block_map \<Rightarrow> bytes \<Rightarrow> nat \<Rightarrow> nat option \<times> block_map" where
  "bm_pop m key b =
     (case m key of
        None \<Rightarrow> (None, m)
      | Some (Single c) \<Rightarrow> if c = b then (Some b, m(key := None)) else (None, m(key \<mapsto> Single c))
      | Some (Many bs) \<Rightarrow>
          let bs' = remove1 b bs
          in (if b \<in> set bs then Some b else None, if bs' \<noteq> [] then m(key \<mapsto> Many bs') else m(key := None)))"

section \<open>The index as a map to lists\<close>

definition bm_ids :: "block_map \<Rightarrow> bytes \<Rightarrow> nat list" where
  "bm_ids m key = (case m key of None \<Rightarrow> [] | Some (Single b) \<Rightarrow> [b] | Some (Many bs) \<Rightarrow> bs)"

definition bm_ok :: "block_map \<Rightarrow> bool" where
  "bm_ok m \<longleftrightarrow> (\<forall>key bs. m key = Some (Many bs) \<longrightarrow> bs \<noteq> [] \<and> distinct bs)"

locale hash_index =
  fixes ids :: "'m \<Rightarrow> bytes \<Rightarrow> nat list"
    and ok :: "'m \<Rightarrow> bool"
    and emp :: 'm
    and get :: "'m \<Rightarrow> bytes \<Rightarrow> nat option result"
    and has :: "'m \<Rightarrow> bytes \<Rightarrow> nat \<Rightarrow> bool"
    and ins :: "'m \<Rightarrow> bytes \<Rightarrow> nat \<Rightarrow> 'm"
    and del :: "'m \<Rightarrow> bytes \<Rightarrow> nat \<Rightarrow> nat option \<times> 'm"
  assumes emp_ok: "ok emp" and emp_ids: "ids emp key = []"
    and ids_distinct: "ok m \<Longrightarrow> distinct (ids m key)"
    and get_first: "ok m \<Longrightarrow> get m key = Inr (case ids m key of [] \<Rightarrow> None | b # _ \<Rightarrow> Some b)"
    and has_iff: "has m key b \<longleftrightarrow> b \<in> set (ids m key)"
    and ins_ok: "ok m \<Longrightarrow> ok (ins m key b)"
    and ins_ids: "ids (ins m key b) k =
      (if k = key \<and> b \<notin> set (ids m key) then ids m key @ [b] else ids m k)"
    and del_ok: "ok m \<Longrightarrow> ok (snd (del m key b))"
    and del_res: "fst (del m key b) = (if b \<in> set (ids m key) then Some b else None)"
    and del_ids: "ids (snd (del m key b)) k = (if k = key then remove1 b (ids m key) else ids m k)"
begin

text \<open>A block that is inserted is found, and the first of several blocks with the same key stays the one
  that is found.\<close>

lemma get_after_ins:
  assumes "ok m"
  shows "get (ins m key b) key = Inr (Some (hd (ids m key @ [b])))"
proof -
  have "ids (ins m key b) key = (if b \<in> set (ids m key) then ids m key else ids m key @ [b])"
    by (simp add: ins_ids)
  then show ?thesis using get_first [OF ins_ok [OF assms]]
    by (cases "ids m key") (auto split: if_splits)
qed

lemma del_members:
  "ok m \<Longrightarrow> set (ids (snd (del m key b)) k) = (if k = key then set (ids m key) - {b} else set (ids m k))"
  by (simp add: del_ids ids_distinct)

lemma del_after_ins:
  assumes "ok m" and "b \<notin> set (ids m key)"
  shows "ids (snd (del (ins m key b) key b)) k = ids m k"
  using assms by (simp add: del_ids ins_ids remove1_append remove1_idem)

end

lemma bm_ids_distinct: "bm_ok m \<Longrightarrow> distinct (bm_ids m key)"
  by (auto simp: bm_ids_def bm_ok_def split: option.splits cache_entry.splits)

lemma remove1_singleton: "remove1 b bs = [] \<Longrightarrow> bs = [] \<or> bs = [b]"
  by (cases bs) (auto split: if_splits)

interpretation bm: hash_index bm_ids bm_ok bm_empty get_one_block bm_contain bm_insert bm_pop
proof (unfold_locales, goal_cases)
  case (8 m key b) \<comment> \<open>a dict that becomes empty is not put back\<close>
  then show ?case
    by (auto simp: bm_ok_def bm_pop_def Let_def split: option.splits cache_entry.splits if_splits)
qed (auto simp: bm_ok_def bm_ids_def bm_empty_def get_one_block_def bm_contain_def bm_insert_def bm_pop_def Let_def
    dest: remove1_singleton split: option.splits cache_entry.splits list.splits if_splits)

lemmas bm_simps = bm.has_iff bm.ins_ids bm.del_res bm.del_ids bm.emp_ids

end
