(* ===== verification/Block_Hash.thy ===== *)
theory Block_Hash
  imports Request
begin

text \<open>
  Block hashing of \<^verbatim>\<open>vllm/v1/core/kv_cache_utils.py\<close>: the packed keys of the prefix cache, the extra
  keys of a block, the chained block hash, the incremental hasher of a request, and the coarser view
  \<^verbatim>\<open>BlockHashListWithBlockSize\<close>.

  Parameters stand for what the code gets from elsewhere: \<^verbatim>\<open>hash_function\<close> (sha256 or xxhash of a
  serialised tuple), \<^verbatim>\<open>embeds_digest\<close> (\<^verbatim>\<open>hashlib.sha256(tensor_data(rows)).digest()\<close>), \<^verbatim>\<open>NONE_HASH\<close>, the
  environment, and whether external hashes are converted to integers.
\<close>

section \<open>Packed keys\<close>

text \<open>\<^verbatim>\<open>int.to_bytes(n, 'big', signed=False)\<close> and \<^verbatim>\<open>int.from_bytes(bs, 'big')\<close>.\<close>

primrec digits_big :: "nat \<Rightarrow> int \<Rightarrow> bytes" where
  "digits_big 0 x = []"
| "digits_big (Suc n) x = digits_big n (x div 256) @ [word_of_int x]"

definition to_bytes_big :: "nat \<Rightarrow> int \<Rightarrow> bytes result" where
  "to_bytes_big n x = (if x < 0 \<or> 256 ^ n \<le> x then Inl OverflowError else Inr (digits_big n x))"

definition from_bytes_big :: "bytes \<Rightarrow> int" where
  "from_bytes_big bs = foldl (\<lambda>a b. a * 256 + uint b) 0 bs"

definition make_block_hash_with_group_id :: "bytes \<Rightarrow> int \<Rightarrow> bytes result" where
  "make_block_hash_with_group_id bh g = bindE (to_bytes_big 4 g) (\<lambda>bs. Inr (bh @ bs))"

definition get_block_hash :: "bytes \<Rightarrow> bytes" where
  "get_block_hash key = take (length key - 4) key"

definition get_group_id :: "bytes \<Rightarrow> int" where
  "get_group_id key = from_bytes_big (drop (length key - 4) key)"

datatype external_hash = EBytes bytes | EInt int

definition maybe_convert_block_hash :: "bool \<Rightarrow> bytes \<Rightarrow> external_hash" where
  "maybe_convert_block_hash use_int bh =
     (if \<not> use_int then EBytes bh else EInt (and (from_bytes_big bh) (push_bit 64 1 - 1)))"

section \<open>The seed\<close>

datatype extra_key = KStr string | KMM string int | KBytes bytes

text \<open>What the hash function is applied to: the seed string or the tuple of a block.\<close>

datatype hash_input =
    HSeed string
  | HBlock bytes "int list" "extra_key list option"

definition DEFAULT_NONE_HASH_SEED :: string where
  "DEFAULT_NONE_HASH_SEED = ''vllm-none-hash''"

definition resolve_none_hash_seed :: "string option \<Rightarrow> bool \<Rightarrow> string \<Rightarrow> string" where
  "resolve_none_hash_seed pythonhashseed non_crypto urandom_hex =
     (case pythonhashseed of
        Some s \<Rightarrow> s
      | None \<Rightarrow> if non_crypto then urandom_hex else DEFAULT_NONE_HASH_SEED)"

definition init_none_hash :: "(hash_input \<Rightarrow> bytes) \<Rightarrow> string option \<Rightarrow> bool \<Rightarrow> string \<Rightarrow> string \<times> bytes" where
  "init_none_hash hash_fn pythonhashseed non_crypto urandom_hex =
     (let seed = resolve_none_hash_seed pythonhashseed non_crypto urandom_hex
      in (seed, hash_fn (HSeed seed)))"

definition get_none_hash_seed :: "string option \<Rightarrow> string" where
  "get_none_hash_seed none_hash_seed =
     (case none_hash_seed of None \<Rightarrow> DEFAULT_NONE_HASH_SEED | Some s \<Rightarrow> s)"

section \<open>Extra keys\<close>

text \<open>The \<^verbatim>\<open>while\<close> loop over the multi-modal inputs from index \<^verbatim>\<open>i\<close>.\<close>

function gen_mm_loop :: "mm_feature list \<Rightarrow> int \<Rightarrow> int \<Rightarrow> nat \<Rightarrow> extra_key list \<times> nat" where
  "gen_mm_loop fs start_tok end_tok i =
     (if i < length fs then
        (let f = fs ! i; off = offset (mm_position f); len = plength (mm_position f)
         in if end_tok > off then
              if start_tok \<ge> off + len then gen_mm_loop fs start_tok end_tok (Suc i)
              else (let key = KMM (mm_identifier f) (off - start_tok)
                    in if end_tok \<ge> off + len
                       then (let (ks, j) = gen_mm_loop fs start_tok end_tok (Suc i) in (key # ks, j))
                       else ([key], i))
            else ([], i))
      else ([], i))"
  by auto
termination by (relation "measure (\<lambda>(fs, _, _, i). length fs - i)") auto

definition gen_mm_extra_hash_keys :: "request \<Rightarrow> int \<Rightarrow> int \<Rightarrow> int \<Rightarrow> (extra_key list \<times> int) result" where
  "gen_mm_extra_hash_keys r start_tok end_tok start_mm_idx =
     (let fs = mm_features r
      in if fs = [] then Inr ([], start_mm_idx)
         else if offset (mm_position (last fs)) + plength (mm_position (last fs)) \<le> start_tok
              then Inr ([], start_mm_idx)
         else if start_mm_idx < 0 \<and> \<not> - start_mm_idx \<le> int (length fs) then Inl AssertionError
         else (let s = (if start_mm_idx < 0 then int (length fs) + start_mm_idx else start_mm_idx);
                   (ks, j) = gen_mm_loop fs start_tok end_tok (nat s)
               in Inr (ks, int j)))"

definition gen_lora_extra_hash_keys :: "request \<Rightarrow> extra_key list" where
  "gen_lora_extra_hash_keys r =
     (case lora_request r of None \<Rightarrow> [] | Some l \<Rightarrow> [KStr (lora_name l)])"

text \<open>The digest of a slice of the prompt embeddings, memoised in the request.\<close>

definition gen_prompt_embeds_extra_hash_keys ::
  "(bytes list \<Rightarrow> bytes) \<Rightarrow> request \<Rightarrow> int \<Rightarrow> int \<Rightarrow> extra_key list \<times> request" where
  "gen_prompt_embeds_extra_hash_keys embeds_digest r start_tok end_tok =
     (case prompt_embeds r of
        None \<Rightarrow> ([], r)
      | Some rows \<Rightarrow>
          (case prompt_embeds_per_block_hashes r (start_tok, end_tok) of
             Some h \<Rightarrow> ([KBytes h], r)
           | None \<Rightarrow>
               let h = embeds_digest (py_slice rows start_tok end_tok)
               in ([KBytes h],
                   r\<lparr>prompt_embeds_per_block_hashes :=
                       (prompt_embeds_per_block_hashes r)((start_tok, end_tok) \<mapsto> h)\<rparr>)))"

definition cache_salt_keys :: "request \<Rightarrow> int \<Rightarrow> extra_key list" where
  "cache_salt_keys r start_tok =
     (case cache_salt r of
        None \<Rightarrow> []
      | Some s \<Rightarrow> if start_tok = 0 \<and> s \<noteq> [] then [KStr s] else [])"

definition generate_block_hash_extra_keys ::
  "(bytes list \<Rightarrow> bytes) \<Rightarrow> request \<Rightarrow> int \<Rightarrow> int \<Rightarrow> int \<Rightarrow> (extra_key list option \<times> int \<times> request) result" where
  "generate_block_hash_extra_keys embeds_digest r start_tok end_tok start_mm_idx =
     bindE (gen_mm_extra_hash_keys r start_tok end_tok start_mm_idx) (\<lambda>(mm_keys, new_start_mm_idx).
       let lora_keys = gen_lora_extra_hash_keys r;
           salt_keys = cache_salt_keys r start_tok;
           (embeds_keys, r') = gen_prompt_embeds_extra_hash_keys embeds_digest r start_tok end_tok;
           extra_keys = lora_keys @ mm_keys @ salt_keys @ embeds_keys
       in Inr (if extra_keys = [] then None else Some extra_keys, new_start_mm_idx, r'))"

section \<open>Chained hashes\<close>

text \<open>\<^verbatim>\<open>if not parent_block_hash\<close> also replaces empty bytes.\<close>

definition hash_block_tokens ::
  "(hash_input \<Rightarrow> bytes) \<Rightarrow> bytes \<Rightarrow> bytes option \<Rightarrow> int list \<Rightarrow> extra_key list option \<Rightarrow> bytes" where
  "hash_block_tokens hash_function none_hash parent tokens extra =
     (let p = (case parent of None \<Rightarrow> none_hash | Some b \<Rightarrow> if b = [] then none_hash else b)
      in hash_function (HBlock p tokens extra))"

text \<open>The \<^verbatim>\<open>while True\<close> loop of \<^verbatim>\<open>request_block_hasher\<close>; \<^verbatim>\<open>None\<close> means it never returns.\<close>

partial_function (option) hasher_loop ::
  "(hash_input \<Rightarrow> bytes) \<Rightarrow> bytes \<Rightarrow> (bytes list \<Rightarrow> bytes) \<Rightarrow> int \<Rightarrow> request \<Rightarrow> int \<Rightarrow> int \<Rightarrow> bytes option \<Rightarrow>
   (bytes list \<times> request) result option" where
  "hasher_loop hash_fn none_hash embeds_digest hash_block_size r start_tok cur_mm_idx prev =
     (let end_tok = start_tok + hash_block_size
      in if end_tok > num_tokens r then Some (Inr ([], r))
         else (case generate_block_hash_extra_keys embeds_digest r start_tok end_tok cur_mm_idx of
                 Inl e \<Rightarrow> Some (Inl e)
               | Inr (extra_keys, cur_mm_idx', r') \<Rightarrow>
                   let block_tokens = py_slice (all_token_ids r') start_tok end_tok;
                       block_hash = hash_block_tokens hash_fn none_hash prev block_tokens extra_keys
                   in Option.bind
                        (hasher_loop hash_fn none_hash embeds_digest hash_block_size r'
                           (start_tok + hash_block_size) cur_mm_idx' (Some block_hash))
                        (\<lambda>res. Some (bindE res (\<lambda>(hs, r''). Inr (block_hash # hs, r''))))))"

definition request_block_hasher ::
  "(hash_input \<Rightarrow> bytes) \<Rightarrow> bytes \<Rightarrow> (bytes list \<Rightarrow> bytes) \<Rightarrow> int \<Rightarrow> request \<Rightarrow>
   (bytes list \<times> request) result option" where
  "request_block_hasher hash_fn none_hash embeds_digest hash_block_size r =
     (let start_tok = int (length (block_hashes r)) * hash_block_size
      in if start_tok + hash_block_size > num_tokens r then Some (Inr ([], r))
         else hasher_loop hash_fn none_hash embeds_digest hash_block_size r start_tok
                (if start_tok > 0 then - 1 else 0)
                (if block_hashes r = [] then None else Some (last (block_hashes r))))"

section \<open>Coarser views of the block hashes\<close>

text \<open>A \<^verbatim>\<open>BlockHashList\<close> is a plain list or a view with a scale factor.\<close>

datatype block_hash_list = Raw "bytes list" | View "bytes list" int

definition block_hash_view :: "bytes list \<Rightarrow> int \<Rightarrow> int \<Rightarrow> block_hash_list result" where
  "block_hash_view hs hash_block_size target_block_size =
     (if target_block_size mod hash_block_size = 0
      then Inr (View hs (target_block_size div hash_block_size)) else Inl AssertionError)"

fun bhl_len :: "block_hash_list \<Rightarrow> int" where
  "bhl_len (Raw hs) = int (length hs)"
| "bhl_len (View hs scale) = int (length hs) div scale"

fun bhl_get :: "block_hash_list \<Rightarrow> int \<Rightarrow> bytes result" where
  "bhl_get (Raw hs) i = py_index hs i"
| "bhl_get (View hs scale) i = py_index hs ((i + 1) * scale - 1)"

text \<open>\<^verbatim>\<open>block_hashes[k:]\<close>; on a view the slice is read element by element.\<close>

fun bhl_from :: "block_hash_list \<Rightarrow> int \<Rightarrow> bytes list result" where
  "bhl_from (Raw hs) k = Inr (py_slice hs k (int (length hs)))"
| "bhl_from (View hs scale) k =
     (let n = nat (int (length hs) div scale)
      in mapE (\<lambda>i. bhl_get (View hs scale) (int i)) [py_clamp n k..<n])"

definition resolve_block_hashes ::
  "block_hash_list \<Rightarrow> int \<Rightarrow> int \<Rightarrow> bool \<Rightarrow> int option \<Rightarrow> block_hash_list result" where
  "resolve_block_hashes bhl hash_block_size block_size fine_grained alignment_tokens =
     (if block_size = hash_block_size then Inr bhl
      else (case bhl of
              View hs scale \<Rightarrow>
                if scale = block_size div hash_block_size then Inr bhl else Inl AssertionError
            | Raw hs \<Rightarrow>
                if fine_grained \<and>
                   (case alignment_tokens of
                      None \<Rightarrow> False | Some a \<Rightarrow> a < block_size \<and> block_size mod a = 0)
                then Inr bhl
                else if block_size mod hash_block_size = 0
                     then block_hash_view hs hash_block_size block_size
                     else Inl AssertionError))"

section \<open>Keys: packing and unpacking\<close>

lemma from_bytes_big_snoc: "from_bytes_big (bs @ [b]) = from_bytes_big bs * 256 + uint b"
  by (simp add: from_bytes_big_def)

lemma length_digits_big [simp]: "length (digits_big n x) = n"
  by (induction n arbitrary: x) auto

lemma from_digits_big: "from_bytes_big (digits_big n x) = x mod 256 ^ n"
proof (induction n arbitrary: x)
  case 0
  then show ?case by (simp add: from_bytes_big_def)
next
  case (Suc n)
  have "uint (word_of_int x :: 8 word) = x mod 256"
    by (simp add: uint_word_of_int)
  then have "from_bytes_big (digits_big (Suc n) x) = x div 256 mod 256 ^ n * 256 + x mod 256"
    using Suc by (simp add: from_bytes_big_snoc)
  also have "\<dots> = x mod (256 * 256 ^ n)"
    by (subst zmod_zmult2_eq) simp_all
  finally show ?case by simp
qed

lemma make_key_eq_Inr:
  "make_block_hash_with_group_id bh g = Inr key \<longleftrightarrow> 0 \<le> g \<and> g < 2 ^ 32 \<and> key = bh @ digits_big 4 g"
  by (auto simp: make_block_hash_with_group_id_def to_bytes_big_def)

lemma key_parts:
  assumes "make_block_hash_with_group_id bh g = Inr key"
  shows "get_block_hash key = bh" "get_group_id key = g"
  using assms by (auto simp: make_key_eq_Inr get_block_hash_def get_group_id_def from_digits_big)

section \<open>The hashes of a request as a function of its contents\<close>

text \<open>The keys of the multi-modal inputs that overlap \<^verbatim>\<open>[s, e)\<close>, without any running index.\<close>

definition mm_end :: "mm_feature \<Rightarrow> int" where
  "mm_end f = offset (mm_position f) + plength (mm_position f)"

definition mm_overlap_keys :: "mm_feature list \<Rightarrow> int \<Rightarrow> int \<Rightarrow> extra_key list" where
  "mm_overlap_keys fs s e =
     map (\<lambda>f. KMM (mm_identifier f) (offset (mm_position f) - s))
       (filter (\<lambda>f. offset (mm_position f) < e \<and> s < mm_end f) fs)"

definition mm_sorted :: "mm_feature list \<Rightarrow> bool" where
  "mm_sorted fs \<longleftrightarrow> sorted_wrt (\<lambda>f g. mm_end f \<le> offset (mm_position g)) fs \<and> (\<forall>f \<in> set fs. 0 \<le> plength (mm_position f))"

definition embeds_keys :: "(bytes list \<Rightarrow> bytes) \<Rightarrow> request \<Rightarrow> int \<Rightarrow> int \<Rightarrow> extra_key list" where
  "embeds_keys dg r s e =
     (case prompt_embeds r of None \<Rightarrow> [] | Some rows \<Rightarrow> [KBytes (dg (py_slice rows s e))])"

definition block_extra_keys :: "(bytes list \<Rightarrow> bytes) \<Rightarrow> request \<Rightarrow> int \<Rightarrow> int \<Rightarrow> extra_key list option" where
  "block_extra_keys dg r s e =
     (let ks = gen_lora_extra_hash_keys r @ mm_overlap_keys (mm_features r) s e @ cache_salt_keys r s @
                embeds_keys dg r s e
      in if ks = [] then None else Some ks)"

definition block_content ::
  "(bytes list \<Rightarrow> bytes) \<Rightarrow> int \<Rightarrow> request \<Rightarrow> nat \<Rightarrow> int list \<times> extra_key list option" where
  "block_content dg hbs r i =
     (py_slice (all_token_ids r) (int i * hbs) (int i * hbs + hbs),
      block_extra_keys dg r (int i * hbs) (int i * hbs + hbs))"

primrec chain_hashes ::
  "(hash_input \<Rightarrow> bytes) \<Rightarrow> bytes \<Rightarrow> bytes option \<Rightarrow> (int list \<times> extra_key list option) list \<Rightarrow> bytes list" where
  "chain_hashes hf nh p [] = []"
| "chain_hashes hf nh p (c # cs) =
     (let h = hash_block_tokens hf nh p (fst c) (snd c) in h # chain_hashes hf nh (Some h) cs)"

definition memo_ok :: "(bytes list \<Rightarrow> bytes) \<Rightarrow> request \<Rightarrow> bool" where
  "memo_ok dg r \<longleftrightarrow> (\<forall>s e h. prompt_embeds_per_block_hashes r (s, e) = Some h \<longrightarrow>
     (\<exists>rows. prompt_embeds r = Some rows \<and> h = dg (py_slice rows s e)))"

definition same_but_memo :: "request \<Rightarrow> request \<Rightarrow> bool" where
  "same_but_memo r r' \<longleftrightarrow>
     r'\<lparr>prompt_embeds_per_block_hashes := (\<lambda>_. None)\<rparr> = r\<lparr>prompt_embeds_per_block_hashes := (\<lambda>_. None)\<rparr>"

text \<open>The running index \<^verbatim>\<open>c\<close> is good at token \<^verbatim>\<open>s\<close>: it skips only inputs that end by \<^verbatim>\<open>s\<close>.\<close>

definition mm_idx_ok :: "mm_feature list \<Rightarrow> int \<Rightarrow> int \<Rightarrow> bool" where
  "mm_idx_ok fs c s \<longleftrightarrow> fs = [] \<or> mm_end (last fs) \<le> s \<or>
     (- c \<le> int (length fs) \<and>
      (\<forall>j < nat (if c < 0 then int (length fs) + c else c). j < length fs \<longrightarrow> mm_end (fs ! j) \<le> s))"

subsection \<open>Memoised embedding digests\<close>

lemma same_but_memo_refl [simp]: "same_but_memo r r"
  by (simp add: same_but_memo_def)

lemma same_but_memo_trans: "same_but_memo a b \<Longrightarrow> same_but_memo b c \<Longrightarrow> same_but_memo a c"
  by (simp add: same_but_memo_def)

lemma same_but_memo_fields:
  assumes "same_but_memo r r'"
  shows "all_token_ids r' = all_token_ids r" "block_hashes r' = block_hashes r"
    "mm_features r' = mm_features r" "prompt_embeds r' = prompt_embeds r"
    "lora_request r' = lora_request r" "cache_salt r' = cache_salt r"
    "output_token_ids r' = output_token_ids r" "num_computed_tokens r' = num_computed_tokens r"
  using assms by (cases r; cases r'; simp add: same_but_memo_def)+

lemma gen_prompt_embeds_memo:
  assumes "memo_ok dg r" and "gen_prompt_embeds_extra_hash_keys dg r s e = (ks, r')"
  shows "ks = embeds_keys dg r s e" "memo_ok dg r'" "same_but_memo r r'"
proof -
  have "ks = embeds_keys dg r s e \<and> memo_ok dg r' \<and> same_but_memo r r'"
  proof (cases "prompt_embeds r")
    case None
    then show ?thesis using assms by (simp add: gen_prompt_embeds_extra_hash_keys_def embeds_keys_def)
  next
    case (Some rows)
    show ?thesis
    proof (cases "prompt_embeds_per_block_hashes r (s, e)")
      case None
      then show ?thesis using assms Some
        by (auto simp: gen_prompt_embeds_extra_hash_keys_def embeds_keys_def memo_ok_def same_but_memo_def
            Let_def split: if_splits)
    next
      case (Some h)
      then have "h = dg (py_slice rows s e)" using assms(1) \<open>prompt_embeds r = Some rows\<close> by (auto simp: memo_ok_def)
      then show ?thesis using assms Some \<open>prompt_embeds r = Some rows\<close>
        by (auto simp: gen_prompt_embeds_extra_hash_keys_def embeds_keys_def)
    qed
  qed
  then show "ks = embeds_keys dg r s e" "memo_ok dg r'" "same_but_memo r r'" by simp_all
qed

subsection \<open>Multi-modal keys\<close>

declare gen_mm_loop.simps [simp del]

lemma mm_sorted_later:
  assumes "mm_sorted fs" and "i < k" and "k < length fs"
  shows "mm_end (fs ! i) \<le> offset (mm_position (fs ! k))"
  using assms sorted_wrt_nth_less [of "\<lambda>f g. mm_end f \<le> offset (mm_position g)" fs i k]
  by (simp add: mm_sorted_def)

lemma mm_sorted_offset_le_end: "mm_sorted fs \<Longrightarrow> i < length fs \<Longrightarrow> offset (mm_position (fs ! i)) \<le> mm_end (fs ! i)"
  by (auto simp: mm_sorted_def mm_end_def)

lemma mm_sorted_end_mono:
  assumes "mm_sorted fs" and "i \<le> k" and "k < length fs"
  shows "mm_end (fs ! i) \<le> mm_end (fs ! k)"
  using mm_sorted_later [of fs i k] mm_sorted_offset_le_end [of fs k] assms
  by (cases "i = k") auto

lemma mm_overlap_none:
  assumes "\<And>k. i \<le> k \<Longrightarrow> k < length fs \<Longrightarrow> e \<le> offset (mm_position (fs ! k)) \<or> mm_end (fs ! k) \<le> s"
  shows "mm_overlap_keys (drop i fs) s e = []"
proof -
  have "\<not> (offset (mm_position f) < e \<and> s < mm_end f)" if f: "f \<in> set (drop i fs)" for f
  proof -
    obtain k where k: "k < length (drop i fs)" "drop i fs ! k = f"
      using f unfolding in_set_conv_nth by blast
    then have "i + k < length fs" "fs ! (i + k) = f" by simp_all
    then show ?thesis using assms [of "i + k"] by (simp add: not_less)
  qed
  then show ?thesis by (simp add: mm_overlap_keys_def filter_empty_conv)
qed

lemma mm_overlap_step:
  assumes "i < length fs"
  shows "mm_overlap_keys (drop i fs) s e =
     (if offset (mm_position (fs ! i)) < e \<and> s < mm_end (fs ! i)
      then KMM (mm_identifier (fs ! i)) (offset (mm_position (fs ! i)) - s) # mm_overlap_keys (drop (Suc i) fs) s e
      else mm_overlap_keys (drop (Suc i) fs) s e)"
  unfolding Cons_nth_drop_Suc [OF assms, symmetric] by (simp add: mm_overlap_keys_def)

lemma mm_overlap_skip:
  assumes "\<And>j. j < i \<Longrightarrow> j < length fs \<Longrightarrow> mm_end (fs ! j) \<le> s"
  shows "mm_overlap_keys (drop i fs) s e = mm_overlap_keys fs s e"
  using assms
proof (induction i)
  case (Suc i)
  then have IH: "mm_overlap_keys (drop i fs) s e = mm_overlap_keys fs s e" by simp
  show ?case
  proof (cases "i < length fs")
    case True
    then show ?thesis using IH Suc.prems [of i] mm_overlap_step [OF True, of s e] by (simp split: if_splits)
  next
    case False
    then show ?thesis using IH by simp
  qed
qed simp

lemma gen_mm_loop_overlap:
  assumes "mm_sorted fs" and "\<And>k. k < i \<Longrightarrow> k < length fs \<Longrightarrow> mm_end (fs ! k) \<le> e" and "s \<le> e"
  shows "\<exists>j. gen_mm_loop fs s e i = (mm_overlap_keys (drop i fs) s e, j) \<and>
    (\<forall>k < j. k < length fs \<longrightarrow> mm_end (fs ! k) \<le> e)"
  using assms
proof (induction "length fs - i" arbitrary: i rule: less_induct)
  case less
  show ?case
  proof (cases "i < length fs")
    case False
    then show ?thesis using less.prems by (subst gen_mm_loop.simps) (simp add: mm_overlap_keys_def)
  next
    case True
    let ?o = "offset (mm_position (fs ! i))" and ?n = "mm_end (fs ! i)"
    have n: "?o + plength (mm_position (fs ! i)) = ?n" by (simp add: mm_end_def)
    have on: "?o \<le> ?n" using mm_sorted_offset_le_end less.prems(1) True by blast
    show ?thesis
    proof (cases "?o < e \<and> ?n \<le> e")
      case inside: True
      have "mm_end (fs ! k) \<le> e" if "k < Suc i" "k < length fs" for k
        using that less.prems(2) inside by (auto simp: less_Suc_eq)
      then obtain j where j: "gen_mm_loop fs s e (Suc i) = (mm_overlap_keys (drop (Suc i) fs) s e, j)"
        "\<forall>k < j. k < length fs \<longrightarrow> mm_end (fs ! k) \<le> e"
        using less.hyps [of "Suc i"] less.prems(1,3) diff_less_mono2 [OF lessI True] by blast
      then show ?thesis using True inside n mm_overlap_step [OF True, of s e]
        by (subst gen_mm_loop.simps) (auto simp: Let_def)
    next
      case False
      then have "e \<le> ?o \<or> e < ?n" by linarith
      then have "e \<le> offset (mm_position (fs ! k))" if "Suc i \<le> k" "k < length fs" for k
        using mm_sorted_later [OF less.prems(1), of i k] on that by linarith
      then have "mm_overlap_keys (drop (Suc i) fs) s e = []" by (intro mm_overlap_none disjI1)
      moreover have "\<not> s \<ge> ?n" if "e < ?n" using that less.prems(3) by linarith
      ultimately show ?thesis using True False n mm_overlap_step [OF True, of s e] less.prems(2)
        by (subst gen_mm_loop.simps) (auto simp: Let_def)
    qed
  qed
qed

lemma gen_mm_extra_keys_overlap:
  assumes "mm_sorted (mm_features r)" and "s \<le> e" and "mm_idx_ok (mm_features r) c s"
  shows "\<exists>c'. gen_mm_extra_hash_keys r s e c = Inr (mm_overlap_keys (mm_features r) s e, c') \<and>
    mm_idx_ok (mm_features r) c' e"
proof -
  let ?fs = "mm_features r"
  consider (none) "?fs = []" | (past) "?fs \<noteq> []" "mm_end (last ?fs) \<le> s"
    | (scan) "?fs \<noteq> []" "\<not> mm_end (last ?fs) \<le> s" by blast
  then show ?thesis
  proof cases
    case none
    then show ?thesis by (simp add: gen_mm_extra_hash_keys_def mm_overlap_keys_def mm_idx_ok_def)
  next
    case past
    have "mm_end (?fs ! k) \<le> s" if "k < length ?fs" for k
      using mm_sorted_end_mono [OF assms(1), of k "length ?fs - 1"] that past
      by (simp add: last_conv_nth Suc_leI le_diff_conv2)
    then have "mm_overlap_keys ?fs s e = []" using mm_overlap_none [of 0 ?fs e s] by simp
    then show ?thesis using past assms(2)
      by (auto simp: gen_mm_extra_hash_keys_def mm_idx_ok_def mm_end_def Let_def)
  next
    case scan
    define i where "i = nat (if c < 0 then int (length ?fs) + c else c)"
    have c: "- c \<le> int (length ?fs)" and i: "\<And>j. j < i \<Longrightarrow> j < length ?fs \<Longrightarrow> mm_end (?fs ! j) \<le> s"
      using assms(3) scan unfolding mm_idx_ok_def i_def by blast+
    obtain j where j: "gen_mm_loop ?fs s e i = (mm_overlap_keys (drop i ?fs) s e, j)"
      "\<forall>k < j. k < length ?fs \<longrightarrow> mm_end (?fs ! k) \<le> e"
      using gen_mm_loop_overlap [OF assms(1), of i e s] i assms(2) by (meson order_trans)
    then have "gen_mm_extra_hash_keys r s e c = Inr (mm_overlap_keys ?fs s e, int j)"
      using scan c mm_overlap_skip [of i ?fs s e] i
      by (simp add: gen_mm_extra_hash_keys_def Let_def mm_end_def i_def)
    moreover have "mm_idx_ok ?fs (int j) e" using j(2) by (simp add: mm_idx_ok_def)
    ultimately show ?thesis by blast
  qed
qed

lemma generate_extra_keys_spec:
  assumes "mm_sorted (mm_features r)" and "s \<le> e" and "mm_idx_ok (mm_features r) c s" and "memo_ok dg r"
  shows "\<exists>c' r'. generate_block_hash_extra_keys dg r s e c = Inr (block_extra_keys dg r s e, c', r') \<and>
    mm_idx_ok (mm_features r) c' e \<and> memo_ok dg r' \<and> same_but_memo r r'"
proof -
  obtain c' where c': "gen_mm_extra_hash_keys r s e c = Inr (mm_overlap_keys (mm_features r) s e, c')"
    "mm_idx_ok (mm_features r) c' e" using gen_mm_extra_keys_overlap assms(1-3) by blast
  obtain ks r' where g: "gen_prompt_embeds_extra_hash_keys dg r s e = (ks, r')" by force
  note gen_prompt_embeds_memo [OF assms(4) g]
  then show ?thesis using c' g
    by (simp add: generate_block_hash_extra_keys_def block_extra_keys_def Let_def)
qed

subsection \<open>The hasher computes the chain\<close>

lemma block_content_cong:
  assumes "all_token_ids r' = all_token_ids r" and "mm_features r' = mm_features r"
    and "prompt_embeds r' = prompt_embeds r" and "lora_request r' = lora_request r" and "cache_salt r' = cache_salt r"
  shows "block_content dg hbs r' = block_content dg hbs r"
  using assms by (intro ext) (simp add: block_content_def block_extra_keys_def embeds_keys_def
      gen_lora_extra_hash_keys_def cache_salt_keys_def)

lemma block_content_memo: "same_but_memo r r' \<Longrightarrow> block_content dg hbs r' = block_content dg hbs r"
  by (rule block_content_cong) (simp_all add: same_but_memo_fields)

lemma hasher_loop_chain:
  assumes "0 < hbs" and "mm_sorted (mm_features r)" and "memo_ok dg r"
    and "mm_idx_ok (mm_features r) c (int i * hbs)"
  shows "\<exists>r'. hasher_loop hf nh dg hbs r (int i * hbs) c p =
      Some (Inr (chain_hashes hf nh p (map (block_content dg hbs r) [i..<nat (num_tokens r div hbs)]), r')) \<and>
    memo_ok dg r' \<and> same_but_memo r r'"
  using assms(2-)
proof (induction "nat (num_tokens r div hbs) - i" arbitrary: i r c p)
  case 0
  then have "\<not> int i + 1 \<le> num_tokens r div hbs" by simp
  then have "int i * hbs + hbs > num_tokens r" using assms(1) by (simp add: le_div_iff algebra_simps)
  then show ?case using 0 by (subst hasher_loop.simps) simp
next
  case (Suc m)
  let ?s = "int i * hbs" and ?e = "int i * hbs + hbs"
  have i: "i < nat (num_tokens r div hbs)" using Suc.hyps(2) by simp
  then have "int i + 1 \<le> num_tokens r div hbs" by simp
  then have more: "\<not> ?e > num_tokens r" using assms(1) by (simp add: le_div_iff algebra_simps)
  obtain c' r' where g: "generate_block_hash_extra_keys dg r ?s ?e c = Inr (block_extra_keys dg r ?s ?e, c', r')"
    "mm_idx_ok (mm_features r) c' ?e" "memo_ok dg r'" "same_but_memo r r'"
    using generate_extra_keys_spec [of r ?s ?e c dg] Suc.prems assms(1) by auto
  let ?h = "hash_block_tokens hf nh p (py_slice (all_token_ids r) ?s ?e) (block_extra_keys dg r ?s ?e)"
  have step: "int (Suc i) * hbs = ?e" by (simp add: algebra_simps)
  have "m = nat (num_tokens r' div hbs) - Suc i"
    using Suc.hyps(2) g(4) by (simp add: same_but_memo_fields)
  then obtain r'' where "hasher_loop hf nh dg hbs r' ?e c' (Some ?h) =
      Some (Inr (chain_hashes hf nh (Some ?h)
        (map (block_content dg hbs r') [Suc i..<nat (num_tokens r' div hbs)]), r''))"
    "memo_ok dg r''" "same_but_memo r' r''"
    using Suc.hyps(1) [of r' "Suc i" c' "Some ?h"] g(2-4) Suc.prems(1) unfolding step
    by (auto simp: same_but_memo_fields)
  then show ?case using g more i
    by (subst hasher_loop.simps, subst upt_conv_Cons)
      (auto simp: same_but_memo_fields block_content_memo Let_def block_content_def intro: same_but_memo_trans)
qed

lemma length_chain_hashes [simp]: "length (chain_hashes hf nh p cs) = length cs"
  by (induction cs arbitrary: p) (simp_all add: Let_def)

lemma chain_hashes_append:
  "chain_hashes hf nh p (xs @ ys) = chain_hashes hf nh p xs @
     chain_hashes hf nh (if xs = [] then p else Some (last (chain_hashes hf nh p xs))) ys"
proof (induction xs arbitrary: p)
  case (Cons x xs)
  have "chain_hashes hf nh q xs \<noteq> [] \<longleftrightarrow> xs \<noteq> []" for q
    by (metis length_0_conv length_chain_hashes)
  then show ?case using Cons by (simp add: Let_def)
qed simp

text \<open>The contents of all full blocks, and the invariant that the stored hashes are the chain over the
  first blocks.\<close>

definition full_contents ::
  "(bytes list \<Rightarrow> bytes) \<Rightarrow> int \<Rightarrow> request \<Rightarrow> (int list \<times> extra_key list option) list" where
  "full_contents dg hbs r = map (block_content dg hbs r) [0..<nat (num_tokens r div hbs)]"

definition hashes_prefix ::
  "(hash_input \<Rightarrow> bytes) \<Rightarrow> bytes \<Rightarrow> (bytes list \<Rightarrow> bytes) \<Rightarrow> int \<Rightarrow> request \<Rightarrow> bool" where
  "hashes_prefix hf nh dg hbs r \<longleftrightarrow>
     length (block_hashes r) \<le> nat (num_tokens r div hbs) \<and>
     block_hashes r = chain_hashes hf nh None (map (block_content dg hbs r) [0..<length (block_hashes r)])"

definition hashes_current ::
  "(hash_input \<Rightarrow> bytes) \<Rightarrow> bytes \<Rightarrow> (bytes list \<Rightarrow> bytes) \<Rightarrow> int \<Rightarrow> request \<Rightarrow> bool" where
  "hashes_current hf nh dg hbs r \<longleftrightarrow> block_hashes r = chain_hashes hf nh None (full_contents dg hbs r)"

text \<open>All multi-modal inputs but the last end before the first block that is not hashed yet.\<close>

definition mm_tail_ok :: "int \<Rightarrow> request \<Rightarrow> bool" where
  "mm_tail_ok hbs r \<longleftrightarrow> block_hashes r = [] \<or> mm_features r = [] \<or>
     (\<forall>f \<in> set (butlast (mm_features r)). mm_end f \<le> int (length (block_hashes r)) * hbs)"

lemma mm_tail_idx_ok:
  assumes "0 < hbs" and "mm_tail_ok hbs r"
  shows "mm_idx_ok (mm_features r) (if int (length (block_hashes r)) * hbs > 0 then - 1 else 0)
    (int (length (block_hashes r)) * hbs)"
proof (cases "block_hashes r = [] \<or> mm_features r = []")
  case False
  then have all: "mm_end f \<le> int (length (block_hashes r)) * hbs" if "f \<in> set (butlast (mm_features r))" for f
    using assms(2) that by (auto simp: mm_tail_ok_def)
  have "mm_end (mm_features r ! j) \<le> int (length (block_hashes r)) * hbs" if j: "j < length (mm_features r) - 1" for j
    using all [of "butlast (mm_features r) ! j"] nth_mem [of j "butlast (mm_features r)"] j by (simp add: nth_butlast)
  moreover have "Suc 0 \<le> length (mm_features r)" "0 < length (block_hashes r)"
    using False by (simp_all add: Suc_le_eq)
  ultimately show ?thesis using assms(1) by (auto simp: mm_idx_ok_def nat_diff_distrib)
qed (auto simp: mm_idx_ok_def)

lemma request_block_hasher_chain:
  assumes "0 < hbs" and "mm_sorted (mm_features r)" and "memo_ok dg r"
    and "hashes_prefix hf nh dg hbs r" and "mm_tail_ok hbs r"
  shows "\<exists>r' hs. request_block_hasher hf nh dg hbs r = Some (Inr (hs, r')) \<and>
    block_hashes r @ hs = chain_hashes hf nh None (full_contents dg hbs r) \<and>
    memo_ok dg r' \<and> same_but_memo r r'"
proof -
  define k where "k = length (block_hashes r)"
  let ?n = "nat (num_tokens r div hbs)"
  have pre: "k \<le> ?n" "block_hashes r = chain_hashes hf nh None (map (block_content dg hbs r) [0..<k])"
    using assms(4) by (simp_all add: hashes_prefix_def k_def)
  have split: "[0..<?n] = [0..<k] @ [k..<?n]" using pre(1) upt_add_eq_append [of 0 k "?n - k"] by simp
  show ?thesis
  proof (cases "int k * hbs + hbs > num_tokens r")
    case True
    then have "\<not> int k + 1 \<le> num_tokens r div hbs" using assms(1) by (simp add: le_div_iff algebra_simps)
    then have "?n = k" using pre(1) by simp
    then show ?thesis using True pre(2) assms(3)
      by (simp add: request_block_hasher_def full_contents_def Let_def flip: k_def)
  next
    case False
    let ?c = "if int k * hbs > 0 then - 1 else 0 :: int"
    let ?p = "if k = 0 then None else Some (last (block_hashes r))"
    have "mm_idx_ok (mm_features r) ?c (int k * hbs)"
      using mm_tail_idx_ok [OF assms(1,5)] by (simp add: k_def)
    then obtain r' where r': "hasher_loop hf nh dg hbs r (int k * hbs) ?c ?p =
        Some (Inr (chain_hashes hf nh ?p (map (block_content dg hbs r) [k..<?n]), r'))"
      "memo_ok dg r'" "same_but_memo r r'"
      using hasher_loop_chain [OF assms(1-3)] by blast
    have "block_hashes r @ chain_hashes hf nh ?p (map (block_content dg hbs r) [k..<?n]) =
        chain_hashes hf nh None (full_contents dg hbs r)"
      unfolding full_contents_def split map_append chain_hashes_append by (simp add: pre(2) [symmetric])
    moreover have "request_block_hasher hf nh dg hbs r =
        hasher_loop hf nh dg hbs r (int k * hbs) ?c ?p"
      using False by (simp add: request_block_hasher_def Let_def k_def)
    ultimately show ?thesis using r' by auto
  qed
qed

lemma block_content_append:
  assumes "0 < hbs" and "i < nat (num_tokens r div hbs)"
    and "all_token_ids r' = all_token_ids r @ ts" and "mm_features r' = mm_features r"
    and "prompt_embeds r' = prompt_embeds r" and "lora_request r' = lora_request r" and "cache_salt r' = cache_salt r"
  shows "block_content dg hbs r' i = block_content dg hbs r i"
proof -
  have "int i + 1 \<le> num_tokens r div hbs" using assms(2) by simp
  then have "int i * hbs + hbs \<le> num_tokens r" using assms(1) by (simp add: le_div_iff algebra_simps)
  then have "py_slice (all_token_ids r') (int i * hbs) (int i * hbs + hbs) =
      py_slice (all_token_ids r) (int i * hbs) (int i * hbs + hbs)"
    using assms(1,3) by (simp add: py_slice_nonneg)
  then show ?thesis using assms(4-)
    by (simp add: block_content_def block_extra_keys_def embeds_keys_def gen_lora_extra_hash_keys_def
        cache_salt_keys_def)
qed

lemma chain_hashes_nth_step:
  assumes "i < length cs"
  shows "chain_hashes hf nh p cs ! i =
    hash_block_tokens hf nh (if i = 0 then p else Some (chain_hashes hf nh p cs ! (i - 1))) (fst (cs ! i)) (snd (cs ! i))"
  using assms
proof (induction cs arbitrary: i p)
  case (Cons c cs)
  then show ?case by (cases i; cases "i - 1") (auto simp: Let_def)
qed simp

lemma hash_block_tokens_nonempty:
  "(\<And>x. hf x \<noteq> []) \<Longrightarrow> hash_block_tokens hf nh p t e \<noteq> []"
  by (simp add: hash_block_tokens_def Let_def)

text \<open>Equal chained hashes come from equal prefixes, unless the hash function collides.\<close>

lemma chain_hashes_inj:
  assumes ne: "\<And>x. hf x \<noteq> []" and nh: "nh = hf (HSeed seed)" and inj: "\<And>x y. hf x = hf y \<Longrightarrow> x = y"
    and "i < length cs" and "j < length ds"
    and "chain_hashes hf nh None cs ! i = chain_hashes hf nh None ds ! j"
  shows "i = j \<and> take (Suc i) cs = take (Suc j) ds"
  using assms(4-)
proof (induction i arbitrary: j)
  case 0
  let ?d = "chain_hashes hf nh None ds"
  have "j = 0"
  proof (rule ccontr)
    assume "j \<noteq> 0"
    then have "?d ! (j - 1) \<noteq> []"
      using chain_hashes_nth_step [of "j - 1" ds hf nh None] 0 hash_block_tokens_nonempty [of hf, OF ne] by auto
    then show False using 0 chain_hashes_nth_step [of 0 cs hf nh None] chain_hashes_nth_step [of j ds hf nh None]
        chain_hashes_nth_step [of "j - 1" ds hf nh None] \<open>j \<noteq> 0\<close>
      by (auto simp: hash_block_tokens_def Let_def nh dest!: inj split: option.splits if_splits)
  qed
  then show ?case using 0 chain_hashes_nth_step [of 0 cs hf nh None] chain_hashes_nth_step [of 0 ds hf nh None]
    by (auto simp: hash_block_tokens_def take_Suc_conv_app_nth dest!: inj intro: prod_eqI)
next
  case (Suc i)
  let ?c = "chain_hashes hf nh None cs" and ?d = "chain_hashes hf nh None ds"
  have ci: "?c ! i \<noteq> []" using chain_hashes_nth_step [of i cs hf nh None] Suc.prems hash_block_tokens_nonempty [of hf, OF ne] by simp
  have "j \<noteq> 0"
  proof
    assume "j = 0"
    then show False using Suc.prems ci chain_hashes_nth_step [of "Suc i" cs hf nh None] chain_hashes_nth_step [of j ds hf nh None]
        chain_hashes_nth_step [of i cs hf nh None]
      by (auto simp: hash_block_tokens_def Let_def nh dest!: inj split: option.splits if_splits)
  qed
  then obtain j' where j: "j = Suc j'" by (cases j) auto
  have dj: "?d ! j' \<noteq> []" using chain_hashes_nth_step [of j' ds hf nh None] Suc.prems j hash_block_tokens_nonempty [of hf, OF ne] by simp
  have "?c ! i = ?d ! j' \<and> cs ! Suc i = ds ! Suc j'"
    using Suc.prems j ci dj chain_hashes_nth_step [of "Suc i" cs hf nh None] chain_hashes_nth_step [of "Suc j'" ds hf nh None]
    by (auto simp: hash_block_tokens_def dest!: inj intro: prod_eqI)
  then show ?case using Suc.IH [of j'] Suc.prems j by (auto simp: take_Suc_conv_app_nth [of "Suc _"])
qed

lemma append_request_hasher:
  assumes "0 < hbs" and "mm_sorted (mm_features r)" and "memo_ok dg r"
    and "hashes_prefix hf nh dg hbs r" and "mm_tail_ok hbs r"
  shows "\<exists>r'. append_output_token_ids (Some (request_block_hasher hf nh dg hbs)) ts r = Some (Inr r') \<and>
    hashes_current hf nh dg hbs r' \<and> memo_ok dg r' \<and> all_token_ids r' = all_token_ids r @ ts \<and>
    output_token_ids r' = output_token_ids r @ ts \<and> num_computed_tokens r' = num_computed_tokens r"
proof -
  let ?r = "r\<lparr>output_token_ids := output_token_ids r @ ts, all_token_ids := all_token_ids r @ ts\<rparr>"
  have pre: "hashes_prefix hf nh dg hbs ?r"
  proof -
    have "nat (num_tokens r div hbs) \<le> nat (num_tokens ?r div hbs)"
      using assms(1) by (simp add: nat_mono zdiv_mono1)
    moreover have "map (block_content dg hbs ?r) [0..<length (block_hashes r)] =
        map (block_content dg hbs r) [0..<length (block_hashes r)]"
      using assms(4) by (intro map_cong refl block_content_append [OF assms(1)]) (auto simp: hashes_prefix_def)
    ultimately show ?thesis using assms(4) by (simp add: hashes_prefix_def del: map_eq_conv)
  qed
  have "mm_sorted (mm_features ?r)" "memo_ok dg ?r" "mm_tail_ok hbs ?r"
    using assms by (simp_all add: memo_ok_def mm_tail_ok_def)
  then obtain r' hs where h: "request_block_hasher hf nh dg hbs ?r = Some (Inr (hs, r'))"
    "block_hashes ?r @ hs = chain_hashes hf nh None (full_contents dg hbs ?r)" "memo_ok dg r'" "same_but_memo ?r r'"
    using request_block_hasher_chain [OF assms(1) _ _ pre] by blast
  have "full_contents dg hbs (r'\<lparr>block_hashes := hs'\<rparr>) = full_contents dg hbs ?r" for hs'
    using block_content_cong [of "r'\<lparr>block_hashes := hs'\<rparr>" ?r] same_but_memo_fields [OF h(4)]
    by (simp add: full_contents_def)
  then show ?thesis using h same_but_memo_fields [OF h(4)]
    by (simp add: append_output_token_ids_def update_block_hashes_def hashes_current_def memo_ok_def)
qed

lemma hashes_current_prefix: "hashes_current hf nh dg hbs r \<Longrightarrow> hashes_prefix hf nh dg hbs r"
  by (simp add: hashes_current_def hashes_prefix_def full_contents_def)

section \<open>Properties\<close>

text \<open>C15: packing a block hash with a group id loses nothing: for every group id of 32 bits the key
  unpacks to the same hash and group id, and for any other group id the packing raises
  \<^verbatim>\<open>OverflowError\<close>.\<close>

theorem block_hash_key_round_trip:
  "if 0 \<le> g \<and> g < 2 ^ 32
   then \<exists>key. make_block_hash_with_group_id bh g = Inr key \<and> get_block_hash key = bh \<and> get_group_id key = g
   else make_block_hash_with_group_id bh g = Inl OverflowError"
proof (cases "0 \<le> g \<and> g < 2 ^ 32")
  case True
  then have "make_block_hash_with_group_id bh g = Inr (bh @ digits_big 4 g)" by (simp add: make_key_eq_Inr)
  then show ?thesis using True key_parts by (simp add: exI) 
next
  case False
  then show ?thesis by (auto simp: make_block_hash_with_group_id_def to_bytes_big_def)
qed


definition demo_hash :: "hash_input \<Rightarrow> bytes" where
  "demo_hash x = (case x of HSeed s \<Rightarrow> [0] | HBlock p ts ks \<Rightarrow> 1 # p @ map word_of_int ts)"


text \<open>C14: a new request starts with the hashes of all full blocks of its prompt.  If the constructor's
  checks pass, it returns (the hasher ends), and the stored hashes are the chain over the prompt's full
  blocks.\<close>

theorem request_init_hashes_current:
  assumes "request_init_fields msk args = Inr r0" and "0 < hbs" and "mm_sorted (mm_features args)"
  shows "\<exists>r. request_init (Some (request_block_hasher hf nh dg hbs)) msk args = Some (Inr r) \<and>
    hashes_current hf nh dg hbs r \<and> memo_ok dg r \<and> all_token_ids r = all_token_ids r0 \<and>
    num_computed_tokens r = 0 \<and> output_token_ids r = []"
proof -
  have r0: "mm_features r0 = mm_features args" "memo_ok dg r0" "block_hashes r0 = []"
    "num_computed_tokens r0 = 0" "output_token_ids r0 = []"
    using assms(1) by (auto simp: request_init_fields_def result_simps memo_ok_def)
  then have "hashes_prefix hf nh dg hbs r0" "mm_tail_ok hbs r0"
    using assms(2) by (simp_all add: hashes_prefix_def mm_tail_ok_def pos_imp_zdiv_nonneg_iff)
  then obtain r where r: "append_output_token_ids (Some (request_block_hasher hf nh dg hbs)) [] r0 = Some (Inr r)"
    "hashes_current hf nh dg hbs r" "memo_ok dg r" "all_token_ids r = all_token_ids r0"
    "output_token_ids r = output_token_ids r0" "num_computed_tokens r = num_computed_tokens r0"
    using append_request_hasher [of hbs r0 dg hf nh "[]"] assms(2,3) r0 by auto
  then have u: "update_block_hashes (Some (request_block_hasher hf nh dg hbs)) r0 = Some (Inr r)"
    by (simp add: append_output_token_ids_def)
  let ?r = "r\<lparr>skip_reading_prefix_cache := get_skip_reading_prefix_cache r\<rparr>"
  have "request_init (Some (request_block_hasher hf nh dg hbs)) msk args = Some (Inr ?r)"
    using assms(1) u by (simp add: request_init_def)
  then show ?thesis using r r0 block_content_cong [of ?r r]
    by (simp add: hashes_current_def full_contents_def memo_ok_def)
qed

theorem request_init_hashes_current_witness:
  "\<exists>r. request_init (Some (request_block_hasher demo_hash [0] concat 2)) None (plain_request ''a'' [1, 2, 3]) =
      Some (Inr r) \<and>
    hashes_current demo_hash [0] concat 2 r \<and> memo_ok concat r \<and>
    all_token_ids r = all_token_ids (plain_request ''a'' [1, 2, 3]) \<and>
    num_computed_tokens r = 0 \<and> output_token_ids r = []"
  using request_init_hashes_current [of None "plain_request ''a'' [1, 2, 3]" "plain_request ''a'' [1, 2, 3]" 2
      demo_hash "[0]" concat]
  by (simp add: plain_request_def mm_sorted_def request_init_fields_def init_max_tokens_status_def
      length_from_prompt_token_ids_or_embeds_def init_all_token_ids_def)



text \<open>C16: a coarser view of the block hashes reads the hash of the matching token prefix.  Entry \<^verbatim>\<open>i\<close> of the
  view at \<^verbatim>\<open>m * hbs\<close> tokens per block is the hash of the first \<^verbatim>\<open>(i + 1) * m\<close> small blocks, the view has
  one entry per full large block, and slicing it from \<^verbatim>\<open>k\<close> gives the entries from \<^verbatim>\<open>k\<close> on.\<close>

theorem block_hash_view_reads_prefix_hash:
  assumes "0 < hbs" and "1 < m" and "hs = chain_hashes hf nh None cs" and "i < length cs div m" and "k \<le> length cs div m"
  shows "resolve_block_hashes (Raw hs) hbs (int m * hbs) False None = Inr (View hs (int m)) \<and>
    bhl_len (View hs (int m)) = int (length cs div m) \<and>
    bhl_get (View hs (int m)) (int i) = Inr (last (chain_hashes hf nh None (take (Suc i * m) cs))) \<and>
    bhl_from (View hs (int m)) (int k) =
      Inr (map (\<lambda>j. last (chain_hashes hf nh None (take (Suc j * m) cs))) [k..<length cs div m])"
proof -
  have get: "bhl_get (View hs (int m)) (int j) = Inr (last (chain_hashes hf nh None (take (Suc j * m) cs)))"
    if "j < length cs div m" for j
  proof -
    have "Suc j * m \<le> length cs div m * m" using that by (intro mult_le_mono1) simp
    then have "Suc j * m \<le> length cs" using div_times_less_eq_dividend order_trans by blast
    then have t: "take (Suc j * m) hs = chain_hashes hf nh None (take (Suc j * m) cs)" "Suc j * m \<le> length hs"
      using chain_hashes_append [of hf nh None "take (Suc j * m) cs" "drop (Suc j * m) cs"] assms(3)
      by (simp_all add: min_absorb2)
    define n where "n = Suc j * m - 1"
    have n: "Suc j * m = Suc n" "n < length hs" using assms(2) t(2) by (simp_all add: n_def)
    have "(int j + 1) * int m = int (Suc j * m)" by (simp add: algebra_simps)
    then have "(int j + 1) * int m - 1 = int n" unfolding n(1) by simp
    then have "bhl_get (View hs (int m)) (int j) = Inr (hs ! n)" using n(2) by simp
    moreover have "last (take (Suc n) hs) = hs ! n" using n(2) by (simp add: take_Suc_conv_app_nth)
    ultimately show ?thesis using t(1) unfolding n(1) by metis
  qed
  have "bhl_from (View hs (int m)) (int k) =
      Inr (map (\<lambda>j. last (chain_hashes hf nh None (take (Suc j * m) cs))) [k..<length cs div m])"
    using assms(3,5) get by (auto simp: Let_def py_clamp_def min_absorb1 zdiv_int [symmetric] intro!: mapE_Inr simp del: bhl_get.simps)
  then show ?thesis using get [OF assms(4)] assms(1-3)
    by (simp add: resolve_block_hashes_def block_hash_view_def zdiv_int)
qed

theorem block_hash_view_reads_prefix_hash_witness:
  "resolve_block_hashes (Raw [[7], [8], [9], [10]]) 16 (int 2 * 16) False None = Inr (View [[7], [8], [9], [10]] (int 2)) \<and>
   bhl_get (View [[7], [8], [9], [10]] (int 2)) (int 1) = Inr [10]"
  using block_hash_view_reads_prefix_hash [of 16 2 "[[7], [8], [9], [10]]"
      "\<lambda>x. case x of HSeed _ \<Rightarrow> [] | HBlock _ ts _ \<Rightarrow> map word_of_int ts" "[]" "[([7], None), ([8], None), ([9], None), ([10], None)]" 1 0]
  by (simp add: hash_block_tokens_def)



text \<open>A prompt of six tokens whose last two positions are the images \<^verbatim>\<open>a\<close> and \<^verbatim>\<open>b\<close>, hashed in blocks of four;
  the second block is completed by generated tokens.\<close>

definition two_image_request :: "string \<Rightarrow> request" where
  "two_image_request a =
     (plain_request ''r'' [1, 2, 3, 4, 0, 0])\<lparr>
       mm_features := [\<lparr>mm_identifier = a, mm_position = \<lparr>offset = 4, plength = 1, is_embed = None\<rparr>\<rparr>,
                       \<lparr>mm_identifier = ''b'', mm_position = \<lparr>offset = 5, plength = 1, is_embed = None\<rparr>\<rparr>]\<rparr>"

definition hashed_after_output :: "(hash_input \<Rightarrow> bytes) \<Rightarrow> bytes \<Rightarrow> request \<Rightarrow> bytes list result option" where
  "hashed_after_output hf nh args =
     Option.bind (request_init (Some (request_block_hasher hf nh concat 4)) None args) (\<lambda>res.
       case res of
         Inl e \<Rightarrow> Some (Inl e)
       | Inr r \<Rightarrow> Option.bind (append_output_token_ids (Some (request_block_hasher hf nh concat 4)) [7, 8] r)
                   (\<lambda>res'. Some (bindE res' (\<lambda>r'. Inr (block_hashes r')))))"


end
