(* ===== verification/Block_Pool.thy ===== *)
theory Block_Pool
  imports Free_Queue Block_Map Block_Hash
begin

text \<open>
  \<^verbatim>\<open>BlockPool\<close> and \<^verbatim>\<open>BlockPoolCollection\<close> of \<^verbatim>\<open>vllm/v1/core/block_pool.py\<close>.

  A block is named by its address in the store of the free queue, which for the blocks of the pool is the
  block id.  The set of extra hashes of a block (\<^verbatim>\<open>cached_block_hashes_by_block\<close>) is a list without
  repetition.  Left out are the metrics collector, which only writes its own statistics, log messages and
  the floating-point usage ratio.  \<^verbatim>\<open>use_int_hashes\<close> is the environment switch
  \<^verbatim>\<open>VLLM_KV_EVENTS_USE_INT_BLOCK_HASHES\<close>, and \<^verbatim>\<open>embeds_digest\<close> is the digest of Block\_Hash.

  The invariant \<^verbatim>\<open>pool_rep p xs\<close> ties the parts together: the free list \<^verbatim>\<open>xs\<close> holds exactly the blocks with
  reference count zero, and a key leads to a block exactly when it is one of that block's hashes.
\<close>

section \<open>State\<close>

record block_stored =
  bs_block_hashes :: "external_hash list"
  bs_parent_block_hash :: "external_hash option"
  bs_token_ids :: "int list"
  bs_block_size :: int
  bs_lora_id :: "int option"
  bs_lora_name :: "string option"
  bs_extra_keys :: "extra_key list option list option"
  bs_group_idx :: int

datatype kv_event =
    BlockStored block_stored
  | BlockRemoved "external_hash list" int
  | AllBlocksCleared

record block_pool =
  num_gpu_blocks :: nat
  enable_caching :: bool
  hash_block_size :: int
  pool_pool_id :: int
  free_block_queue :: free_queue
  cached_block_hash_to_block :: block_map
  cached_block_hashes_by_block :: "nat \<Rightarrow> bytes list option"
  null_block :: nat
  enable_kv_cache_events :: bool
  use_int_hashes :: bool
  kv_event_queue :: "kv_event list"

abbreviation blk :: "block_pool \<Rightarrow> nat \<Rightarrow> kv_cache_block" where
  "blk p b \<equiv> heap (free_block_queue p) b"

definition upd_blk :: "nat \<Rightarrow> (kv_cache_block \<Rightarrow> kv_cache_block) \<Rightarrow> block_pool \<Rightarrow> block_pool" where
  "upd_blk b f p =
     p\<lparr>free_block_queue := (free_block_queue p)\<lparr>heap := (heap (free_block_queue p))(b := f (blk p b))\<rparr>\<rparr>"

definition get_num_free_blocks :: "block_pool \<Rightarrow> int" where
  "get_num_free_blocks p = num_free_blocks (free_block_queue p)"

section \<open>Construction and lookup\<close>

definition block_pool_init :: "int \<Rightarrow> bool \<Rightarrow> int \<Rightarrow> bool \<Rightarrow> int \<Rightarrow> bool \<Rightarrow> block_pool result" where
  "block_pool_init n caching hbs events pid use_int =
     (if \<not> n > 0 then Inl AssertionError
      else (let m = nat n;
                q = free_queue_init (\<lambda>a. new_block (int a) pid) [0..<m] m (Suc m)
            in bindE (popleft q) (\<lambda>(nb, q').
                 Inr (upd_blk nb (\<lambda>b. b\<lparr>is_null := True\<rparr>)
                   \<lparr>num_gpu_blocks = m, enable_caching = caching, hash_block_size = hbs,
                    pool_pool_id = pid, free_block_queue = q',
                    cached_block_hash_to_block = bm_empty,
                    cached_block_hashes_by_block = (\<lambda>_. None), null_block = nb,
                    enable_kv_cache_events = events, use_int_hashes = use_int, kv_event_queue = []\<rparr>))))"

primrec get_cached_block :: "block_pool \<Rightarrow> bytes \<Rightarrow> int list \<Rightarrow> nat list option result" where
  "get_cached_block p bh [] = Inr (Some [])"
| "get_cached_block p bh (g # gs) =
     bindE (make_block_hash_with_group_id bh g) (\<lambda>key.
     bindE (get_one_block (cached_block_hash_to_block p) key) (\<lambda>ob.
       case ob of
         None \<Rightarrow> Inr None
       | Some b \<Rightarrow> bindE (get_cached_block p bh gs) (\<lambda>r. Inr (map_option ((#) b) r))))"

section \<open>Hashes of a block\<close>

text \<open>The loop that pops every hash of a block from the index and collects the ones that were there.\<close>

primrec pop_hashes :: "bytes list \<Rightarrow> nat \<Rightarrow> block_map \<Rightarrow> bytes list \<times> block_map" where
  "pop_hashes [] b m = ([], m)"
| "pop_hashes (h # hs) b m =
     (let (r, m') = bm_pop m h b; (rs, m'') = pop_hashes hs b m'
      in (if r \<noteq> None then h # rs else rs, m''))"

definition all_block_hashes :: "block_pool \<Rightarrow> nat \<Rightarrow> bytes list" where
  "all_block_hashes p b =
     (case block_hash (blk p b) of None \<Rightarrow> [] | Some h \<Rightarrow> [h]) @
     (case cached_block_hashes_by_block p b of None \<Rightarrow> [] | Some hs \<Rightarrow> hs)"

definition remove_cached_block_hashes :: "nat \<Rightarrow> block_pool \<Rightarrow> bytes list \<times> block_pool" where
  "remove_cached_block_hashes b p =
     (let hs = all_block_hashes p b;
          p1 = p\<lparr>cached_block_hashes_by_block := (cached_block_hashes_by_block p)(b := None)\<rparr>
      in if hs = [] then ([], p1)
         else (let (removed, m) = pop_hashes hs b (cached_block_hash_to_block p1)
               in (removed, upd_blk b reset_hash (p1\<lparr>cached_block_hash_to_block := m\<rparr>))))"

definition emit_block_removed_events :: "bytes list \<Rightarrow> block_pool \<Rightarrow> block_pool" where
  "emit_block_removed_events hs p =
     (if \<not> enable_kv_cache_events p then p
      else p\<lparr>kv_event_queue := kv_event_queue p @
             map (\<lambda>h. BlockRemoved [maybe_convert_block_hash (use_int_hashes p) (get_block_hash h)] (get_group_id h)) hs\<rparr>)"

definition insert_block_hash :: "bytes \<Rightarrow> nat \<Rightarrow> int option \<Rightarrow> block_pool \<Rightarrow> block_pool result" where
  "insert_block_hash key b num_toks p =
     (if block_hash (blk p b) = Some key then Inr p
      else if bm_contain (cached_block_hash_to_block p) key b then Inr p
      else bindE (if block_hash (blk p b) = None
                  then bindE (set_block_hash key num_toks (blk p b)) (\<lambda>nb. Inr (upd_blk b (\<lambda>_. nb) p))
                  else Inr (let hs = (case cached_block_hashes_by_block p b of None \<Rightarrow> [] | Some hs \<Rightarrow> hs)
                            in p\<lparr>cached_block_hashes_by_block := (cached_block_hashes_by_block p)
                                 (b \<mapsto> (if key \<in> set hs then hs else hs @ [key]))\<rparr>))
             (\<lambda>p'. Inr (p'\<lparr>cached_block_hash_to_block := bm_insert (cached_block_hash_to_block p') key b\<rparr>)))"

definition move_block_hashes :: "nat \<Rightarrow> nat \<Rightarrow> block_pool \<Rightarrow> block_pool result" where
  "move_block_hashes src dst p =
     (if block_hash (blk p dst) \<noteq> None then Inl AssertionError
      else if cached_block_hashes_by_block p dst \<noteq> None then Inl AssertionError
      else (let n = block_hash_num_tokens (blk p src); (removed, p') = remove_cached_block_hashes src p
            in foldE (\<lambda>h. insert_block_hash h dst n) removed p'))"

definition maybe_evict_cached_block :: "nat \<Rightarrow> block_pool \<Rightarrow> bool \<times> block_pool" where
  "maybe_evict_cached_block b p =
     (let (evicted, p') = remove_cached_block_hashes b p
      in if evicted = [] then (False, p') else (True, emit_block_removed_events evicted p'))"

section \<open>Caching full blocks\<close>

definition build_block_stored_event ::
  "request \<Rightarrow> external_hash list \<Rightarrow> external_hash option \<Rightarrow> int \<Rightarrow> int \<Rightarrow> int \<Rightarrow> int \<Rightarrow>
   extra_key list option list \<Rightarrow> kv_event" where
  "build_block_stored_event r hs parent start_tok end_tok block_size gid extra_keys_list =
     BlockStored
       \<lparr>bs_block_hashes = hs, bs_parent_block_hash = parent,
        bs_token_ids = py_slice (all_token_ids r) start_tok end_tok, bs_block_size = block_size,
        bs_lora_id = map_option lora_int_id (lora_request r),
        bs_lora_name = map_option lora_name (lora_request r),
        bs_extra_keys = (if extra_keys_list = [] then None else Some extra_keys_list),
        bs_group_idx = gid\<rparr>"

definition masked_out :: "bool list option \<Rightarrow> nat \<Rightarrow> bool" where
  "masked_out block_mask i \<longleftrightarrow> (case block_mask of None \<Rightarrow> False | Some m \<Rightarrow> \<not> m ! i)"

text \<open>The body of the first loop of \<^verbatim>\<open>cache_full_blocks\<close>, for block \<^verbatim>\<open>b\<close> at index \<^verbatim>\<open>i\<close>.\<close>

definition cache_full_block ::
  "bytes list \<Rightarrow> int \<Rightarrow> int \<Rightarrow> int \<Rightarrow> bool list option \<Rightarrow> nat \<times> nat \<Rightarrow>
   external_hash list \<times> block_pool \<Rightarrow> (external_hash list \<times> block_pool) result" where
  "cache_full_block new_block_hashes num_cached block_size gid block_mask ib s =
     (let (i, b) = ib; (new_hashes, p) = s
      in if is_null (blk p b) \<or> masked_out block_mask i then Inr s
         else
           bindE (py_index new_block_hashes (int i)) (\<lambda>bh.
           let num_hash_tokens = (num_cached + int i + 1) * block_size in
           bindE (make_block_hash_with_group_id bh gid) (\<lambda>key.
           bindE (if block_hash (blk p b) \<noteq> None
                  then (case block_hash_num_tokens (blk p b) of
                          None \<Rightarrow> Inl AssertionError
                        | Some t \<Rightarrow>
                            if t < num_hash_tokens
                            then (let (removed, p') = remove_cached_block_hashes b p
                                  in Inr (emit_block_removed_events removed p'))
                            else Inl AssertionError)
                  else Inr p) (\<lambda>p1.
           bindE (insert_block_hash key b (Some num_hash_tokens) p1) (\<lambda>p2.
             Inr (if enable_kv_cache_events p then new_hashes @ [maybe_convert_block_hash (use_int_hashes p) bh]
                  else new_hashes, p2))))))"

text \<open>The body of the second loop, which collects the extra keys of the stored blocks.\<close>

definition collect_extra_keys ::
  "(bytes list \<Rightarrow> bytes) \<Rightarrow> block_pool \<Rightarrow> nat list \<Rightarrow> int \<Rightarrow> int \<Rightarrow> bool list option \<Rightarrow> nat \<Rightarrow>
   extra_key list option list \<times> int \<times> request \<Rightarrow> (extra_key list option list \<times> int \<times> request) result" where
  "collect_extra_keys embeds_digest p blocks num_cached block_size block_mask k s =
     (let (keys, cur_mm_idx, r) = s; i = num_cached + int k
      in bindE (py_index blocks i) (\<lambda>b.
         if is_null (blk p b) then Inr s
         else if masked_out block_mask k then Inr s
         else bindE (generate_block_hash_extra_keys embeds_digest r (i * block_size) (i * block_size + block_size) cur_mm_idx)
                (\<lambda>(ek, cur_mm_idx', r'). Inr (keys @ [ek], cur_mm_idx', r'))))"

definition cache_full_blocks_event ::
  "(bytes list \<Rightarrow> bytes) \<Rightarrow> request \<Rightarrow> nat list \<Rightarrow> int \<Rightarrow> int \<Rightarrow> int \<Rightarrow> int \<Rightarrow> bool list option \<Rightarrow>
   block_hash_list \<Rightarrow> external_hash list \<Rightarrow> block_pool \<Rightarrow> (request \<times> block_pool) result" where
  "cache_full_blocks_event embeds_digest r blocks num_cached num_full block_size gid block_mask bhl new_hashes p =
     (if \<not> enable_kv_cache_events p then Inr (r, p)
      else
        bindE (if num_cached = 0 then Inr None
               else bindE (bhl_get bhl (num_cached - 1)) (\<lambda>h.
                      Inr (Some (maybe_convert_block_hash (use_int_hashes p) h)))) (\<lambda>parent.
        bindE (foldE (collect_extra_keys embeds_digest p blocks num_cached block_size block_mask)
                 [0..<nat (num_full - num_cached)] ([], 0, r)) (\<lambda>(keys, _, r').
          Inr (r', p\<lparr>kv_event_queue := kv_event_queue p @
            [build_block_stored_event r' new_hashes parent (num_cached * block_size) (num_full * block_size)
               block_size gid keys]\<rparr>))))"

definition cache_full_blocks ::
  "(bytes list \<Rightarrow> bytes) \<Rightarrow> request \<Rightarrow> nat list \<Rightarrow> int \<Rightarrow> int \<Rightarrow> int \<Rightarrow> int \<Rightarrow> bool list option \<Rightarrow>
   block_pool \<Rightarrow> (request \<times> block_pool) result" where
  "cache_full_blocks embeds_digest r blocks num_cached num_full block_size gid block_mask p =
     (if num_cached \<ge> num_full then Inr (r, p)
      else
        (let new_full_blocks = py_slice blocks num_cached num_full
         in if (case block_mask of None \<Rightarrow> False | Some m \<Rightarrow> length m \<noteq> length new_full_blocks)
            then Inl AssertionError
            else
              bindE (resolve_block_hashes (Raw (block_hashes r)) (hash_block_size p) block_size False None) (\<lambda>bhl.
              bindE (bhl_from bhl num_cached) (\<lambda>new_block_hashes.
              bindE (foldE (cache_full_block new_block_hashes num_cached block_size gid block_mask)
                       (enumerate 0 new_full_blocks) ([], p)) (\<lambda>(new_hashes, p').
                cache_full_blocks_event embeds_digest r blocks num_cached num_full block_size gid block_mask
                  bhl new_hashes p')))))"

definition emit_cached_block_events ::
  "(bytes list \<Rightarrow> bytes) \<Rightarrow> request \<Rightarrow> nat \<Rightarrow> int \<Rightarrow> int \<Rightarrow> block_pool \<Rightarrow> (request \<times> block_pool) result" where
  "emit_cached_block_events embeds_digest r num_cached block_size gid p =
     (if \<not> enable_kv_cache_events p \<or> num_cached = 0 then Inr (r, p)
      else
        bindE (resolve_block_hashes (Raw (block_hashes r)) (hash_block_size p) block_size False None) (\<lambda>bhl.
        bindE (foldE (\<lambda>i (hs, keys, cur_mm_idx, r).
                 bindE (bhl_get bhl (int i)) (\<lambda>h.
                 bindE (generate_block_hash_extra_keys embeds_digest r (int i * block_size)
                          (int i * block_size + block_size) cur_mm_idx) (\<lambda>(ek, cur_mm_idx', r').
                   Inr (hs @ [maybe_convert_block_hash (use_int_hashes p) h], keys @ [ek], cur_mm_idx', r'))))
               [0..<num_cached] ([], [], 0, r)) (\<lambda>(hs, keys, _, r').
          Inr (r', p\<lparr>kv_event_queue := kv_event_queue p @
            [build_block_stored_event r' hs None 0 (int num_cached * block_size) block_size gid keys]\<rparr>))))"

section \<open>Partial blocks\<close>

definition get_partial_block_hash :: "request \<Rightarrow> int \<Rightarrow> block_pool \<Rightarrow> bytes result" where
  "get_partial_block_hash r num_toks p =
     (if num_toks mod hash_block_size p \<noteq> 0 then Inl AssertionError
      else (let n = num_toks div hash_block_size p
            in if 0 < n \<and> n \<le> int (length (block_hashes r)) then py_index (block_hashes r) (n - 1)
               else Inl AssertionError))"

definition get_partial_block_parent_hash_and_start :: "request \<Rightarrow> int \<Rightarrow> block_pool \<Rightarrow> (bytes option \<times> int) result" where
  "get_partial_block_parent_hash_and_start r num_toks p =
     (let n = num_toks div hash_block_size p
      in bindE (if n > 1 then bindE (py_index (block_hashes r) (n - 2)) (\<lambda>h. Inr (Some h)) else Inr None)
           (\<lambda>parent. Inr (parent, (n - 1) * hash_block_size p)))"

definition cache_partial_block_event ::
  "(bytes list \<Rightarrow> bytes) \<Rightarrow> request \<Rightarrow> bytes \<Rightarrow> int \<Rightarrow> int \<Rightarrow> block_pool \<Rightarrow> (request \<times> block_pool) result" where
  "cache_partial_block_event embeds_digest r bh num_toks gid p =
     bindE (get_partial_block_parent_hash_and_start r num_toks p) (\<lambda>(parent, block_start).
     bindE (generate_block_hash_extra_keys embeds_digest r block_start num_toks (if block_start > 0 then - 1 else 0))
       (\<lambda>(ek, _, r').
       Inr (r', p\<lparr>kv_event_queue := kv_event_queue p @
         [BlockStored
            \<lparr>bs_block_hashes = [maybe_convert_block_hash (use_int_hashes p) bh],
             bs_parent_block_hash = map_option (maybe_convert_block_hash (use_int_hashes p)) parent,
             bs_token_ids = py_slice (all_token_ids r') block_start num_toks,
             bs_block_size = num_toks - block_start,
             bs_lora_id = map_option lora_int_id (lora_request r'),
             bs_lora_name = map_option lora_name (lora_request r'),
             bs_extra_keys = Some [ek], bs_group_idx = gid\<rparr>]\<rparr>)))"

definition partial_already_cached :: "bytes \<Rightarrow> nat \<Rightarrow> block_pool \<Rightarrow> bool" where
  "partial_already_cached key b p \<longleftrightarrow>
     block_hash (blk p b) = Some key \<or> bm_contain (cached_block_hash_to_block p) key b"

text \<open>A hash that covers fewer tokens than the new partial entry is replaced by it.\<close>

definition drop_shorter_hashes :: "bytes \<Rightarrow> nat \<Rightarrow> int \<Rightarrow> block_pool \<Rightarrow> block_pool" where
  "drop_shorter_hashes key b covered p =
     (if \<not> partial_already_cached key b p \<and> block_hash (blk p b) \<noteq> None \<and>
         (case block_hash_num_tokens (blk p b) of None \<Rightarrow> False | Some t \<Rightarrow> t < covered)
      then (let (removed, p') = remove_cached_block_hashes b p in emit_block_removed_events removed p')
      else p)"

definition cache_partial_block ::
  "(bytes list \<Rightarrow> bytes) \<Rightarrow> request \<Rightarrow> nat \<Rightarrow> int \<Rightarrow> int \<Rightarrow> int \<Rightarrow> block_pool \<Rightarrow>
   (bytes option \<times> request \<times> block_pool) result" where
  "cache_partial_block embeds_digest r b num_toks gid block_size p =
     (if is_null (blk p b) then Inr (None, r, p)
      else if \<not> block_size > hash_block_size p then Inl AssertionError
      else if block_size mod hash_block_size p \<noteq> 0 then Inl AssertionError
      else if num_toks mod block_size = 0 then Inl AssertionError
      else
        bindE (get_partial_block_hash r num_toks p) (\<lambda>bh.
        let covered = num_toks div hash_block_size p * hash_block_size p in
        bindE (make_block_hash_with_group_id bh gid) (\<lambda>key.
        bindE (insert_block_hash key b (Some covered) (drop_shorter_hashes key b covered p)) (\<lambda>p2.
        if enable_kv_cache_events p2 \<and> \<not> partial_already_cached key b p
        then bindE (cache_partial_block_event embeds_digest r bh num_toks gid p2) (\<lambda>(r', p3). Inr (Some key, r', p3))
        else Inr (Some key, r, p2)))))"

section \<open>Allocation and release\<close>

text \<open>The body of the loop of \<^verbatim>\<open>get_new_blocks\<close> over the popped blocks.\<close>

definition take_new_block :: "nat \<Rightarrow> block_pool \<Rightarrow> block_pool result" where
  "take_new_block b p =
     (let p1 = (if enable_caching p then snd (maybe_evict_cached_block b p) else p)
      in if ref_cnt (blk p1 b) = 0 then Inr (upd_blk b (\<lambda>k. k\<lparr>ref_cnt := ref_cnt k + 1\<rparr>) p1)
         else Inl AssertionError)"

definition get_new_blocks :: "int \<Rightarrow> block_pool \<Rightarrow> (nat list \<times> block_pool) result" where
  "get_new_blocks num_blocks p =
     (if num_blocks > get_num_free_blocks p then Inl ValueError
      else bindE (popleft_n num_blocks (free_block_queue p)) (\<lambda>(ret, q).
           bindE (foldE take_new_block ret (p\<lparr>free_block_queue := q\<rparr>)) (\<lambda>p'. Inr (ret, p'))))"

definition touch_block :: "nat \<Rightarrow> block_pool \<Rightarrow> block_pool result" where
  "touch_block b p =
     bindE (if ref_cnt (blk p b) = 0 \<and> \<not> is_null (blk p b)
            then bindE (fq_remove b (free_block_queue p)) (\<lambda>q. Inr (p\<lparr>free_block_queue := q\<rparr>))
            else Inr p) (\<lambda>p1. Inr (upd_blk b (\<lambda>k. k\<lparr>ref_cnt := ref_cnt k + 1\<rparr>) p1))"

definition touch :: "nat list \<Rightarrow> block_pool \<Rightarrow> block_pool result" where
  "touch blocks p = foldE touch_block blocks p"

definition is_block_writable :: "nat \<Rightarrow> block_pool \<Rightarrow> bool" where
  "is_block_writable b p \<longleftrightarrow> \<not> is_null (blk p b) \<and> ref_cnt (blk p b) = 1 \<and> block_hash (blk p b) = None"

text \<open>The loop of \<^verbatim>\<open>free_blocks\<close>: it returns the blocks to evict first, those to evict last, and the pool.\<close>

primrec free_loop :: "nat list \<Rightarrow> block_pool \<Rightarrow> nat list \<times> nat list \<times> block_pool" where
  "free_loop [] p = ([], [], p)"
| "free_loop (b # bs) p =
     (let p1 = upd_blk b (\<lambda>k. k\<lparr>ref_cnt := ref_cnt k - 1\<rparr>) p;
          (evict_first, evict_last, p2) = free_loop bs p1
      in if ref_cnt (blk p1 b) = 0 \<and> \<not> is_null (blk p1 b)
         then (if block_hash (blk p1 b) = None \<or> \<not> enable_caching p1
               then (b # evict_first, evict_last, p2)
               else (evict_first, b # evict_last, p2))
         else (evict_first, evict_last, p2))"

definition free_blocks :: "nat list \<Rightarrow> block_pool \<Rightarrow> block_pool result" where
  "free_blocks ordered_blocks p =
     (let (evict_first, evict_last, p1) = free_loop ordered_blocks p
      in bindE (prepend_n evict_first (free_block_queue p1)) (\<lambda>q1.
         bindE (append_n evict_last q1) (\<lambda>q2. Inr (p1\<lparr>free_block_queue := q2\<rparr>))))"

definition evict_blocks :: "int list \<Rightarrow> block_pool \<Rightarrow> block_pool result" where
  "evict_blocks ids p =
     foldE (\<lambda>i p. if \<not> i < int (num_gpu_blocks p) then Inl AssertionError
                   else bindE (py_index [0..<num_gpu_blocks p] i) (\<lambda>b. Inr (snd (maybe_evict_cached_block b p))))
       ids p"

definition reset_prefix_cache :: "block_pool \<Rightarrow> bool \<times> block_pool" where
  "reset_prefix_cache p =
     (if int (num_gpu_blocks p) - get_num_free_blocks p \<noteq> 1 then (False, p)
      else (let p1 = p\<lparr>cached_block_hash_to_block := bm_empty, cached_block_hashes_by_block := (\<lambda>_. None)\<rparr>;
                p2 = fold (\<lambda>b. upd_blk b reset_hash) [0..<num_gpu_blocks p] p1
            in (True, if enable_kv_cache_events p2
                      then p2\<lparr>kv_event_queue := kv_event_queue p2 @ [AllBlocksCleared]\<rparr> else p2)))"

definition take_events :: "block_pool \<Rightarrow> kv_event list \<times> block_pool" where
  "take_events p =
     (if \<not> enable_kv_cache_events p then ([], p)
      else (kv_event_queue p, p\<lparr>kv_event_queue := []\<rparr>))"

section \<open>Several pools\<close>

text \<open>\<^verbatim>\<open>BlockPoolCollection\<close>: a block reference carries the index of its pool.\<close>

type_synonym pool_block = "nat \<times> nat"

definition block_pool_collection :: "block_pool list \<Rightarrow> block_pool list result" where
  "block_pool_collection pools =
     (if pools = [] then Inl AssertionError
      else if \<forall>p \<in> set pools. num_gpu_blocks p = num_gpu_blocks (hd pools) then Inr pools
      else Inl AssertionError)"

definition collection_num_free_blocks :: "block_pool list \<Rightarrow> int" where
  "collection_num_free_blocks pools = Min (set (map get_num_free_blocks pools))"

definition by_pool :: "block_pool list \<Rightarrow> pool_block list \<Rightarrow> nat list list result" where
  "by_pool pools refs =
     (if \<forall>r \<in> set refs. fst r < length pools
      then Inr (map (\<lambda>i. map snd (filter (\<lambda>r. fst r = i) refs)) [0..<length pools])
      else Inl IndexError)"

definition for_pools :: "(nat list \<Rightarrow> block_pool \<Rightarrow> block_pool result) \<Rightarrow> pool_block list \<Rightarrow> block_pool list \<Rightarrow> block_pool list result" where
  "for_pools f refs pools =
     bindE (by_pool pools refs) (\<lambda>parts.
       mapE (\<lambda>(p, bs). if bs \<noteq> [] then f bs p else Inr p) (zip pools parts))"

definition collection_touch :: "pool_block list \<Rightarrow> block_pool list \<Rightarrow> block_pool list result" where
  "collection_touch = for_pools touch"

definition collection_free_blocks :: "pool_block list \<Rightarrow> block_pool list \<Rightarrow> block_pool list result" where
  "collection_free_blocks = for_pools free_blocks"

definition collection_evict_blocks :: "int list \<Rightarrow> block_pool list \<Rightarrow> block_pool list result" where
  "collection_evict_blocks ids pools = mapE (evict_blocks ids) pools"

text \<open>\<^verbatim>\<open>all(...)\<close> stops at the first pool whose reset fails.\<close>

primrec reset_all :: "block_pool list \<Rightarrow> bool \<times> block_pool list" where
  "reset_all [] = (True, [])"
| "reset_all (p # ps) =
     (let (ok, p') = reset_prefix_cache p
      in if ok then (let (oks, ps') = reset_all ps in (oks, p' # ps')) else (False, p' # ps))"

definition collection_reset_prefix_cache :: "block_pool list \<Rightarrow> bool \<times> block_pool list" where
  "collection_reset_prefix_cache pools =
     (if \<exists>p \<in> set pools. get_num_free_blocks p \<noteq> int (num_gpu_blocks p) - 1 then (False, pools)
      else reset_all pools)"

definition collection_take_events :: "block_pool list \<Rightarrow> kv_event list \<times> block_pool list" where
  "collection_take_events pools = (concat (map (fst \<circ> take_events) pools), map (snd \<circ> take_events) pools)"

section \<open>The invariant\<close>

definition pool_shape :: "block_pool \<Rightarrow> bool" where
  "pool_shape p \<longleftrightarrow>
     0 < num_gpu_blocks p \<and> null_block p = 0 \<and>
     fake_free_list_head (free_block_queue p) = num_gpu_blocks p \<and>
     fake_free_list_tail (free_block_queue p) = Suc (num_gpu_blocks p) \<and>
     (\<forall>b < num_gpu_blocks p. block_id (blk p b) = int b \<and> (is_null (blk p b) \<longleftrightarrow> b = 0))"

definition hash_ok :: "block_pool \<Rightarrow> bool" where
  "hash_ok p \<longleftrightarrow>
     bm_ok (cached_block_hash_to_block p) \<and>
     (\<forall>key b. b \<in> set (bm_ids (cached_block_hash_to_block p) key) \<longleftrightarrow>
        b < num_gpu_blocks p \<and> key \<in> set (all_block_hashes p b)) \<and>
     (\<forall>b < num_gpu_blocks p. distinct (all_block_hashes p b) \<and>
        (block_hash (blk p b) = None \<longrightarrow>
           cached_block_hashes_by_block p b = None \<and> block_hash_num_tokens (blk p b) = None)) \<and>
     all_block_hashes p 0 = []"

definition refs_ok :: "block_pool \<Rightarrow> nat list \<Rightarrow> bool" where
  "refs_ok p xs \<longleftrightarrow>
     set xs = {b. 0 < b \<and> b < num_gpu_blocks p \<and> ref_cnt (blk p b) = 0} \<and>
     (\<forall>b. 0 < b \<and> b < num_gpu_blocks p \<longrightarrow> 0 \<le> ref_cnt (blk p b))"

definition pool_core :: "block_pool \<Rightarrow> nat list \<Rightarrow> bool" where
  "pool_core p xs \<longleftrightarrow> fq_rep (free_block_queue p) xs \<and> pool_shape p \<and> hash_ok p"

definition pool_rep :: "block_pool \<Rightarrow> nat list \<Rightarrow> bool" where
  "pool_rep p xs \<longleftrightarrow> pool_core p xs \<and> refs_ok p xs"

text \<open>What every operation keeps: the configuration and the identity of the blocks.\<close>

definition pool_same :: "block_pool \<Rightarrow> block_pool \<Rightarrow> bool" where
  "pool_same p p' \<longleftrightarrow>
     num_gpu_blocks p' = num_gpu_blocks p \<and> enable_caching p' = enable_caching p \<and>
     hash_block_size p' = hash_block_size p \<and> pool_pool_id p' = pool_pool_id p \<and> null_block p' = null_block p \<and>
     enable_kv_cache_events p' = enable_kv_cache_events p \<and> use_int_hashes p' = use_int_hashes p \<and>
     fake_free_list_head (free_block_queue p') = fake_free_list_head (free_block_queue p) \<and>
     fake_free_list_tail (free_block_queue p') = fake_free_list_tail (free_block_queue p) \<and>
     (\<forall>b. block_id (blk p' b) = block_id (blk p b) \<and> is_null (blk p' b) = is_null (blk p b) \<and>
          pool_id (blk p' b) = pool_id (blk p b))"

lemma pool_same_refl [simp]: "pool_same p p"
  by (simp add: pool_same_def)

lemma pool_same_trans [trans]: "pool_same p q \<Longrightarrow> pool_same q r \<Longrightarrow> pool_same p r"
  by (simp add: pool_same_def)

lemma pool_same_shape: "pool_same p p' \<Longrightarrow> pool_shape p \<Longrightarrow> pool_shape p'"
  by (simp add: pool_same_def pool_shape_def)

lemma pool_same_n: "pool_same p p' \<Longrightarrow> num_gpu_blocks p' = num_gpu_blocks p"
  by (simp add: pool_same_def)

section \<open>Basic facts\<close>

lemma upd_blk_simps [simp]:
  "blk (upd_blk b f p) c = (if c = b then f (blk p b) else blk p c)"
  "num_gpu_blocks (upd_blk b f p) = num_gpu_blocks p"
  "enable_caching (upd_blk b f p) = enable_caching p"
  "hash_block_size (upd_blk b f p) = hash_block_size p"
  "pool_pool_id (upd_blk b f p) = pool_pool_id p"
  "cached_block_hash_to_block (upd_blk b f p) = cached_block_hash_to_block p"
  "cached_block_hashes_by_block (upd_blk b f p) = cached_block_hashes_by_block p"
  "null_block (upd_blk b f p) = null_block p"
  "enable_kv_cache_events (upd_blk b f p) = enable_kv_cache_events p"
  "use_int_hashes (upd_blk b f p) = use_int_hashes p"
  "fake_free_list_head (free_block_queue (upd_blk b f p)) = fake_free_list_head (free_block_queue p)"
  "fake_free_list_tail (free_block_queue (upd_blk b f p)) = fake_free_list_tail (free_block_queue p)"
  "num_free_blocks (free_block_queue (upd_blk b f p)) = num_free_blocks (free_block_queue p)"
  by (simp_all add: upd_blk_def)

lemma fq_rep_links:
  assumes "\<And>a. prev_free_block (heap q' a) = prev_free_block (heap q a)"
    and "\<And>a. next_free_block (heap q' a) = next_free_block (heap q a)"
    and "fake_free_list_head q' = fake_free_list_head q" and "fake_free_list_tail q' = fake_free_list_tail q"
    and "num_free_blocks q' = num_free_blocks q"
  shows "fq_rep q' xs = fq_rep q xs"
  using assms linked_cong [of _ "heap q'" "heap q"] by (simp add: fq_rep_def)

lemma fq_rep_upd_blk:
  assumes "prev_free_block (f (blk p b)) = prev_free_block (blk p b)"
    and "next_free_block (f (blk p b)) = next_free_block (blk p b)"
  shows "fq_rep (free_block_queue (upd_blk b f p)) xs = fq_rep (free_block_queue p) xs"
  using assms by (intro fq_rep_links) simp_all

lemma payload_fields:
  assumes "payload k = payload k'"
  shows "block_id k = block_id k'" "ref_cnt k = ref_cnt k'" "block_hash k = block_hash k'"
    "block_hash_num_tokens k = block_hash_num_tokens k'" "is_null k = is_null k'" "pool_id k = pool_id k'"
  using assms by (cases k; cases k'; simp add: payload_def)+

text \<open>Replacing the queue by one with the same frame keeps everything but the free list.\<close>

lemma queue_swap:
  assumes "fq_frame q = fq_frame (free_block_queue p)"
  shows "pool_same p (p\<lparr>free_block_queue := q\<rparr>)"
    "ref_cnt (heap q b) = ref_cnt (blk p b)" "block_hash (heap q b) = block_hash (blk p b)"
    "all_block_hashes (p\<lparr>free_block_queue := q\<rparr>) b = all_block_hashes p b"
    "hash_ok (p\<lparr>free_block_queue := q\<rparr>) = hash_ok p" "is_null (heap q b) = is_null (blk p b)"
proof -
  have f: "fake_free_list_head q = fake_free_list_head (free_block_queue p)"
    "fake_free_list_tail q = fake_free_list_tail (free_block_queue p)"
    "payload (heap q c) = payload (blk p c)" for c
    using assms by (auto simp: fq_frame_def dest: fun_cong)
  note pf = payload_fields [OF f(3)]
  show "pool_same p (p\<lparr>free_block_queue := q\<rparr>)" using f(1,2) pf by (simp add: pool_same_def)
  show "ref_cnt (heap q b) = ref_cnt (blk p b)" "block_hash (heap q b) = block_hash (blk p b)"
    "is_null (heap q b) = is_null (blk p b)"
    using pf by simp_all
  have a: "all_block_hashes (p\<lparr>free_block_queue := q\<rparr>) c = all_block_hashes p c" for c
    using pf(3) by (simp add: all_block_hashes_def)
  show "all_block_hashes (p\<lparr>free_block_queue := q\<rparr>) b = all_block_hashes p b" by (rule a)
  show "hash_ok (p\<lparr>free_block_queue := q\<rparr>) = hash_ok p" using a pf(3,4) by (simp add: hash_ok_def)
qed

lemma pool_rep_free_count: "pool_rep p xs \<Longrightarrow> get_num_free_blocks p = int (length xs)"
  by (simp add: pool_rep_def pool_core_def fq_rep_def get_num_free_blocks_def)

lemma pool_rep_real:
  "pool_core p xs \<Longrightarrow> 0 < b \<Longrightarrow> b < num_gpu_blocks p \<Longrightarrow> fq_real (fq_frame (free_block_queue p)) b"
  by (simp add: pool_core_def pool_shape_def fq_real_def fq_frame_def)

section \<open>Hash bookkeeping\<close>

lemma pop_hashes_spec:
  assumes "bm_ok m" and "distinct hs"
  shows "fst (pop_hashes hs b m) = filter (\<lambda>h. b \<in> set (bm_ids m h)) hs \<and>
    bm_ok (snd (pop_hashes hs b m)) \<and>
    (\<forall>k. bm_ids (snd (pop_hashes hs b m)) k = (if k \<in> set hs then remove1 b (bm_ids m k) else bm_ids m k))"
  using assms
proof (induction hs arbitrary: m)
  case (Cons h hs)
  obtain r m' where pop: "bm_pop m h b = (r, m')" by force
  have m': "bm_ok m'" "r \<noteq> None \<longleftrightarrow> b \<in> set (bm_ids m h)"
    "bm_ids m' k = (if k = h then remove1 b (bm_ids m h) else bm_ids m k)" for k
    using bm.del_ok [of m h b] bm.del_res [of m h b] bm.del_ids [of m h b] Cons.prems(1) pop by auto
  obtain rs m'' where rest: "pop_hashes hs b m' = (rs, m'')" by force
  have "filter (\<lambda>h. b \<in> set (bm_ids m' h)) hs = filter (\<lambda>h. b \<in> set (bm_ids m h)) hs"
    using Cons.prems(2) m'(3) by (intro filter_cong) auto
  then show ?case
    using Cons.IH [OF m'(1)] Cons.prems(2) m'(2,3) pop rest by (auto simp: Let_def)
qed simp

lemma remove_hashes_spec:
  assumes ok: "hash_ok p" and b: "b < num_gpu_blocks p" and rm: "remove_cached_block_hashes b p = (removed, p')"
  shows "removed = all_block_hashes p b" and "hash_ok p'" and "pool_same p p'"
    and "all_block_hashes p' c = (if c = b then [] else all_block_hashes p c)"
    and "ref_cnt (blk p' c) = ref_cnt (blk p c)"
    and "fq_rep (free_block_queue p') xs = fq_rep (free_block_queue p) xs"
    and "block_hash (blk p' b) = None"
    and "c \<noteq> b \<Longrightarrow> blk p' c = blk p c"
    and "bm_ids (cached_block_hash_to_block p') k = filter (\<lambda>c. c \<noteq> b) (bm_ids (cached_block_hash_to_block p) k)"
proof -
  let ?hs = "all_block_hashes p b" and ?m = "cached_block_hash_to_block p"
  have m: "bm_ok ?m" and d: "distinct ?hs"
    and mem: "\<And>key c. c \<in> set (bm_ids ?m key) \<longleftrightarrow> c < num_gpu_blocks p \<and> key \<in> set (all_block_hashes p c)"
    and none: "\<And>c. c < num_gpu_blocks p \<Longrightarrow> block_hash (blk p c) = None \<Longrightarrow>
      cached_block_hashes_by_block p c = None \<and> block_hash_num_tokens (blk p c) = None"
    using ok b by (auto simp: hash_ok_def)
  note P = pop_hashes_spec [OF m d, of b]
  have "filter (\<lambda>h. b \<in> set (bm_ids ?m h)) ?hs = ?hs" using mem b by (auto intro!: filter_True)
  then have rem: "removed = ?hs" using rm P by (auto simp: remove_cached_block_hashes_def Let_def split: prod.splits if_splits)
  have p': "p' = (if ?hs = [] then p\<lparr>cached_block_hashes_by_block := (cached_block_hashes_by_block p)(b := None)\<rparr>
     else upd_blk b reset_hash (p\<lparr>cached_block_hashes_by_block := (cached_block_hashes_by_block p)(b := None),
       cached_block_hash_to_block := snd (pop_hashes ?hs b ?m)\<rparr>))"
    using rm by (auto simp: remove_cached_block_hashes_def Let_def split: prod.splits if_splits)
  have h0: "block_hash (blk p b) = None" if "?hs = []"
    using that by (auto simp: all_block_hashes_def split: option.splits)
  show same: "pool_same p p'" unfolding p' by (simp add: pool_same_def reset_hash_def)
  show ref: "ref_cnt (blk p' c) = ref_cnt (blk p c)" for c unfolding p' by (simp add: reset_hash_def)
  show hs: "all_block_hashes p' c = (if c = b then [] else all_block_hashes p c)" for c
    using h0 unfolding p' by (auto simp: all_block_hashes_def reset_hash_def)
  show "fq_rep (free_block_queue p') xs = fq_rep (free_block_queue p) xs"
    unfolding p' by (simp add: fq_rep_upd_blk reset_hash_def) 
  show bh: "block_hash (blk p' b) = None" using h0 unfolding p' by (simp add: reset_hash_def)
  show oth: "c \<noteq> b \<Longrightarrow> blk p' c = blk p c" for c unfolding p' by simp
  have "remove1 b (bm_ids ?m k) = filter (\<lambda>c. c \<noteq> b) (bm_ids ?m k)" for k
    using bm_ids_distinct [OF m] by (auto simp: distinct_remove1_removeAll removeAll_filter_not_eq intro: filter_cong)
  moreover have "filter (\<lambda>c. c \<noteq> b) (bm_ids ?m k) = bm_ids ?m k" if "k \<notin> set ?hs" for k
    using that mem by (auto intro!: filter_True)
  ultimately show ids: "bm_ids (cached_block_hash_to_block p') k = filter (\<lambda>c. c \<noteq> b) (bm_ids ?m k)" for k
    using P unfolding p' by simp
  have "bm_ok (cached_block_hash_to_block p')" using P m unfolding p' by simp
  moreover have "cached_block_hashes_by_block p' c = None \<and> block_hash_num_tokens (blk p' c) = None"
    if "c < num_gpu_blocks p" "block_hash (blk p' c) = None" for c
    using none [OF that(1)] that(2) h0 b unfolding p' by (auto simp: reset_hash_def split: if_splits)
  ultimately show "hash_ok p'"
    using ok ids mem same hs by (auto simp: hash_ok_def pool_same_n)
  show "removed = ?hs" by (rule rem)
qed

lemma emit_removed_simps [simp]:
  "free_block_queue (emit_block_removed_events hs p) = free_block_queue p"
  "cached_block_hash_to_block (emit_block_removed_events hs p) = cached_block_hash_to_block p"
  "cached_block_hashes_by_block (emit_block_removed_events hs p) = cached_block_hashes_by_block p"
  "num_gpu_blocks (emit_block_removed_events hs p) = num_gpu_blocks p"
  "all_block_hashes (emit_block_removed_events hs p) = all_block_hashes p"
  "hash_ok (emit_block_removed_events hs p) = hash_ok p"
  "pool_same q (emit_block_removed_events hs p) = pool_same q p"
  by (auto simp: emit_block_removed_events_def all_block_hashes_def hash_ok_def pool_same_def fun_eq_iff)

text \<open>Dropping the hashes of a block, with or without events, as one fact: \<^verbatim>\<open>drops b p p'\<close>.\<close>

definition drops :: "nat \<Rightarrow> block_pool \<Rightarrow> block_pool \<Rightarrow> bool" where
  "drops b p p' \<longleftrightarrow>
     hash_ok p' \<and> pool_same p p' \<and>
     (\<forall>c. all_block_hashes p' c = (if c = b then [] else all_block_hashes p c)) \<and>
     (\<forall>c. ref_cnt (blk p' c) = ref_cnt (blk p c)) \<and>
     (\<forall>xs. fq_rep (free_block_queue p') xs = fq_rep (free_block_queue p) xs) \<and>
     block_hash (blk p' b) = None \<and> (\<forall>c. c \<noteq> b \<longrightarrow> blk p' c = blk p c) \<and>
     (\<forall>k. bm_ids (cached_block_hash_to_block p') k = filter (\<lambda>c. c \<noteq> b) (bm_ids (cached_block_hash_to_block p) k))"

lemma drops_remove:
  assumes "hash_ok p" and "b < num_gpu_blocks p" and "remove_cached_block_hashes b p = (removed, p')"
  shows "drops b p p'" "drops b p (emit_block_removed_events hs p')"
  unfolding drops_def using remove_hashes_spec [OF assms] by simp_all

lemma evict_spec:
  assumes "hash_ok p" and "b < num_gpu_blocks p" and "maybe_evict_cached_block b p = (res, p')"
  shows "drops b p p'" "res \<longleftrightarrow> all_block_hashes p b \<noteq> []"
proof -
  obtain rm p1 where r: "remove_cached_block_hashes b p = (rm, p1)" by force
  then show "drops b p p'" "res \<longleftrightarrow> all_block_hashes p b \<noteq> []"
    using assms(3) drops_remove [OF assms(1,2) r] remove_hashes_spec(1) [OF assms(1,2) r]
    by (auto simp: maybe_evict_cached_block_def split: if_splits)
qed

lemma insert_hash_spec:
  assumes ok: "hash_ok p" and b: "0 < b" "b < num_gpu_blocks p"
  shows "\<exists>p'. insert_block_hash key b n p = Inr p' \<and> hash_ok p' \<and> pool_same p p' \<and>
    (\<forall>c. all_block_hashes p' c =
       (if c = b \<and> key \<notin> set (all_block_hashes p b) then all_block_hashes p b @ [key] else all_block_hashes p c)) \<and>
    (\<forall>c. ref_cnt (blk p' c) = ref_cnt (blk p c)) \<and>
    (\<forall>xs. fq_rep (free_block_queue p') xs = fq_rep (free_block_queue p) xs) \<and>
    (\<forall>c. c \<noteq> b \<longrightarrow> blk p' c = blk p c) \<and>
    (block_hash (blk p b) = None \<longrightarrow> block_hash (blk p' b) = Some key \<and> block_hash_num_tokens (blk p' b) = n)"
proof -
  let ?m = "cached_block_hash_to_block p"
  have m: "bm_ok ?m"
    and mem: "\<And>key c. c \<in> set (bm_ids ?m key) \<longleftrightarrow> c < num_gpu_blocks p \<and> key \<in> set (all_block_hashes p c)"
    and none: "\<And>c. c < num_gpu_blocks p \<Longrightarrow> block_hash (blk p c) = None \<Longrightarrow>
      cached_block_hashes_by_block p c = None \<and> block_hash_num_tokens (blk p c) = None"
    and dist: "\<And>c. c < num_gpu_blocks p \<Longrightarrow> distinct (all_block_hashes p c)"
    and zero: "all_block_hashes p 0 = []"
    using ok by (auto simp: hash_ok_def)
  show ?thesis
  proof (cases "key \<in> set (all_block_hashes p b)")
    case True
    moreover from True have "block_hash (blk p b) \<noteq> None"
      using none [OF b(2)] by (cases "block_hash (blk p b)") (auto simp: all_block_hashes_def)
    ultimately show ?thesis using ok mem b by (auto simp: insert_block_hash_def bm.has_iff)
  next
    case False
    then have nb: "block_hash (blk p b) \<noteq> Some key" by (auto simp: all_block_hashes_def)
    have nc: "\<not> bm_contain ?m key b" using False mem by (simp add: bm.has_iff)
    define p1 where "p1 = (if block_hash (blk p b) = None
       then upd_blk b (\<lambda>k. k\<lparr>block_hash := Some key, block_hash_num_tokens := n\<rparr>) p
       else p\<lparr>cached_block_hashes_by_block := (cached_block_hashes_by_block p)
         (b \<mapsto> (case cached_block_hashes_by_block p b of None \<Rightarrow> [] | Some hs \<Rightarrow> hs) @ [key])\<rparr>)"
    define p' where "p' = p1\<lparr>cached_block_hash_to_block := bm_insert ?m key b\<rparr>"
    have "upd_blk b (\<lambda>_. (blk p b)\<lparr>block_hash := Some key, block_hash_num_tokens := n\<rparr>) p =
        upd_blk b (\<lambda>k. k\<lparr>block_hash := Some key, block_hash_num_tokens := n\<rparr>) p" by (simp add: upd_blk_def)
    moreover have "key \<notin> set (case cached_block_hashes_by_block p b of None \<Rightarrow> [] | Some hs \<Rightarrow> hs)"
      using False by (auto simp: all_block_hashes_def)
    ultimately have ins: "insert_block_hash key b n p = Inr p'"
      using nb nc none [OF b(2)] by (auto simp: insert_block_hash_def set_block_hash_def p'_def p1_def Let_def)
    have same: "pool_same p p'" by (simp add: p'_def p1_def pool_same_def)
    have hs: "all_block_hashes p' c = (if c = b then all_block_hashes p b @ [key] else all_block_hashes p c)" for c
      using none [OF b(2)] by (auto simp: p'_def p1_def all_block_hashes_def split: option.splits)
    have "c \<in> set (bm_ids (cached_block_hash_to_block p') k) \<longleftrightarrow>
        c < num_gpu_blocks p \<and> k \<in> set (all_block_hashes p' c)" for c k
      using mem b(2) hs by (auto simp: p'_def bm.ins_ids)
    moreover have "bm_ok (cached_block_hash_to_block p')" using m by (simp add: p'_def bm.ins_ok)
    moreover have "cached_block_hashes_by_block p' c = None \<and> block_hash_num_tokens (blk p' c) = None"
      if "c < num_gpu_blocks p" "block_hash (blk p' c) = None" for c
      using none [OF that(1)] that(2) by (auto simp: p'_def p1_def split: if_splits)
    moreover have "distinct (all_block_hashes p' c)" if "c < num_gpu_blocks p" for c
      using dist [OF that] False hs by auto
    ultimately have "hash_ok p'" using same zero hs b(1) by (auto simp: hash_ok_def pool_same_n)
    moreover have "fq_rep (free_block_queue p') xs = fq_rep (free_block_queue p) xs" for xs
      by (simp add: p'_def p1_def fq_rep_upd_blk)
    ultimately show ?thesis using ins same hs False
      by (auto simp: p'_def p1_def)
  qed
qed

section \<open>Allocation\<close>

definition bump :: "int \<Rightarrow> kv_cache_block \<Rightarrow> kv_cache_block" where
  "bump d k = k\<lparr>ref_cnt := ref_cnt k + d\<rparr>"

lemma bump_simps [simp]:
  "ref_cnt (bump d k) = ref_cnt k + d" "block_hash (bump d k) = block_hash k" "is_null (bump d k) = is_null k"
  "block_hash_num_tokens (bump d k) = block_hash_num_tokens k" "block_id (bump d k) = block_id k"
  "pool_id (bump d k) = pool_id k" "prev_free_block (bump d k) = prev_free_block k"
  "next_free_block (bump d k) = next_free_block k"
  by (simp_all add: bump_def)

lemma bump_blk [simp]:
  "pool_same q (upd_blk b (bump d) p) = pool_same q p"
  "all_block_hashes (upd_blk b (bump d) p) = all_block_hashes p"
  "hash_ok (upd_blk b (bump d) p) = hash_ok p"
  "fq_rep (free_block_queue (upd_blk b (bump d) p)) xs = fq_rep (free_block_queue p) xs"
proof -
  show a: "all_block_hashes (upd_blk b (bump d) p) = all_block_hashes p"
    by (rule ext) (simp add: all_block_hashes_def)
  show "hash_ok (upd_blk b (bump d) p) = hash_ok p"
    by (auto simp: hash_ok_def a)
qed (auto simp: pool_same_def fq_rep_upd_blk)

lemma drops_refl:
  assumes "hash_ok p" and "all_block_hashes p b = []" and "b < num_gpu_blocks p"
  shows "drops b p p"
proof -
  have "block_hash (blk p b) = None" using assms(2) by (simp add: all_block_hashes_def split: option.splits)
  moreover have "filter (\<lambda>c. c \<noteq> b) (bm_ids (cached_block_hash_to_block p) k) = bm_ids (cached_block_hash_to_block p) k" for k
    using assms by (intro filter_True) (auto simp: hash_ok_def)
  ultimately show ?thesis using assms by (simp add: drops_def)
qed

text \<open>The effect of taking the blocks \<^verbatim>\<open>bs\<close> out of the cache and counting one reference to each.\<close>

definition taken :: "nat list \<Rightarrow> block_pool \<Rightarrow> block_pool \<Rightarrow> bool" where
  "taken bs p p' \<longleftrightarrow>
     hash_ok p' \<and> pool_same p p' \<and>
     (\<forall>c. ref_cnt (blk p' c) = (if c \<in> set bs then 1 else ref_cnt (blk p c))) \<and>
     (\<forall>c. all_block_hashes p' c = (if c \<in> set bs \<and> enable_caching p then [] else all_block_hashes p c)) \<and>
     (\<forall>xs. fq_rep (free_block_queue p') xs = fq_rep (free_block_queue p) xs)"

lemma take_new_block_spec:
  assumes "hash_ok p" and "b < num_gpu_blocks p" and "ref_cnt (blk p b) = 0"
  shows "\<exists>p'. take_new_block b p = Inr p' \<and> taken [b] p p'"
proof -
  define p1 where "p1 = (if enable_caching p then snd (maybe_evict_cached_block b p) else p)"
  have "hash_ok p1 \<and> pool_same p p1 \<and> (\<forall>c. ref_cnt (blk p1 c) = ref_cnt (blk p c)) \<and>
      (\<forall>c. all_block_hashes p1 c = (if c = b \<and> enable_caching p then [] else all_block_hashes p c)) \<and>
      (\<forall>xs. fq_rep (free_block_queue p1) xs = fq_rep (free_block_queue p) xs)"
    using evict_spec(1) [OF assms(1,2), of "fst (maybe_evict_cached_block b p)" "snd (maybe_evict_cached_block b p)"]
      assms(1) by (auto simp: p1_def drops_def)
  moreover have "take_new_block b p = Inr (upd_blk b (bump 1) p1)"
    using calculation assms(3) by (simp add: take_new_block_def Let_def bump_def [abs_def] flip: p1_def)
  ultimately show ?thesis using assms(3) by (auto simp: taken_def)
qed

lemma take_new_blocks_spec:
  assumes "hash_ok p" and "distinct bs" and "\<forall>b \<in> set bs. b < num_gpu_blocks p \<and> ref_cnt (blk p b) = 0"
  shows "\<exists>p'. foldE take_new_block bs p = Inr p' \<and> taken bs p p'"
  using assms
proof (induction bs arbitrary: p)
  case Nil
  then show ?case by (simp add: taken_def)
next
  case (Cons b bs)
  obtain p1 where p1: "take_new_block b p = Inr p1" "taken [b] p p1"
    using take_new_block_spec [of p b] Cons.prems by auto
  have "hash_ok p1" "\<forall>c \<in> set bs. c < num_gpu_blocks p1 \<and> ref_cnt (blk p1 c) = 0"
    using p1(2) Cons.prems by (auto simp: taken_def pool_same_n)
  then obtain p2 where "foldE take_new_block bs p1 = Inr p2" "taken bs p1 p2"
    using Cons.IH [of p1] Cons.prems(2) by auto
  moreover have "taken (b # bs) p p2" using p1(2) \<open>taken bs p1 p2\<close>
    by (auto simp: taken_def pool_same_def)
  ultimately show ?case using p1(1) by auto
qed

lemma get_new_blocks_spec:
  assumes rep: "pool_rep p xs" and n: "n \<le> length xs"
  shows "\<exists>p'. get_new_blocks (int n) p = Inr (take n xs, p') \<and> pool_rep p' (drop n xs) \<and> pool_same p p' \<and>
    (\<forall>c. ref_cnt (blk p' c) = (if c \<in> set (take n xs) then 1 else ref_cnt (blk p c))) \<and>
    (\<forall>c. all_block_hashes p' c =
       (if c \<in> set (take n xs) \<and> enable_caching p then [] else all_block_hashes p c))"
proof -
  have r: "fq_rep (free_block_queue p) xs" "pool_shape p" "hash_ok p" "refs_ok p xs"
    using rep by (auto simp: pool_rep_def pool_core_def)
  obtain q where q: "popleft_n (int n) (free_block_queue p) = Inr (take n xs, q)" "fq_rep q (drop n xs)"
    "fq_frame q = fq_frame (free_block_queue p)" using fq.popn_take [OF r(1) n] by blast
  let ?p = "p\<lparr>free_block_queue := q\<rparr>"
  note S = queue_swap [OF q(3)]
  have d: "distinct xs" using fq.rep_real [OF r(1)] by simp
  have free: "\<forall>b \<in> set xs. 0 < b \<and> b < num_gpu_blocks p \<and> ref_cnt (blk p b) = 0" using r(4) by (auto simp: refs_ok_def)
  have "hash_ok ?p" using S(5) r(3) by simp
  then obtain p' where p': "foldE take_new_block (take n xs) ?p = Inr p'" "taken (take n xs) ?p p'"
    using take_new_blocks_spec [of ?p "take n xs"] d free S(2) by (auto dest: in_set_takeD)
  have "get_new_blocks (int n) p = Inr (take n xs, p')"
    using q(1) p'(1) n pool_rep_free_count [OF rep] by (simp add: get_new_blocks_def)
  moreover have same: "pool_same p p'" using p'(2) S(1) pool_same_trans by (auto simp: taken_def)
  moreover have refs: "ref_cnt (blk p' c) = (if c \<in> set (take n xs) then 1 else ref_cnt (blk p c))" for c
    using p'(2) S(2) by (auto simp: taken_def)
  moreover have "pool_core p' (drop n xs)"
    using p'(2) q(2) pool_same_shape [OF same r(2)] by (simp add: pool_core_def taken_def)
  moreover have "refs_ok p' (drop n xs)"
  proof -
    have "set (drop n xs) = set xs - set (take n xs)"
      using d set_take_disj_set_drop_if_distinct [OF d, of n n] by (metis Diff_cancel Un_Diff append_take_drop_id
          inf_commute le_refl set_append sup_bot_left Diff_triv)
    then show ?thesis using r(4) refs same free by (auto simp: refs_ok_def pool_same_n dest: in_set_takeD)
  qed
  ultimately show ?thesis using p'(2) S(4) by (auto simp: pool_rep_def taken_def)
qed

lemma get_new_blocks_short:
  assumes "pool_rep p xs" and "int (length xs) < n"
  shows "get_new_blocks n p = Inl ValueError"
  using assms pool_rep_free_count by (simp add: get_new_blocks_def)

section \<open>Touching and freeing\<close>

text \<open>The references a list of blocks adds to block \<^verbatim>\<open>c\<close>.\<close>

abbreviation occ :: "nat list \<Rightarrow> nat \<Rightarrow> int" where
  "occ bs c \<equiv> int (count_list bs c)"

lemma touch_block_spec:
  assumes rep: "pool_rep p xs" and b: "b < num_gpu_blocks p"
  shows "\<exists>p'. touch_block b p = Inr p' \<and> pool_rep p' (remove1 b xs) \<and> pool_same p p' \<and>
    (\<forall>c. ref_cnt (blk p' c) = ref_cnt (blk p c) + (if c = b then 1 else 0)) \<and>
    all_block_hashes p' = all_block_hashes p"
proof -
  have r: "fq_rep (free_block_queue p) xs" "pool_shape p" "hash_ok p" "refs_ok p xs"
    using rep by (auto simp: pool_rep_def pool_core_def)
  have null: "is_null (blk p b) \<longleftrightarrow> b = 0" using r(2) b by (simp add: pool_shape_def)
  have mem: "b \<in> set xs \<longleftrightarrow> ref_cnt (blk p b) = 0 \<and> b \<noteq> 0" using r(4) b by (auto simp: refs_ok_def)
  have d: "distinct xs" using fq.rep_real [OF r(1)] by simp
  define p1 where "p1 = (if b \<in> set xs then p\<lparr>free_block_queue := projr (fq_remove b (free_block_queue p))\<rparr> else p)"
  have p1: "hash_ok p1 \<and> pool_same p p1 \<and> (\<forall>c. ref_cnt (blk p1 c) = ref_cnt (blk p c)) \<and>
      all_block_hashes p1 = all_block_hashes p \<and> fq_rep (free_block_queue p1) (remove1 b xs) \<and>
      touch_block b p = Inr (upd_blk b (bump 1) p1)"
  proof (cases "b \<in> set xs")
    case True
    then obtain q where q: "fq_remove b (free_block_queue p) = Inr q" "fq_rep q (remove1 b xs)"
      "fq_frame q = fq_frame (free_block_queue p)" using fq.rem_mem [OF r(1)] by blast
    then show ?thesis using True queue_swap [OF q(3)] r(3) mem null
      by (auto simp: p1_def touch_block_def bump_def [abs_def])
  next
    case False
    then show ?thesis using r mem null
      by (auto simp: p1_def touch_block_def bump_def [abs_def] remove1_idem)
  qed
  then have same: "pool_same p (upd_blk b (bump 1) p1)" by simp
  have refs: "ref_cnt (blk (upd_blk b (bump 1) p1) c) = ref_cnt (blk p c) + (if c = b then 1 else 0)" for c using p1 by simp
  have "refs_ok (upd_blk b (bump 1) p1) (remove1 b xs)"
    unfolding refs_ok_def pool_same_n [OF same] refs
  proof (intro conjI set_eqI)
    fix c
    have s: "c \<in> set xs \<longleftrightarrow> 0 < c \<and> c < num_gpu_blocks p \<and> ref_cnt (blk p c) = 0"
      and nn: "0 < c \<and> c < num_gpu_blocks p \<longrightarrow> 0 \<le> ref_cnt (blk p c)"
      using r(4) by (simp_all add: refs_ok_def)
    show "c \<in> set (remove1 b xs) \<longleftrightarrow>
        c \<in> {c. 0 < c \<and> c < num_gpu_blocks p \<and> ref_cnt (blk p c) + (if c = b then 1 else 0) = 0}"
      using s nn d by auto
  qed (use r(4) in \<open>simp add: refs_ok_def\<close>)
  moreover have "pool_core (upd_blk b (bump 1) p1) (remove1 b xs)"
    using p1 pool_same_shape [OF same r(2)] by (simp add: pool_core_def)
  ultimately have "pool_rep (upd_blk b (bump 1) p1) (remove1 b xs)" by (simp add: pool_rep_def)
  then show ?thesis using p1 same refs by (intro exI [of _ "upd_blk b (bump 1) p1"] conjI allI) simp_all
qed

lemma touch_spec:
  assumes "pool_rep p xs" and "\<forall>b \<in> set bs. b < num_gpu_blocks p"
  shows "\<exists>p'. touch bs p = Inr p' \<and> pool_rep p' (filter (\<lambda>x. x \<notin> set bs) xs) \<and> pool_same p p' \<and>
    (\<forall>c. ref_cnt (blk p' c) = ref_cnt (blk p c) + occ bs c) \<and> all_block_hashes p' = all_block_hashes p"
  using assms
proof (induction bs arbitrary: p xs)
  case Nil
  then show ?case by (simp add: touch_def)
next
  case (Cons b bs)
  obtain p1 where p1: "touch_block b p = Inr p1" "pool_rep p1 (remove1 b xs)" "pool_same p p1"
    "\<forall>c. ref_cnt (blk p1 c) = ref_cnt (blk p c) + (if c = b then 1 else 0)" "all_block_hashes p1 = all_block_hashes p"
    using touch_block_spec [OF Cons.prems(1), of b] Cons.prems(2) by auto
  obtain p2 where p2: "touch bs p1 = Inr p2" "pool_rep p2 (filter (\<lambda>x. x \<notin> set bs) (remove1 b xs))" "pool_same p1 p2"
    "\<forall>c. ref_cnt (blk p2 c) = ref_cnt (blk p1 c) + occ bs c" "all_block_hashes p2 = all_block_hashes p1"
    using Cons.IH [OF p1(2)] Cons.prems(2) pool_same_n [OF p1(3)] by auto
  have "distinct xs" using Cons.prems(1) fq.rep_real by (auto simp: pool_rep_def pool_core_def)
  then have "filter (\<lambda>x. x \<notin> set bs) (remove1 b xs) = filter (\<lambda>x. x \<notin> set (b # bs)) xs"
    by (auto simp: distinct_remove1_removeAll removeAll_filter_not_eq intro: filter_cong)
  then show ?case using p1 p2 pool_same_trans [OF p1(3) p2(3)]
    by (auto simp: touch_def)
qed

text \<open>The blocks whose reference count a list of releases brings to zero, in the order this happens.\<close>

primrec freed :: "(nat \<Rightarrow> int) \<Rightarrow> nat list \<Rightarrow> nat list" where
  "freed rf [] = []"
| "freed rf (b # bs) =
     (if rf b = 1 \<and> b \<noteq> 0 then b # freed (rf(b := rf b - 1)) bs else freed (rf(b := rf b - 1)) bs)"

lemma freed_spec:
  assumes "\<And>c. c \<in> set bs \<Longrightarrow> c \<noteq> 0 \<Longrightarrow> occ bs c \<le> rf c"
  shows "distinct (freed rf bs) \<and> set (freed rf bs) = {c \<in> set bs. c \<noteq> 0 \<and> rf c = occ bs c}"
  using assms
proof (induction bs arbitrary: rf)
  case (Cons b bs)
  define rf' where "rf' = rf(b := rf b - 1)"
  have F: "freed rf (b # bs) = (if rf b = 1 \<and> b \<noteq> 0 then b # freed rf' bs else freed rf' bs)"
    unfolding rf'_def by (rule freed.simps)
  have rf': "rf' b = rf b - 1" "\<And>c. c \<noteq> b \<Longrightarrow> rf' c = rf c" by (simp_all add: rf'_def)
  have le: "occ bs c \<le> rf' c" if "c \<in> set (b # bs)" "c \<noteq> 0" for c
    using Cons.prems [OF that] rf' by (cases "c = b") auto
  then have IH: "distinct (freed rf' bs)" "set (freed rf' bs) = {c \<in> set bs. c \<noteq> 0 \<and> rf' c = occ bs c}"
    using Cons.IH [of rf'] by simp_all
  have b0: "occ bs b = 0 \<longleftrightarrow> b \<notin> set bs" by (simp add: count_list_0_iff)
  have "c \<in> set (freed rf (b # bs)) \<longleftrightarrow> c \<in> set (b # bs) \<and> c \<noteq> 0 \<and> rf c = occ (b # bs) c" for c
    using IH(2) rf' le [of b] b0 unfolding F by (cases "c = b") auto
  moreover have "distinct (freed rf (b # bs))"
    using IH le [of b] rf'(1) b0 unfolding F by auto
  ultimately show ?case by blast
qed simp

lemma freed_distinct_list:
  "distinct bs \<Longrightarrow> freed rf bs = filter (\<lambda>b. rf b = 1 \<and> b \<noteq> 0) bs"
proof (induction bs arbitrary: rf)
  case (Cons b bs)
  define rf' where "rf' = rf(b := rf b - 1)"
  have F: "freed rf (b # bs) = (if rf b = 1 \<and> b \<noteq> 0 then b # freed rf' bs else freed rf' bs)"
    unfolding rf'_def by (rule freed.simps)
  have "filter (\<lambda>c. rf' c = 1 \<and> c \<noteq> 0) bs = filter (\<lambda>c. rf c = 1 \<and> c \<noteq> 0) bs"
    using Cons.prems by (intro filter_cong) (auto simp: rf'_def)
  then show ?case using Cons.IH [of rf'] Cons.prems unfolding F by simp
qed simp

lemma free_loop_spec:
  assumes "pool_shape p" and "hash_ok p" and "\<forall>b \<in> set bs. b < num_gpu_blocks p"
    and "free_loop bs p = (f, l, p')"
  shows "f = filter (\<lambda>b. block_hash (blk p b) = None \<or> \<not> enable_caching p) (freed (\<lambda>c. ref_cnt (blk p c)) bs) \<and>
    l = filter (\<lambda>b. \<not> (block_hash (blk p b) = None \<or> \<not> enable_caching p)) (freed (\<lambda>c. ref_cnt (blk p c)) bs) \<and>
    pool_same p p' \<and> hash_ok p' \<and> all_block_hashes p' = all_block_hashes p \<and>
    (\<forall>c. ref_cnt (blk p' c) = ref_cnt (blk p c) - occ bs c) \<and>
    (\<forall>xs. fq_rep (free_block_queue p') xs = fq_rep (free_block_queue p) xs)"
  using assms
proof (induction bs arbitrary: p f l p')
  case (Cons b bs)
  let ?p = "upd_blk b (bump (- 1)) p"
  obtain f1 l1 where fl: "free_loop bs ?p = (f1, l1, p')"
    and b: "f = (if ref_cnt (blk p b) = 1 \<and> \<not> is_null (blk p b) \<and> (block_hash (blk p b) = None \<or> \<not> enable_caching p) then b # f1 else f1)"
      "l = (if ref_cnt (blk p b) = 1 \<and> \<not> is_null (blk p b) \<and> \<not> (block_hash (blk p b) = None \<or> \<not> enable_caching p) then b # l1 else l1)"
    using Cons.prems(4) by (auto simp: Let_def bump_def [abs_def] split: prod.splits if_splits)
  define rf where "rf = (\<lambda>c. ref_cnt (blk p c))"
  have bh: "block_hash (blk ?p c) = block_hash (blk p c)"
    and rc: "ref_cnt (blk ?p c) = (rf(b := rf b - 1)) c" for c by (simp_all add: rf_def)
  have "pool_shape ?p" "hash_ok ?p" "\<forall>c \<in> set bs. c < num_gpu_blocks ?p"
    using Cons.prems(1-3) pool_same_shape [of p ?p] by simp_all
  note IH = Cons.IH [OF this fl, unfolded bh rc]
  have null: "is_null (blk p b) \<longleftrightarrow> b = 0" using Cons.prems(1,3) by (simp add: pool_shape_def)
  have "freed rf (b # bs) = (if rf b = 1 \<and> b \<noteq> 0 then b # freed (rf(b := rf b - 1)) bs else freed (rf(b := rf b - 1)) bs)"
    by (rule freed.simps)
  moreover have "(rf(b := rf b - 1)) c - occ bs c = rf c - occ (b # bs) c" for c by simp
  moreover have "pool_same p p'" using IH pool_same_trans [of p ?p p'] by simp
  ultimately show ?case using IH b null unfolding rf_def [symmetric]
    by (simp add: fun_cong [OF rf_def, symmetric] del: freed.simps fun_upd_apply)
qed simp

lemma free_blocks_spec:
  assumes rep: "pool_rep p xs" and bs: "\<forall>b \<in> set bs. b < num_gpu_blocks p"
    and owned: "\<And>c. c \<in> set bs \<Longrightarrow> 0 < c \<Longrightarrow> occ bs c \<le> ref_cnt (blk p c)"
  defines "fs \<equiv> freed (\<lambda>c. ref_cnt (blk p c)) bs"
    and "first \<equiv> \<lambda>b. block_hash (blk p b) = None \<or> \<not> enable_caching p"
  shows "\<exists>p'. free_blocks bs p = Inr p' \<and> pool_rep p' (filter first fs @ xs @ filter (\<lambda>b. \<not> first b) fs) \<and> pool_same p p' \<and>
    (\<forall>c. ref_cnt (blk p' c) = ref_cnt (blk p c) - occ bs c) \<and> all_block_hashes p' = all_block_hashes p"
proof -
  have r: "fq_rep (free_block_queue p) xs" "pool_shape p" "hash_ok p" "refs_ok p xs"
    using rep by (auto simp: pool_rep_def pool_core_def)
  obtain f l p1 where fl: "free_loop bs p = (f, l, p1)" by (metis prod_cases3)
  have L: "f = filter first fs" "l = filter (\<lambda>b. \<not> first b) fs" "pool_same p p1" "hash_ok p1"
    "all_block_hashes p1 = all_block_hashes p" "\<And>c. ref_cnt (blk p1 c) = ref_cnt (blk p c) - occ bs c"
    "\<And>ys. fq_rep (free_block_queue p1) ys = fq_rep (free_block_queue p) ys"
    using free_loop_spec [OF r(2,3) bs fl] by (simp_all add: fs_def first_def)
  have F: "distinct fs" "set fs = {c \<in> set bs. c \<noteq> 0 \<and> ref_cnt (blk p c) = occ bs c}"
    using freed_spec [of bs "\<lambda>c. ref_cnt (blk p c)"] owned by (auto simp: fs_def)
  have fresh: "\<forall>b \<in> set fs. fq_real (fq_frame (free_block_queue p1)) b \<and> b \<notin> set xs"
  proof
    fix b assume "b \<in> set fs"
    then have "b \<in> set bs" "0 < b" "b < num_gpu_blocks p" "ref_cnt (blk p b) = occ bs b" using F(2) bs by auto
    then show "fq_real (fq_frame (free_block_queue p1)) b \<and> b \<notin> set xs"
      using L(3) r(2,4) count_list_0_iff [of bs b]
      by (auto simp: fq_real_def fq_frame_def pool_same_def pool_shape_def refs_ok_def)
  qed
  obtain q1 where q1: "prepend_n f (free_block_queue p1) = Inr q1" "fq_rep q1 (f @ xs)"
    "fq_frame q1 = fq_frame (free_block_queue p1)"
    using fq.pren_fresh [of "free_block_queue p1" xs f] L(1,7) r(1) F(1) fresh by auto
  obtain q2 where q2: "append_n l q1 = Inr q2" "fq_rep q2 (f @ xs @ l)" "fq_frame q2 = fq_frame q1"
    using fq.appn_fresh [of q1 "f @ xs" l] q1(2,3) L(1,2) F(1) fresh by auto
  let ?p = "p1\<lparr>free_block_queue := q2\<rparr>"
  note S = queue_swap [of q2 p1, OF q2(3) [unfolded q1(3)]]
  have same: "pool_same p ?p" using L(3) S(1) pool_same_trans by blast
  have refs: "ref_cnt (blk ?p c) = ref_cnt (blk p c) - occ bs c" for c using S(2) L(6) by simp
  have "refs_ok ?p (f @ xs @ l)"
    unfolding refs_ok_def pool_same_n [OF same] refs
  proof (intro conjI set_eqI allI impI)
    fix c
    have s: "c \<in> set xs \<longleftrightarrow> 0 < c \<and> c < num_gpu_blocks p \<and> ref_cnt (blk p c) = 0"
      and nn: "0 < c \<and> c < num_gpu_blocks p \<longrightarrow> 0 \<le> ref_cnt (blk p c)"
      using r(4) by (simp_all add: refs_ok_def)
    have "c \<in> set (f @ xs @ l) \<longleftrightarrow> c \<in> set fs \<or> c \<in> set xs" using L(1,2) by auto
    also have "\<dots> \<longleftrightarrow> 0 < c \<and> c < num_gpu_blocks p \<and> ref_cnt (blk p c) = occ bs c"
      using s F(2) bs owned [of c] count_list_0_iff [of bs c] by auto
    finally show "c \<in> set (f @ xs @ l) \<longleftrightarrow>
        c \<in> {c. 0 < c \<and> c < num_gpu_blocks p \<and> ref_cnt (blk p c) - occ bs c = 0}" by simp
    show "0 \<le> ref_cnt (blk p c) - occ bs c" if "0 < c \<and> c < num_gpu_blocks p"
      using that nn owned [of c] by (cases "c \<in> set bs") (simp_all add: count_list_0_iff)
  qed
  moreover have "pool_core ?p (f @ xs @ l)"
    using q2(2) S(5) L(4) pool_same_shape [OF same r(2)] by (simp add: pool_core_def)
  ultimately have "pool_rep ?p (filter first fs @ xs @ filter (\<lambda>b. \<not> first b) fs)"
    using L(1,2) by (simp add: pool_rep_def)
  moreover have "free_blocks bs p = Inr ?p" using fl q1(1) q2(1) by (simp add: free_blocks_def)
  moreover have "all_block_hashes ?p = all_block_hashes p" using S(4) L(5) by (auto simp: fun_eq_iff)
  ultimately show ?thesis using same refs by blast
qed

section \<open>Operations that keep references and the free list\<close>

definition kept :: "block_pool \<Rightarrow> block_pool \<Rightarrow> bool" where
  "kept p p' \<longleftrightarrow> hash_ok p' \<and> pool_same p p' \<and> (\<forall>c. ref_cnt (blk p' c) = ref_cnt (blk p c)) \<and>
     (\<forall>xs. fq_rep (free_block_queue p') xs = fq_rep (free_block_queue p) xs)"

lemma kept_refl: "hash_ok p \<Longrightarrow> kept p p"
  by (simp add: kept_def)

lemma kept_trans: "kept p q \<Longrightarrow> kept q r \<Longrightarrow> kept p r"
  using pool_same_trans by (auto simp: kept_def)

lemma drops_kept: "drops b p p' \<Longrightarrow> kept p p'"
  by (simp add: drops_def kept_def)

lemma kept_pool_rep: "kept p p' \<Longrightarrow> pool_rep p xs \<Longrightarrow> pool_rep p' xs"
  using pool_same_shape by (auto simp: kept_def pool_rep_def pool_core_def refs_ok_def pool_same_n)

lemma kept_hash_ok: "kept p p' \<Longrightarrow> hash_ok p'"
  by (simp add: kept_def)

lemma kept_n: "kept p p' \<Longrightarrow> num_gpu_blocks p' = num_gpu_blocks p"
  by (simp add: kept_def pool_same_n)

lemma kept_shape: "kept p p' \<Longrightarrow> pool_shape p \<Longrightarrow> pool_shape p'"
  using pool_same_shape by (auto simp: kept_def)

lemma kept_null: "kept p p' \<Longrightarrow> is_null (blk p' b) = is_null (blk p b)"
  by (simp add: kept_def pool_same_def)

text \<open>Replacing the hashes of a block that has fewer tokens hashed, then inserting the new key.\<close>

lemma insert_fresh_spec:
  assumes "hash_ok p" and "0 < b" and "b < num_gpu_blocks p" and "all_block_hashes p b = []"
  shows "\<exists>p'. insert_block_hash key b n p = Inr p' \<and> kept p p' \<and> all_block_hashes p' b = [key] \<and>
    block_hash (blk p' b) = Some key \<and> (\<forall>c. c \<noteq> b \<longrightarrow> all_block_hashes p' c = all_block_hashes p c)"
proof -
  have "block_hash (blk p b) = None" using assms(4) by (simp add: all_block_hashes_def split: option.splits)
  then show ?thesis using insert_hash_spec [OF assms(1-3), of key n] assms(4) by (auto simp: kept_def)
qed

lemma cache_full_block_spec:
  assumes ok: "hash_ok p" and shape: "pool_shape p" and b: "b < num_gpu_blocks p"
    and run: "cache_full_block nbh nc bsz g msk (i, b) (hs, p) = Inr (hs', p')"
  shows "kept p p' \<and> (\<forall>c. c \<noteq> b \<longrightarrow> all_block_hashes p' c = all_block_hashes p c) \<and>
    (if b = 0 \<or> masked_out msk i then p' = p
     else \<exists>bh key. py_index nbh (int i) = Inr bh \<and> make_block_hash_with_group_id bh g = Inr key \<and>
       all_block_hashes p' b = [key] \<and> block_hash (blk p' b) = Some key)"
proof -
  let ?skip = "b = 0 \<or> masked_out msk i"
  have null: "is_null (blk p b) \<longleftrightarrow> b = 0" using shape b by (simp add: pool_shape_def)
  show ?thesis
  proof (cases ?skip)
    case True
    then show ?thesis using run ok null by (auto simp: cache_full_block_def kept_refl)
  next
    case False
    obtain bh key p1 where bh: "py_index nbh (int i) = Inr bh" "make_block_hash_with_group_id bh g = Inr key"
      and ins: "insert_block_hash key b (Some ((nc + int i + 1) * bsz)) p1 = Inr p'"
      and p1: "(block_hash (blk p b) = None \<and> p1 = p) \<or>
        (\<exists>rm q. remove_cached_block_hashes b p = (rm, q) \<and> p1 = emit_block_removed_events rm q)"
      using run False null
      by (auto simp: cache_full_block_def Let_def result_simps split: if_splits option.splits prod.splits)
    have "hash_ok p1 \<and> kept p p1 \<and> all_block_hashes p1 b = [] \<and> (\<forall>c. c \<noteq> b \<longrightarrow> all_block_hashes p1 c = all_block_hashes p c)"
      using p1
    proof (elim disjE exE conjE)
      assume "block_hash (blk p b) = None" "p1 = p"
      then show ?thesis using ok b by (auto simp: kept_refl hash_ok_def all_block_hashes_def)
    next
      fix rm q assume "remove_cached_block_hashes b p = (rm, q)" "p1 = emit_block_removed_events rm q"
      then have "drops b p p1" using drops_remove [OF ok b] by blast
      then show ?thesis using drops_kept by (auto simp: drops_def)
    qed
    moreover from this have "b < num_gpu_blocks p1" "0 < b" using b False kept_n by auto
    ultimately show ?thesis
      using insert_fresh_spec [of p1 b key "Some ((nc + int i + 1) * bsz)"] ins bh False kept_trans by auto
  qed
qed

lemma cache_full_loop_spec:
  assumes "hash_ok p" and "pool_shape p" and "\<forall>b \<in> set bs. b < num_gpu_blocks p"
    and "foldE (cache_full_block nbh nc bsz g msk) (enumerate k bs) (hs, p) = Inr (hs', p')"
  shows "kept p p'" "\<forall>c. c \<notin> set bs \<longrightarrow> all_block_hashes p' c = all_block_hashes p c"
    "distinct (filter (\<lambda>b. b \<noteq> 0) bs) \<Longrightarrow> j < length bs \<Longrightarrow> bs ! j \<noteq> 0 \<Longrightarrow>
      \<not> masked_out msk (k + j) \<Longrightarrow>
      \<exists>bh key. py_index nbh (int (k + j)) = Inr bh \<and> make_block_hash_with_group_id bh g = Inr key \<and>
        all_block_hashes p' (bs ! j) = [key]"
proof -
  have "kept p p' \<and> (\<forall>c. c \<notin> set bs \<longrightarrow> all_block_hashes p' c = all_block_hashes p c) \<and>
    (distinct (filter (\<lambda>b. b \<noteq> 0) bs) \<longrightarrow> (\<forall>j < length bs. bs ! j \<noteq> 0 \<longrightarrow>
      \<not> masked_out msk (k + j) \<longrightarrow>
      (\<exists>bh key. py_index nbh (int (k + j)) = Inr bh \<and> make_block_hash_with_group_id bh g = Inr key \<and>
        all_block_hashes p' (bs ! j) = [key])))"
    using assms
  proof (induction bs arbitrary: k hs p)
    case Nil
    then show ?case by (simp add: kept_refl)
  next
    case (Cons b bs)
    obtain hs1 p1 where s1: "cache_full_block nbh nc bsz g msk (k, b) (hs, p) = Inr (hs1, p1)"
      and s2: "foldE (cache_full_block nbh nc bsz g msk) (enumerate (Suc k) bs) (hs1, p1) = Inr (hs', p')"
      using Cons.prems(4) by (auto simp: result_simps)
    note S = cache_full_block_spec [OF Cons.prems(1,2) _ s1]
    have k1: "kept p p1" using S Cons.prems(3) by simp
    then have "pool_shape p1" "\<forall>b \<in> set bs. b < num_gpu_blocks p1"
      using Cons.prems(2,3) kept_shape [OF k1] kept_n [OF k1] by auto
    note IH = Cons.IH [OF kept_hash_ok [OF k1] this s2]
    show ?case
    proof (intro conjI impI allI)
      show "kept p p'" using IH k1 kept_trans by blast
      show "all_block_hashes p' c = all_block_hashes p c" if "c \<notin> set (b # bs)" for c
        using IH S Cons.prems(3) that by simp
      fix j assume d: "distinct (filter (\<lambda>b. b \<noteq> 0) (b # bs))" and j: "j < length (b # bs)" "(b # bs) ! j \<noteq> 0"
        "\<not> masked_out msk (k + j)"
      show "\<exists>bh key. py_index nbh (int (k + j)) = Inr bh \<and> make_block_hash_with_group_id bh g = Inr key \<and>
          all_block_hashes p' ((b # bs) ! j) = [key]"
      proof (cases j)
        case 0
        then have "b \<notin> set bs" using d j(2) by auto
        then show ?thesis using 0 j S IH Cons.prems(3) by auto
      next
        case (Suc i)
        have "distinct (filter (\<lambda>b. b \<noteq> 0) bs)" using d by (simp split: if_splits)
        then show ?thesis using Suc j IH by auto
      qed
    qed
  qed
  then show "kept p p'" "\<forall>c. c \<notin> set bs \<longrightarrow> all_block_hashes p' c = all_block_hashes p c"
    "distinct (filter (\<lambda>b. b \<noteq> 0) bs) \<Longrightarrow> j < length bs \<Longrightarrow> bs ! j \<noteq> 0 \<Longrightarrow>
      \<not> masked_out msk (k + j) \<Longrightarrow>
      \<exists>bh key. py_index nbh (int (k + j)) = Inr bh \<and> make_block_hash_with_group_id bh g = Inr key \<and>
        all_block_hashes p' (bs ! j) = [key]"
    by blast+
qed

lemma kept_event [simp]: "kept p (q\<lparr>kv_event_queue := es\<rparr>) = kept p q"
  by (simp add: kept_def hash_ok_def pool_same_def all_block_hashes_def)

lemma cache_full_blocks_event_kept:
  assumes "cache_full_blocks_event dg r bl nc nf bsz g msk bhl nh q = Inr (r', p')" and "kept p q"
  shows "kept p p'" and "all_block_hashes p' = all_block_hashes q"
  using assms by (auto simp: cache_full_blocks_event_def result_simps all_block_hashes_def fun_eq_iff
      split: if_splits prod.splits)

lemma cache_full_blocks_spec:
  assumes rep: "pool_rep p xs" and bl: "\<forall>b \<in> set bl. b < num_gpu_blocks p"
    and run: "cache_full_blocks dg r bl nc nf bsz g msk p = Inr (r', p')"
  shows "kept p p'"
    "distinct (filter (\<lambda>b. b \<noteq> 0) bl) \<Longrightarrow> 0 \<le> nc \<Longrightarrow> i < nf - nc \<Longrightarrow> 0 \<le> i \<Longrightarrow> nat (nc + i) < length bl \<Longrightarrow>
      bl ! nat (nc + i) \<noteq> 0 \<Longrightarrow> \<not> masked_out msk (nat i) \<Longrightarrow>
      \<exists>bhl bhs bh key. resolve_block_hashes (Raw (block_hashes r)) (hash_block_size p) bsz False None = Inr bhl \<and>
        bhl_from bhl nc = Inr bhs \<and> py_index bhs i = Inr bh \<and> make_block_hash_with_group_id bh g = Inr key \<and>
        all_block_hashes p' (bl ! nat (nc + i)) = [key]"
proof -
  have r: "pool_shape p" "hash_ok p" using rep by (auto simp: pool_rep_def pool_core_def)
  let ?bs = "py_slice bl nc nf"
  have sub: "set ?bs \<subseteq> set bl" by (auto simp: py_slice_def dest: in_set_takeD in_set_dropD)
  have "kept p p' \<and> (nc < nf \<longrightarrow> (\<exists>bhl bhs hs q. resolve_block_hashes (Raw (block_hashes r)) (hash_block_size p) bsz False None = Inr bhl \<and>
      bhl_from bhl nc = Inr bhs \<and>
      foldE (cache_full_block bhs nc bsz g msk) (enumerate 0 ?bs) ([], p) = Inr (hs, q) \<and>
      all_block_hashes p' = all_block_hashes q))"
  proof (cases "nc < nf")
    case True
    then obtain bhl bhs hs q where q: "resolve_block_hashes (Raw (block_hashes r)) (hash_block_size p) bsz False None = Inr bhl"
      "bhl_from bhl nc = Inr bhs" "foldE (cache_full_block bhs nc bsz g msk) (enumerate 0 ?bs) ([], p) = Inr (hs, q)"
      "cache_full_blocks_event dg r bl nc nf bsz g msk bhl hs q = Inr (r', p')"
      using run by (auto simp: cache_full_blocks_def Let_def result_simps split: if_splits prod.splits)
    have "kept p q" using cache_full_loop_spec(1) [OF r(2,1) _ q(3)] bl sub by auto
    then show ?thesis using q cache_full_blocks_event_kept [OF q(4)] by blast
  qed (use run r in \<open>simp add: cache_full_blocks_def kept_refl\<close>)
  note K = this
  show "kept p p'" using K by blast
  assume d: "distinct (filter (\<lambda>b. b \<noteq> 0) bl)" and nc: "0 \<le> nc" and i: "i < nf - nc" "0 \<le> i" "nat (nc + i) < length bl"
    and b: "bl ! nat (nc + i) \<noteq> 0" and m: "\<not> masked_out msk (nat i)"
  obtain bhl bhs hs q where q: "resolve_block_hashes (Raw (block_hashes r)) (hash_block_size p) bsz False None = Inr bhl"
      "bhl_from bhl nc = Inr bhs" "foldE (cache_full_block bhs nc bsz g msk) (enumerate 0 ?bs) ([], p) = Inr (hs, q)"
      "all_block_hashes p' = all_block_hashes q" using K i by force
  have sl: "?bs = take (nat nf - nat nc) (drop (nat nc) bl)" using nc i by (simp add: py_slice_nonneg)
  have "bl = take (nat nc) bl @ ?bs @ drop (nat nf - nat nc) (drop (nat nc) bl)" unfolding sl by (simp del: drop_drop)
  then have "distinct (filter (\<lambda>b. b \<noteq> 0) ?bs)" using d by (metis distinct_append filter_append)
  moreover have "nat i < length ?bs" "?bs ! nat i = bl ! nat (nc + i)"
    using nc i unfolding sl by (auto simp: nat_add_distrib)
  moreover have "\<not> masked_out msk (0 + nat i)" using m by simp
  ultimately show "\<exists>bhl bhs bh key. resolve_block_hashes (Raw (block_hashes r)) (hash_block_size p) bsz False None = Inr bhl \<and>
        bhl_from bhl nc = Inr bhs \<and> py_index bhs i = Inr bh \<and> make_block_hash_with_group_id bh g = Inr key \<and>
        all_block_hashes p' (bl ! nat (nc + i)) = [key]"
    using cache_full_loop_spec(3) [OF r(2,1) _ q(3), of "nat i"] bl sub b q i(2) by auto
qed

lemma insert_hashes_spec:
  assumes "hash_ok p" and "0 < b" and "b < num_gpu_blocks p" and "distinct hs" and "set hs \<inter> set (all_block_hashes p b) = {}"
  shows "\<exists>p'. foldE (\<lambda>h. insert_block_hash h b n) hs p = Inr p' \<and> kept p p' \<and>
    all_block_hashes p' b = all_block_hashes p b @ hs \<and> (\<forall>c. c \<noteq> b \<longrightarrow> all_block_hashes p' c = all_block_hashes p c)"
  using assms
proof (induction hs arbitrary: p)
  case Nil
  then show ?case by (simp add: kept_refl)
next
  case (Cons h hs)
  obtain p1 where p1: "insert_block_hash h b n p = Inr p1" "kept p p1" "all_block_hashes p1 b = all_block_hashes p b @ [h]"
    "\<forall>c. c \<noteq> b \<longrightarrow> all_block_hashes p1 c = all_block_hashes p c"
    using insert_hash_spec [OF Cons.prems(1-3), of h n] Cons.prems(5) by (auto simp: kept_def)
  have "hash_ok p1" "b < num_gpu_blocks p1" using p1(2) Cons.prems(3) kept_hash_ok kept_n [OF p1(2)] by simp_all
  moreover have "set hs \<inter> set (all_block_hashes p1 b) = {}" "distinct hs" using p1(3) Cons.prems(4,5) by auto
  ultimately obtain p2 where "foldE (\<lambda>h. insert_block_hash h b n) hs p1 = Inr p2" "kept p1 p2"
    "all_block_hashes p2 b = all_block_hashes p1 b @ hs" "\<forall>c. c \<noteq> b \<longrightarrow> all_block_hashes p2 c = all_block_hashes p1 c"
    using Cons.IH [of p1] Cons.prems(2) by auto
  then show ?case using p1 kept_trans by auto
qed

lemma move_block_hashes_spec:
  assumes "hash_ok p" and "src < num_gpu_blocks p" and "0 < dst" and "dst < num_gpu_blocks p" and "src \<noteq> dst"
    and "all_block_hashes p dst = []"
  shows "\<exists>p'. move_block_hashes src dst p = Inr p' \<and> kept p p' \<and> all_block_hashes p' src = [] \<and>
    all_block_hashes p' dst = all_block_hashes p src \<and>
    (\<forall>c. c \<noteq> src \<and> c \<noteq> dst \<longrightarrow> all_block_hashes p' c = all_block_hashes p c)"
proof -
  have dst: "block_hash (blk p dst) = None" using assms(6) by (simp add: all_block_hashes_def split: option.splits)
  then have by_dst: "cached_block_hashes_by_block p dst = None" using assms(1,4) by (simp add: hash_ok_def)
  obtain rm p1 where rm: "remove_cached_block_hashes src p = (rm, p1)" by force
  note R = remove_hashes_spec [OF assms(1,2) rm] and D = drops_remove(1) [OF assms(1,2) rm]
  have "dst < num_gpu_blocks p1" using assms(4) kept_n [OF drops_kept [OF D]] by simp
  moreover have "distinct rm" using R(1) assms(1,2) by (simp add: hash_ok_def)
  moreover have "all_block_hashes p1 dst = []" using D assms(5,6) by (simp add: drops_def)
  ultimately obtain p2 where "foldE (\<lambda>h. insert_block_hash h dst (block_hash_num_tokens (blk p src))) rm p1 = Inr p2" "kept p1 p2"
    "all_block_hashes p2 dst = rm" "\<forall>c. c \<noteq> dst \<longrightarrow> all_block_hashes p2 c = all_block_hashes p1 c"
    using insert_hashes_spec [of p1 dst rm] R(2) assms(3) by auto
  then show ?thesis using dst by_dst rm R(1) D drops_kept [OF D] kept_trans assms(5)
    by (auto simp: move_block_hashes_def drops_def)
qed

lemma drop_shorter_hashes_kept:
  assumes "hash_ok p" and "b < num_gpu_blocks p"
  shows "kept p (drop_shorter_hashes key b n p)"
proof -
  obtain rm q where rm: "remove_cached_block_hashes b p = (rm, q)" by force
  show ?thesis using drops_kept [OF drops_remove(2) [OF assms rm]] kept_refl [OF assms(1)]
    by (simp add: drop_shorter_hashes_def rm)
qed

lemma cache_partial_block_event_kept:
  assumes "cache_partial_block_event dg r bh n g q = Inr (r', p')"
  shows "kept p p' = kept p q" "all_block_hashes p' = all_block_hashes q"
  using assms by (auto simp: cache_partial_block_event_def result_simps all_block_hashes_def fun_eq_iff)

lemma cache_partial_block_spec:
  assumes "hash_ok p" and "pool_shape p" and "b < num_gpu_blocks p"
    and "cache_partial_block dg r b nt g bsz p = Inr (res, r', p')"
  shows "kept p p' \<and> (\<forall>key. res = Some key \<longrightarrow> key \<in> set (all_block_hashes p' b))"
proof (cases "b = 0")
  case True
  then show ?thesis using assms by (auto simp: cache_partial_block_def kept_refl pool_shape_def)
next
  case False
  let ?c = "nt div hash_block_size p * hash_block_size p"
  have "\<not> is_null (blk p b)" using False assms(2,3) by (simp add: pool_shape_def)
  then obtain bh key p2 where ins: "insert_block_hash key b (Some ?c) (drop_shorter_hashes key b ?c p) = Inr p2"
    and res: "res = Some key"
    and p2: "p' = p2 \<or> (\<exists>r1. cache_partial_block_event dg r bh nt g p2 = Inr (r1, p'))"
    using assms(4) by (auto simp: cache_partial_block_def Let_def result_simps split: if_splits)
  note k1 = drop_shorter_hashes_kept [OF assms(1,3), of key ?c]
  have "b < num_gpu_blocks (drop_shorter_hashes key b ?c p)" using assms(3) kept_n [OF k1] by simp
  then have "kept (drop_shorter_hashes key b ?c p) p2" "key \<in> set (all_block_hashes p2 b)"
    using insert_hash_spec [OF kept_hash_ok [OF k1], of b key "Some ?c"] False ins by (auto simp: kept_def)
  then show ?thesis using p2 res kept_trans [OF k1] cache_partial_block_event_kept by auto
qed

lemma evict_blocks_spec:
  assumes "hash_ok p" and "\<forall>i \<in> set ids. 0 \<le> i \<and> i < int (num_gpu_blocks p)"
  shows "\<exists>p'. evict_blocks ids p = Inr p' \<and> kept p p' \<and>
    (\<forall>c. all_block_hashes p' c = (if int c \<in> set ids then [] else all_block_hashes p c))"
  using assms
proof (induction ids arbitrary: p)
  case Nil
  then show ?case by (simp add: evict_blocks_def kept_refl)
next
  case (Cons i ids)
  let ?p = "snd (maybe_evict_cached_block (nat i) p)"
  have D: "drops (nat i) p ?p" using evict_spec(1) [of p "nat i" _ ?p] Cons.prems by (metis list.set_intros(1) nat_less_iff prod.collapse)
  then have n: "num_gpu_blocks ?p = num_gpu_blocks p" using kept_n drops_kept by blast
  obtain p' where p': "evict_blocks ids ?p = Inr p'" "kept ?p p'"
    "\<forall>c. all_block_hashes p' c = (if int c \<in> set ids then [] else all_block_hashes ?p c)"
    using Cons.IH [of ?p] Cons.prems(2) D n by (auto simp: drops_def)
  have "evict_blocks (i # ids) p = Inr p'"
    using p'(1) Cons.prems(2) by (simp add: evict_blocks_def py_index_def nat_less_iff)
  moreover have "kept p p'" using p'(2) drops_kept [OF D] kept_trans by blast
  ultimately show ?case using p'(3) D Cons.prems(2) by (auto simp: drops_def)
qed

lemma reset_hash_simps [simp]:
  "reset_hash (reset_hash k) = reset_hash k" "block_hash (reset_hash k) = None" "block_hash_num_tokens (reset_hash k) = None"
  "ref_cnt (reset_hash k) = ref_cnt k" "is_null (reset_hash k) = is_null k" "block_id (reset_hash k) = block_id k"
  "pool_id (reset_hash k) = pool_id k" "prev_free_block (reset_hash k) = prev_free_block k"
  "next_free_block (reset_hash k) = next_free_block k"
  by (simp_all add: reset_hash_def)

lemma fold_reset_hash:
  assumes "p' = fold (\<lambda>b. upd_blk b reset_hash) bs p"
  shows "blk p' c = (if c \<in> set bs then reset_hash (blk p c) else blk p c) \<and>
    num_gpu_blocks p' = num_gpu_blocks p \<and> pool_same p p' \<and>
    cached_block_hash_to_block p' = cached_block_hash_to_block p \<and>
    cached_block_hashes_by_block p' = cached_block_hashes_by_block p \<and>
    enable_kv_cache_events p' = enable_kv_cache_events p \<and>
    (\<forall>xs. fq_rep (free_block_queue p') xs = fq_rep (free_block_queue p) xs)"
  using assms
proof (induction bs arbitrary: p)
  case (Cons b bs)
  have "pool_same p (upd_blk b reset_hash p)" by (simp add: pool_same_def)
  moreover from this have "pool_same p p'" if "pool_same (upd_blk b reset_hash p) p'" using that pool_same_trans by blast
  moreover have "p' = fold (\<lambda>b. upd_blk b reset_hash) bs (upd_blk b reset_hash p)" using Cons.prems by simp
  ultimately show ?case using Cons.IH [of "upd_blk b reset_hash p"]
    by (auto simp: fq_rep_upd_blk)
qed simp

lemma reset_prefix_cache_spec:
  assumes rep: "pool_rep p xs" and run: "reset_prefix_cache p = (ok, p')"
  shows "pool_rep p' xs" and "pool_same p p'" and "ref_cnt (blk p' c) = ref_cnt (blk p c)"
    and "ok \<longleftrightarrow> Suc (length xs) = num_gpu_blocks p"
    and "ok \<Longrightarrow> b < num_gpu_blocks p \<Longrightarrow> all_block_hashes p' b = []"
    and "ok \<Longrightarrow> bm_ids (cached_block_hash_to_block p') key = []"
    and "\<not> ok \<Longrightarrow> p' = p"
proof -
  have n: "get_num_free_blocks p = int (length xs)" using pool_rep_free_count [OF rep] .
  show ok: "ok \<longleftrightarrow> Suc (length xs) = num_gpu_blocks p"
    using run n by (auto simp: reset_prefix_cache_def Let_def split: if_splits)
  show "\<not> ok \<Longrightarrow> p' = p" using run by (auto simp: reset_prefix_cache_def Let_def split: if_splits)
  define p1 where "p1 = p\<lparr>cached_block_hash_to_block := bm_empty, cached_block_hashes_by_block := (\<lambda>_. None)\<rparr>"
  define p2 where "p2 = fold (\<lambda>b. upd_blk b reset_hash) [0..<num_gpu_blocks p] p1"
  note F = fold_reset_hash [OF p2_def]
  have p': "p' = (if ok then (if enable_kv_cache_events p2 then p2\<lparr>kv_event_queue := kv_event_queue p2 @ [AllBlocksCleared]\<rparr> else p2) else p)"
    using run by (auto simp: reset_prefix_cache_def Let_def p1_def p2_def split: if_splits)
  have "pool_same p p1" by (simp add: p1_def pool_same_def)
  then have same2: "pool_same p p2" using F pool_same_trans by blast
  then show same: "pool_same p p'" using p' by (auto simp: pool_same_def)
  show refs: "ref_cnt (blk p' c) = ref_cnt (blk p c)" for c using p' F [of c] by (auto simp: p1_def reset_hash_def)
  show empty: "ok \<Longrightarrow> bm_ids (cached_block_hash_to_block p') key = []" for key
    using p' F by (auto simp: p1_def bm.emp_ids)
  show none: "ok \<Longrightarrow> b < num_gpu_blocks p \<Longrightarrow> all_block_hashes p' b = []" for b
    using p' F [of b] by (auto simp: all_block_hashes_def p1_def reset_hash_def)
  have "hash_ok p'" if ok
    using that none empty p' F same pool_same_n [OF same] rep
    by (auto simp: hash_ok_def bm.emp_ok p1_def reset_hash_def pool_rep_def pool_core_def pool_shape_def)
  moreover have "fq_rep (free_block_queue p') xs" using rep p' F by (auto simp: p1_def pool_rep_def pool_core_def)
  ultimately show "pool_rep p' xs"
    using rep refs pool_same_shape [OF same] pool_same_n [OF same] p'
    by (cases ok) (auto simp: pool_rep_def pool_core_def refs_ok_def)
qed

lemma block_pool_init_spec:
  assumes "0 < n"
  shows "\<exists>p. block_pool_init n caching hbs ev pid ui = Inr p \<and> pool_rep p [1..<nat n] \<and>
    num_gpu_blocks p = nat n \<and> enable_caching p = caching \<and> hash_block_size p = hbs \<and>
    enable_kv_cache_events p = ev \<and> (\<forall>b < nat n. all_block_hashes p b = [] \<and> ref_cnt (blk p b) = 0)"
proof -
  define m where "m = nat n"
  have m: "0 < m" using assms by (simp add: m_def)
  let ?h = "\<lambda>a. new_block (int a) pid"
  define q where "q = free_queue_init ?h [0..<m] m (Suc m)"
  have nl: "\<And>a. prev_free_block (?h a) = None \<and> next_free_block (?h a) = None" by (simp add: new_block_def)
  note I = free_queue_init_rep [of "[0..<m]" ?h m "Suc m", OF _ nl, folded q_def]
  have "fq_rep q (0 # [1..<m])" using I(1) m by (simp add: upt_conv_Cons)
  then obtain q' where q': "popleft q = Inr (0, q')" "fq_rep q' [1..<m]" "fq_frame q' = fq_frame q"
    using fq.popl_cons by blast
  have pl: "payload (heap q' a) = payload (?h a)" if "a < m" for a
    using fun_cong [of "\<lambda>a. payload (heap q' a)" "\<lambda>a. payload (heap q a)" a] q'(3) I(2) [of a] that
    by (simp add: fq_frame_def)
  define p where "p = upd_blk 0 (\<lambda>b. b\<lparr>is_null := True\<rparr>)
     \<lparr>num_gpu_blocks = m, enable_caching = caching, hash_block_size = hbs, pool_pool_id = pid, free_block_queue = q',
      cached_block_hash_to_block = bm_empty, cached_block_hashes_by_block = (\<lambda>_. None), null_block = 0,
      enable_kv_cache_events = ev, use_int_hashes = ui, kv_event_queue = []\<rparr>"
  have init: "block_pool_init n caching hbs ev pid ui = Inr p"
    using assms q'(1) by (simp add: block_pool_init_def Let_def p_def q_def m_def)
  have f: "block_id (blk p b) = int b" "ref_cnt (blk p b) = 0" "is_null (blk p b) \<longleftrightarrow> b = 0" "block_hash (blk p b) = None"
    "block_hash_num_tokens (blk p b) = None" if "b < m" for b
    using payload_fields [OF pl [OF that]] m by (auto simp: p_def new_block_def)
  have ep: "num_gpu_blocks p = m" "cached_block_hash_to_block p = bm_empty" "cached_block_hashes_by_block p = (\<lambda>_. None)"
    "enable_caching p = caching" "hash_block_size p = hbs" "enable_kv_cache_events p = ev" by (simp_all add: p_def)
  have hs: "all_block_hashes p b = []" if "b < m" for b using f(4) [OF that] ep(3) by (simp add: all_block_hashes_def)
  have "fq_rep (free_block_queue p) [1..<m]" using q'(2) by (simp add: p_def fq_rep_upd_blk)
  moreover have "pool_shape p"
    using f m I(3,4) q'(3) by (auto simp: pool_shape_def p_def fq_frame_def)
  moreover have "hash_ok p" using f hs m by (simp add: hash_ok_def ep bm.emp_ok bm.emp_ids)
  moreover have "refs_ok p [1..<m]" using f by (auto simp: refs_ok_def ep)
  ultimately show ?thesis using init hs f(2) ep by (auto simp: pool_rep_def pool_core_def m_def)
qed

lemma get_cached_block_spec:
  assumes "hash_ok p" and "get_cached_block p bh gs = Inr res"
  shows "case res of
      Some bs \<Rightarrow> list_all2 (\<lambda>g b. \<exists>key. make_block_hash_with_group_id bh g = Inr key \<and> 0 < b \<and>
        b < num_gpu_blocks p \<and> key \<in> set (all_block_hashes p b)) gs bs
    | None \<Rightarrow> \<exists>g \<in> set gs. \<exists>key. make_block_hash_with_group_id bh g = Inr key \<and>
        (\<forall>b < num_gpu_blocks p. key \<notin> set (all_block_hashes p b))"
  using assms(2)
proof (induction gs arbitrary: res)
  case (Cons g gs)
  have ok: "bm_ok (cached_block_hash_to_block p)" "all_block_hashes p 0 = []"
    "\<And>key b. b \<in> set (bm_ids (cached_block_hash_to_block p) key) \<longleftrightarrow> b < num_gpu_blocks p \<and> key \<in> set (all_block_hashes p b)"
    using assms(1) by (auto simp: hash_ok_def)
  obtain key where key: "make_block_hash_with_group_id bh g = Inr key"
    and rest: "bindE (get_one_block (cached_block_hash_to_block p) key) (\<lambda>ob.
       case ob of None \<Rightarrow> Inr None | Some b \<Rightarrow> bindE (get_cached_block p bh gs) (\<lambda>r. Inr (map_option ((#) b) r))) = Inr res"
    using Cons.prems by (auto simp: result_simps)
  show ?case
  proof (cases "bm_ids (cached_block_hash_to_block p) key")
    case Nil
    then have "res = None" using rest by (simp add: bm.get_first [OF ok(1)])
    then show ?thesis using Nil key ok(3) [of _ key] by auto
  next
    case (Cons b bs)
    then obtain r where r: "get_cached_block p bh gs = Inr r" "res = map_option ((#) b) r"
      using rest by (auto simp: bm.get_first [OF ok(1)] result_simps)
    have "b < num_gpu_blocks p" "key \<in> set (all_block_hashes p b)" using Cons ok(3) [of b key] by auto
    moreover have "0 < b" using calculation ok(2) by (cases b) auto
    ultimately show ?thesis using Cons.IH [OF r(1)] r(2) key by (cases r) auto
  qed
qed auto

section \<open>The contract of a block source\<close>

locale block_source =
  fixes rep :: "'p \<Rightarrow> nat list \<Rightarrow> bool"
    and cap :: "'p \<Rightarrow> nat"
    and refs :: "'p \<Rightarrow> nat \<Rightarrow> int"
    and nfree :: "'p \<Rightarrow> int"
    and alloc :: "int \<Rightarrow> 'p \<Rightarrow> (nat list \<times> 'p) result"
    and share :: "nat list \<Rightarrow> 'p \<Rightarrow> 'p result"
    and release :: "nat list \<Rightarrow> 'p \<Rightarrow> 'p result"
  assumes free_count: "rep p xs \<Longrightarrow> nfree p = int (length xs)"
    and free_distinct: "rep p xs \<Longrightarrow> distinct xs"
    and free_iff: "rep p xs \<Longrightarrow> c \<in> set xs \<longleftrightarrow> 0 < c \<and> c < cap p \<and> refs p c = 0"
    and refs_nonneg: "rep p xs \<Longrightarrow> 0 < c \<Longrightarrow> c < cap p \<Longrightarrow> 0 \<le> refs p c"
    and alloc_short: "rep p xs \<Longrightarrow> int (length xs) < n \<Longrightarrow> alloc n p = Inl ValueError"
    and alloc_enough: "rep p xs \<Longrightarrow> k \<le> length xs \<Longrightarrow> \<exists>p'. alloc (int k) p = Inr (take k xs, p') \<and>
      rep p' (drop k xs) \<and> cap p' = cap p \<and> (\<forall>c. refs p' c = (if c \<in> set (take k xs) then 1 else refs p c))"
    and share_any: "rep p xs \<Longrightarrow> \<forall>b \<in> set bs. b < cap p \<Longrightarrow> \<exists>p'. share bs p = Inr p' \<and>
      rep p' (filter (\<lambda>x. x \<notin> set bs) xs) \<and> cap p' = cap p \<and> (\<forall>c. refs p' c = refs p c + int (count_list bs c))"
    and release_owned: "rep p xs \<Longrightarrow> \<forall>b \<in> set bs. b < cap p \<Longrightarrow>
      (\<And>c. c \<in> set bs \<Longrightarrow> 0 < c \<Longrightarrow> int (count_list bs c) \<le> refs p c) \<Longrightarrow> \<exists>p' ys. release bs p = Inr p' \<and> rep p' ys \<and>
      cap p' = cap p \<and> (\<forall>c. refs p' c = refs p c - int (count_list bs c))"
begin

text \<open>Every block is either free or referenced: the free count and the number of referenced blocks add up
  to the capacity without the null block.\<close>

lemma conservation:
  assumes "rep p xs" and "0 < cap p"
  shows "nfree p + int (card {c. 0 < c \<and> c < cap p \<and> 0 < refs p c}) = int (cap p) - 1"
proof -
  let ?busy = "{c. 0 < c \<and> c < cap p \<and> 0 < refs p c}"
  have sub: "set xs \<subseteq> {1..<cap p}"
  proof
    show "c \<in> {1..<cap p}" if "c \<in> set xs" for c
      using that free_iff [OF assms(1), of c] by (simp add: Suc_le_eq)
  qed
  have "c \<in> ?busy \<longleftrightarrow> c \<in> {1..<cap p} - set xs" for c
    using free_iff [OF assms(1), of c] refs_nonneg [OF assms(1), of c] by (auto simp: Suc_le_eq)
  then have "?busy = {1..<cap p} - set xs" by blast
  then have "card ?busy = card {1..<cap p} - card (set xs)" using card_Diff_subset [OF _ sub] by simp
  moreover have "card (set xs) \<le> card {1..<cap p}" by (rule card_mono [OF _ sub]) simp
  moreover have "card (set xs) = length xs" using distinct_card [OF free_distinct [OF assms(1)]] .
  ultimately show ?thesis using assms(2) free_count [OF assms(1)] by simp
qed

text \<open>Releasing what was allocated, in any order, restores every reference count and the set of free
  blocks.\<close>

lemma alloc_release:
  assumes "rep p xs" and "n \<le> length xs" and "mset bs = mset (take n xs)"
  shows "\<exists>p1 p2 ys. alloc (int n) p = Inr (take n xs, p1) \<and> release bs p1 = Inr p2 \<and> rep p2 ys \<and>
    set ys = set xs \<and> cap p2 = cap p \<and> (\<forall>c. refs p2 c = refs p c)"
proof -
  obtain p1 where p1: "alloc (int n) p = Inr (take n xs, p1)" "rep p1 (drop n xs)" "cap p1 = cap p"
    "\<And>c. refs p1 c = (if c \<in> set (take n xs) then 1 else refs p c)" using alloc_enough [OF assms(1,2)] by blast
  have cnt: "count_list bs c = (if c \<in> set (take n xs) then 1 else 0)" for c
    using assms(3) free_distinct [OF assms(1)]
    by (metis count_list_0_iff count_mset distinct_count_atmost_1 distinct_take set_mset_mset)
  have inb: "set bs = set (take n xs)" using assms(3) by (metis set_mset_mset)
  have tk: "0 < c \<and> c < cap p \<and> refs p c = 0" if "c \<in> set (take n xs)" for c
    using that free_iff [OF assms(1), of c] by (auto dest: in_set_takeD)
  have own: "int (count_list bs c) \<le> refs p1 c" if "c \<in> set bs" for c
    using that inb cnt [of c] p1(4) [of c] by simp
  obtain p2 ys where p2: "release bs p1 = Inr p2" "rep p2 ys" "cap p2 = cap p1"
    "\<And>c. refs p2 c = refs p1 c - int (count_list bs c)"
    using release_owned [OF p1(2), of bs] inb tk p1(3) own by auto
  have same: "refs p2 c = refs p c" for c using p2(4) p1(4) cnt tk by auto
  moreover have "set ys = set xs" using free_iff [OF p2(2)] free_iff [OF assms(1)] p2(3) p1(3) same by auto
  ultimately show ?thesis using p1 p2 by auto
qed

text \<open>Sharing blocks and releasing them again, in any order, restores every reference count and the set of
  free blocks.\<close>

lemma share_release:
  assumes "rep p xs" and "\<forall>b \<in> set bs. 0 < b \<and> b < cap p" and "mset cs = mset bs"
  shows "\<exists>p1 p2 ys. share bs p = Inr p1 \<and> release cs p1 = Inr p2 \<and> rep p2 ys \<and>
    set ys = set xs \<and> cap p2 = cap p \<and> (\<forall>c. refs p2 c = refs p c)"
proof -
  obtain p1 where p1: "share bs p = Inr p1" "rep p1 (filter (\<lambda>x. x \<notin> set bs) xs)" "cap p1 = cap p"
    "\<And>c. refs p1 c = refs p c + int (count_list bs c)" using share_any [OF assms(1), of bs] assms(2) by auto
  have cnt: "count_list cs c = count_list bs c" for c using assms(3) by (metis count_mset)
  have inb: "set cs = set bs" using assms(3) by (metis set_mset_mset)
  have own: "int (count_list cs c) \<le> refs p1 c" if "c \<in> set cs" for c
    using that assms(2) inb cnt [of c] p1(4) [of c] refs_nonneg [OF assms(1), of c] by simp
  obtain p2 ys where p2: "release cs p1 = Inr p2" "rep p2 ys" "cap p2 = cap p1"
    "\<And>c. refs p2 c = refs p1 c - int (count_list cs c)"
    using release_owned [OF p1(2), of cs] inb assms(2) p1(3) own by auto
  have same: "refs p2 c = refs p c" for c using p2(4) p1(4) cnt by auto
  moreover have "set ys = set xs" using free_iff [OF p2(2)] free_iff [OF assms(1)] p2(3) p1(3) same by auto
  ultimately show ?thesis using p1 p2 by auto
qed

end

interpretation bp: block_source pool_rep num_gpu_blocks "\<lambda>p c. ref_cnt (blk p c)" get_num_free_blocks
  get_new_blocks touch free_blocks
proof (unfold_locales, goal_cases)
  case (6 p xs k)
  then show ?case using get_new_blocks_spec [of p xs k] by (auto simp: pool_same_n)
next
  case (7 p xs bs)
  then show ?case using touch_spec [of p xs bs] by (auto simp: pool_same_n)
next
  case (8 p xs bs)
  then show ?case using free_blocks_spec [of p xs bs] by (auto simp: pool_same_n)
next
  case (2 p xs)
  then show ?case using fq.rep_real [of "free_block_queue p" xs] by (simp add: pool_rep_def pool_core_def)
qed (simp_all add: pool_rep_free_count get_new_blocks_short, simp_all add: pool_rep_def refs_ok_def)

lemma no_hashes_block_hash: "all_block_hashes p b = [] \<Longrightarrow> block_hash (blk p b) = None"
  by (simp add: all_block_hashes_def split: option.splits)

text \<open>A small pool for the concrete instances below.\<close>

lemma demo_pool:
  "\<exists>p. block_pool_init 4 True 2 False 0 False = Inr p \<and> pool_rep p [1, 2, 3] \<and> num_gpu_blocks p = 4 \<and>
    enable_caching p \<and> hash_block_size p = 2 \<and> \<not> enable_kv_cache_events p \<and>
    (\<forall>b < 4. all_block_hashes p b = [] \<and> ref_cnt (blk p b) = 0)"
proof -
  have "[1..<nat 4] = [1, 2, 3]" by (simp add: upt_rec)
  then show ?thesis using block_pool_init_spec [of 4 True 2 False 0 False] by simp
qed

section \<open>Properties\<close>

text \<open>C19: the pool invariant: a new pool satisfies it with all blocks but the null block free, in order of
  block id, unreferenced and without hashes.\<close>

theorem block_pool_init_establishes_invariant:
  assumes "0 < n"
  shows "\<exists>p. block_pool_init n caching hbs ev pid ui = Inr p \<and> pool_rep p [1..<nat n] \<and>
    num_gpu_blocks p = nat n \<and> enable_caching p = caching \<and> hash_block_size p = hbs \<and>
    enable_kv_cache_events p = ev \<and> (\<forall>b < nat n. all_block_hashes p b = [] \<and> ref_cnt (blk p b) = 0)"
  by (rule block_pool_init_spec [OF assms])

theorem block_pool_init_establishes_invariant_witness:
  "\<exists>p. block_pool_init 4 True 2 False 0 False = Inr p \<and> pool_rep p [1..<nat 4] \<and>
    num_gpu_blocks p = nat 4 \<and> enable_caching p = True \<and> hash_block_size p = 2 \<and>
    enable_kv_cache_events p = False \<and> (\<forall>b < nat 4. all_block_hashes p b = [] \<and> ref_cnt (blk p b) = 0)"
  by (rule block_pool_init_establishes_invariant) simp

text \<open>C5: allocation.  When enough blocks are free, \<^verbatim>\<open>get_new_blocks\<close> returns the first ones of the free list,
  all different, each with exactly one reference and, with caching on, evicted from the prefix cache; no
  other block's references or hashes change and the invariant holds again.  When there are too few it
  raises \<^verbatim>\<open>ValueError\<close>.\<close>

theorem get_new_blocks_allocates:
  assumes "pool_rep p xs" and "0 \<le> n"
  shows "(int (length xs) < n \<longrightarrow> get_new_blocks n p = Inl ValueError) \<and>
    (n \<le> int (length xs) \<longrightarrow>
      (\<exists>p'. get_new_blocks n p = Inr (take (nat n) xs, p') \<and> distinct (take (nat n) xs) \<and>
        pool_rep p' (drop (nat n) xs) \<and> pool_same p p' \<and>
        (\<forall>c. ref_cnt (blk p' c) = (if c \<in> set (take (nat n) xs) then 1 else ref_cnt (blk p c))) \<and>
        (\<forall>c. all_block_hashes p' c =
           (if c \<in> set (take (nat n) xs) \<and> enable_caching p then [] else all_block_hashes p c))))"
  using get_new_blocks_short [OF assms(1)] get_new_blocks_spec [OF assms(1), of "nat n"] assms(2)
    bp.free_distinct [OF assms(1)] by (auto simp: nat_le_iff)

theorem get_new_blocks_allocates_witness:
  "\<exists>p p'. block_pool_init 4 True 2 False 0 False = Inr p \<and> get_new_blocks 2 p = Inr ([1, 2], p') \<and>
    pool_rep p' [3] \<and> ref_cnt (blk p' 1) = 1 \<and> ref_cnt (blk p' 3) = 0 \<and> get_new_blocks 4 p = Inl ValueError"
proof -
  obtain p where p: "block_pool_init 4 True 2 False 0 False = Inr p" "pool_rep p [1, 2, 3]"
    "\<forall>b < 4. all_block_hashes p b = [] \<and> ref_cnt (blk p b) = 0" using demo_pool by blast
  then show ?thesis
    using p get_new_blocks_allocates [of p "[1, 2, 3]" 2] get_new_blocks_allocates [of p "[1, 2, 3]" 4] by auto
qed

text \<open>C6: release.  Freeing blocks one owns lowers each reference count by the number of releases and returns
  exactly the blocks that reach zero to the free list: those without a hash (or with caching off) to the
  front, in release order, the cached ones to the end, in release order.  Hashes are untouched and the
  invariant holds again.\<close>

theorem free_blocks_releases:
  assumes "pool_rep p xs" and "\<forall>b \<in> set bs. b < num_gpu_blocks p"
    and "\<And>c. c \<in> set bs \<Longrightarrow> 0 < c \<Longrightarrow> occ bs c \<le> ref_cnt (blk p c)"
  shows "\<exists>p' fs. free_blocks bs p = Inr p' \<and> distinct fs \<and>
    set fs = {c \<in> set bs. c \<noteq> 0 \<and> ref_cnt (blk p c) = occ bs c} \<and>
    pool_rep p' (filter (\<lambda>b. block_hash (blk p b) = None \<or> \<not> enable_caching p) fs @ xs @
      filter (\<lambda>b. \<not> (block_hash (blk p b) = None \<or> \<not> enable_caching p)) fs) \<and> pool_same p p' \<and>
    (distinct bs \<longrightarrow> fs = filter (\<lambda>b. ref_cnt (blk p b) = 1 \<and> b \<noteq> 0) bs) \<and>
    (\<forall>c. ref_cnt (blk p' c) = ref_cnt (blk p c) - occ bs c) \<and> all_block_hashes p' = all_block_hashes p"
proof -
  let ?fs = "freed (\<lambda>c. ref_cnt (blk p c)) bs"
  have "distinct ?fs \<and> set ?fs = {c \<in> set bs. c \<noteq> 0 \<and> ref_cnt (blk p c) = occ bs c}"
    by (rule freed_spec) (use assms(3) in simp)
  moreover have "distinct bs \<longrightarrow> ?fs = filter (\<lambda>b. ref_cnt (blk p b) = 1 \<and> b \<noteq> 0) bs"
    using freed_distinct_list by blast
  moreover obtain p' where "free_blocks bs p = Inr p'"
    "pool_rep p' (filter (\<lambda>b. block_hash (blk p b) = None \<or> \<not> enable_caching p) ?fs @ xs @
      filter (\<lambda>b. \<not> (block_hash (blk p b) = None \<or> \<not> enable_caching p)) ?fs)" "pool_same p p'"
    "\<forall>c. ref_cnt (blk p' c) = ref_cnt (blk p c) - occ bs c" "all_block_hashes p' = all_block_hashes p"
    using free_blocks_spec [OF assms] by blast
  ultimately show ?thesis by (intro exI [of _ p'] exI [of _ ?fs]) simp
qed

theorem free_blocks_releases_witness:
  "\<exists>p p1 p2. block_pool_init 4 True 2 False 0 False = Inr p \<and> get_new_blocks (int 2) p = Inr ([1, 2], p1) \<and>
    free_blocks [2, 1] p1 = Inr p2 \<and> ref_cnt (blk p2 1) = 0"
proof -
  obtain p where p: "block_pool_init 4 True 2 False 0 False = Inr p" "pool_rep p [1, 2, 3]" "num_gpu_blocks p = 4"
    using demo_pool by blast
  obtain p1 where p1: "get_new_blocks (int 2) p = Inr (take 2 [1, 2, 3], p1)" "pool_rep p1 (drop 2 [1, 2, 3])" "pool_same p p1"
    "\<forall>c. ref_cnt (blk p1 c) = (if c \<in> set (take 2 [1, 2, 3]) then 1 else ref_cnt (blk p c))"
    using get_new_blocks_spec [OF p(2), of 2] by auto
  have r: "ref_cnt (blk p1 1) = 1" "ref_cnt (blk p1 2) = 1" using p1(4) by simp_all
  have "\<forall>b \<in> set [2, 1]. b < num_gpu_blocks p1" using p(3) pool_same_n [OF p1(3)] by simp
  moreover have "occ [2, 1] c \<le> ref_cnt (blk p1 c)" if "c \<in> set [2, 1]" for c using that r by auto
  ultimately obtain p2 where p2: "free_blocks [2, 1] p1 = Inr p2"
    "\<forall>c. ref_cnt (blk p2 c) = ref_cnt (blk p1 c) - occ [2, 1] c"
    using free_blocks_releases [OF p1(2), of "[2, 1]"] by blast
  have "ref_cnt (blk p2 1) = 0" using p2(2) r(1) by simp
  then show ?thesis using p(1) p1(1) p2(1) by auto
qed



text \<open>C13: sharing is undone by releasing: touching any cached blocks (each as often as it is hit) and freeing
  them in any order succeeds and restores every reference count and the set of free blocks.\<close>

theorem touch_then_free_restores:
  assumes "pool_rep p xs" and "\<forall>b \<in> set bs. 0 < b \<and> b < num_gpu_blocks p" and "mset cs = mset bs"
  shows "\<exists>p1 p2 ys. touch bs p = Inr p1 \<and> free_blocks cs p1 = Inr p2 \<and> pool_rep p2 ys \<and>
    set ys = set xs \<and> num_gpu_blocks p2 = num_gpu_blocks p \<and> (\<forall>c. ref_cnt (blk p2 c) = ref_cnt (blk p c))"
  by (rule bp.share_release [OF assms])

theorem touch_then_free_restores_witness:
  "\<exists>p p1 p2 ys. block_pool_init 4 True 2 False 0 False = Inr p \<and> touch [1, 3, 1] p = Inr p1 \<and>
    free_blocks [3, 1, 1] p1 = Inr p2 \<and> pool_rep p2 ys \<and> set ys = {1, 2, 3}"
proof -
  obtain p where p: "block_pool_init 4 True 2 False 0 False = Inr p" "pool_rep p [1, 2, 3]" "num_gpu_blocks p = 4"
    using demo_pool by blast
  then show ?thesis using touch_then_free_restores [of p "[1, 2, 3]" "[1, 3, 1]" "[3, 1, 1]"] by fastforce
qed

text \<open>C10: a prefix-cache lookup is sound and complete.  A hit returns one block per group, never the null
  block, each cached under exactly the key of that hash and group; a miss means that for some group no
  block of the pool is cached under its key.\<close>

theorem get_cached_block_sound_and_complete:
  assumes "pool_rep p xs" and "get_cached_block p bh gs = Inr res"
  shows "case res of
      Some bs \<Rightarrow> list_all2 (\<lambda>g b. \<exists>key. make_block_hash_with_group_id bh g = Inr key \<and> 0 < b \<and>
        b < num_gpu_blocks p \<and> key \<in> set (all_block_hashes p b)) gs bs
    | None \<Rightarrow> \<exists>g \<in> set gs. \<exists>key. make_block_hash_with_group_id bh g = Inr key \<and>
        (\<forall>b < num_gpu_blocks p. key \<notin> set (all_block_hashes p b))"
  using get_cached_block_spec assms by (auto simp: pool_rep_def pool_core_def)

theorem get_cached_block_sound_and_complete_witness:
  "\<exists>p. block_pool_init 4 True 2 False 0 False = Inr p \<and> get_cached_block p [7] [0] = Inr None \<and>
    (\<forall>b < 4. [7, 0, 0, 0, 0] \<notin> set (all_block_hashes p b))"
proof -
  obtain p where p: "block_pool_init 4 True 2 False 0 False = Inr p" "pool_rep p [1, 2, 3]" "num_gpu_blocks p = 4"
    "\<forall>b < 4. all_block_hashes p b = [] \<and> ref_cnt (blk p b) = 0" using demo_pool by blast
  have key: "make_block_hash_with_group_id [7] 0 = Inr [7, 0, 0, 0, 0]"
    by (simp add: make_block_hash_with_group_id_def to_bytes_big_def numeral_eq_Suc)
  have "b \<notin> set (bm_ids (cached_block_hash_to_block p) k)" for b k
    using p by (simp add: pool_rep_def pool_core_def hash_ok_def)
  then have "bm_ids (cached_block_hash_to_block p) k = []" for k by (meson list.set_sel(1))
  moreover have "bm_ok (cached_block_hash_to_block p)" using p(2) by (simp add: pool_rep_def pool_core_def hash_ok_def)
  ultimately have "get_cached_block p [7] [0] = Inr None" by (simp add: key bm.get_first)
  then show ?thesis using get_cached_block_sound_and_complete [OF p(2)] p(1,3) key by fastforce
qed

text \<open>C7: caching full blocks.  Whatever \<^verbatim>\<open>cache_full_blocks\<close> does when it returns, it keeps the invariant, the
  free list and all reference counts, and every non-null, unmasked block of the range ends up cached
  under exactly one key: the hash of the request's prefix at that block, packed with the group id (a
  partial hash the block had before is gone).\<close>

theorem cache_full_blocks_registers_prefix_hashes:
  assumes "pool_rep p xs" and "\<forall>b \<in> set bl. b < num_gpu_blocks p"
    and "cache_full_blocks dg r bl nc nf bsz g msk p = Inr (r', p')"
    and "distinct (filter (\<lambda>b. b \<noteq> 0) bl)" and "0 \<le> nc" and "0 \<le> i" and "i < nf - nc" and "nat (nc + i) < length bl"
    and "bl ! nat (nc + i) \<noteq> 0" and "\<not> masked_out msk (nat i)"
  shows "pool_rep p' xs \<and> pool_same p p' \<and> (\<forall>c. ref_cnt (blk p' c) = ref_cnt (blk p c)) \<and>
    (\<exists>bhl bhs bh key. resolve_block_hashes (Raw (block_hashes r)) (hash_block_size p) bsz False None = Inr bhl \<and>
      bhl_from bhl nc = Inr bhs \<and> py_index bhs i = Inr bh \<and> make_block_hash_with_group_id bh g = Inr key \<and>
      all_block_hashes p' (bl ! nat (nc + i)) = [key])"
proof -
  have "kept p p'" by (rule cache_full_blocks_spec(1) [OF assms(1-3)])
  then show ?thesis using kept_pool_rep assms(1) cache_full_blocks_spec(2) [OF assms(1-5,7,6,8-10)]
    unfolding kept_def by blast
qed

theorem cache_full_blocks_registers_prefix_hashes_witness:
  "\<exists>p p' r' key. block_pool_init 4 True 2 False 0 False = Inr p \<and>
    cache_full_blocks concat ((plain_request ''a'' [1, 2])\<lparr>block_hashes := [[9]]\<rparr>) [1] 0 1 2 0 None p = Inr (r', p') \<and>
    pool_rep p' [1, 2, 3] \<and> make_block_hash_with_group_id [9] 0 = Inr key \<and> all_block_hashes p' 1 = [key]"
proof -
  obtain p where p: "block_pool_init 4 True 2 False 0 False = Inr p" "pool_rep p [1, 2, 3]" "num_gpu_blocks p = 4"
    "hash_block_size p = 2" "\<not> enable_kv_cache_events p" "\<forall>b < 4. all_block_hashes p b = [] \<and> ref_cnt (blk p b) = 0"
    using demo_pool by blast
  let ?r = "(plain_request ''a'' [1, 2])\<lparr>block_hashes := [[9]]\<rparr>"
  have core: "hash_ok p" "\<not> is_null (blk p 1)" "block_hash (blk p 1) = None"
    using p by (simp_all add: pool_rep_def pool_core_def pool_shape_def no_hashes_block_hash)
  obtain key where key: "make_block_hash_with_group_id [9] 0 = Inr key"
    by (simp add: make_block_hash_with_group_id_def to_bytes_big_def)
  obtain p' where p': "insert_block_hash key 1 (Some 2) p = Inr p'" "kept p p'"
    using insert_fresh_spec [OF core(1), of 1 key "Some 2"] p by auto
  have "\<not> enable_kv_cache_events p'" using p'(2) p(5) by (simp add: kept_def pool_same_def)
  then have run: "cache_full_blocks concat ?r [1] 0 1 2 0 None p = Inr (?r, p')"
    using p core key p'(1)
    by (simp add: cache_full_blocks_def cache_full_block_def cache_full_blocks_event_def resolve_block_hashes_def
        py_slice_nonneg py_index_def masked_out_def)
  moreover have "pool_rep p' [1, 2, 3]" "all_block_hashes p' 1 = [key]"
    using cache_full_blocks_registers_prefix_hashes [OF p(2) _ run, of 0] p key
    by (auto simp: masked_out_def resolve_block_hashes_def py_slice_nonneg py_index_def)
  ultimately show ?thesis using p(1) key by blast
qed

end
