(* ===== verification/KV_Spec.thy ===== *)
theory KV_Spec
  imports Prelude
begin

text \<open>
  The parts of the KV cache specifications (\<^verbatim>\<open>v1/kv_cache_interface.py\<close>) and of the manager classes of
  \<^verbatim>\<open>v1/core/single_type_kv_cache_manager.py\<close> that are plain arithmetic: which tokens an attention type no longer
  needs, how many blocks a request may hold at admission, and which blocks are worth caching. Every specification
  has the manager class that the registry assigns to it, so the constructor of \<^verbatim>\<open>spec_kind\<close> also names the class.
  Block, window and chunk sizes are positive, as the configuration guarantees.
\<close>

section \<open>Specifications\<close>

datatype spec_kind =
    FullAttentionSpec
  | RSWASpec int
  | SlidingWindowSpec int int
  | KpoolTailSpec
  | CircularBufferSpec
  | ChunkedLocalAttentionSpec int
  | MambaSpec string int int
  | CrossAttentionSpec
  | SinkFullAttentionSpec "int option"

text \<open>\<^verbatim>\<open>spec_rest\<close> encodes the fields of the dataclass that the managers do not read; they matter for equality only.\<close>

record kv_spec =
  spec_kind :: spec_kind
  spec_block_size :: int
  spec_rest :: int

definition is_full_attention :: "spec_kind \<Rightarrow> bool" where
  "is_full_attention k =
     (case k of FullAttentionSpec \<Rightarrow> True | RSWASpec _ \<Rightarrow> True | SinkFullAttentionSpec _ \<Rightarrow> True | _ \<Rightarrow> False)"

text \<open>\<^verbatim>\<open>KpoolTailSpec\<close> is a subclass of the sliding window specification.\<close>

definition is_sliding_window :: "spec_kind \<Rightarrow> bool" where
  "is_sliding_window k = (case k of SlidingWindowSpec _ _ \<Rightarrow> True | KpoolTailSpec \<Rightarrow> True | _ \<Rightarrow> False)"

definition is_mamba :: "spec_kind \<Rightarrow> bool" where
  "is_mamba k = (case k of MambaSpec _ _ _ \<Rightarrow> True | _ \<Rightarrow> False)"

definition is_attention :: "spec_kind \<Rightarrow> bool" where
  "is_attention k \<longleftrightarrow> \<not> is_mamba k"

definition participates_in_prefix_caching :: "spec_kind \<Rightarrow> bool" where
  "participates_in_prefix_caching k = (case k of KpoolTailSpec \<Rightarrow> False | CircularBufferSpec \<Rightarrow> False | _ \<Rightarrow> True)"

definition supports_fine_grained_hash_lookup :: "spec_kind \<Rightarrow> bool" where
  "supports_fine_grained_hash_lookup k \<longleftrightarrow> is_full_attention k \<or> is_mamba k"

text \<open>The per-request admission cap; the manager factory asks for it for sliding-window and chunked-local
  specifications only.\<close>

definition chunked_max_admission :: "int \<Rightarrow> int \<Rightarrow> int \<Rightarrow> int \<Rightarrow> int" where
  "chunked_max_admission chunk block_size max_in_flight_tokens max_model_len =
     cdiv (min (chunk + max_in_flight_tokens) max_model_len) block_size"

definition swa_max_admission :: "int \<Rightarrow> int \<Rightarrow> int \<Rightarrow> int \<Rightarrow> int \<Rightarrow> int" where
  "swa_max_admission window extra block_size max_in_flight_tokens max_model_len =
     cdiv (min (window - 1 + extra + max_in_flight_tokens) max_model_len) block_size + 1"

definition max_admission_blocks_per_request :: "kv_spec \<Rightarrow> int \<Rightarrow> int \<Rightarrow> int option" where
  "max_admission_blocks_per_request sp max_in_flight_tokens max_model_len =
     (case spec_kind sp of
        ChunkedLocalAttentionSpec chunk \<Rightarrow>
          Some (chunked_max_admission chunk (spec_block_size sp) max_in_flight_tokens max_model_len)
      | SlidingWindowSpec window extra \<Rightarrow>
          Some (swa_max_admission window extra (spec_block_size sp) max_in_flight_tokens max_model_len)
      | KpoolTailSpec \<Rightarrow> Some 1
      | _ \<Rightarrow> None)"

lemmas max_admission_defs = max_admission_blocks_per_request_def chunked_max_admission_def swa_max_admission_def

section \<open>Tokens that attention no longer reads\<close>

definition swa_num_skipped_tokens :: "int \<Rightarrow> int \<Rightarrow> int \<Rightarrow> int" where
  "swa_num_skipped_tokens window extra num_computed_tokens = max 0 (num_computed_tokens - window + 1 - extra)"

definition chunked_num_skipped_tokens :: "int \<Rightarrow> int \<Rightarrow> int" where
  "chunked_num_skipped_tokens chunk num_computed_tokens = num_computed_tokens div chunk * chunk"

definition mamba_num_skipped_tokens :: "int \<Rightarrow> int" where
  "mamba_num_skipped_tokens num_computed_tokens = num_computed_tokens - 1"

definition get_num_skipped_tokens :: "spec_kind \<Rightarrow> int \<Rightarrow> int" where
  "get_num_skipped_tokens k num_computed_tokens =
     (case k of
        SlidingWindowSpec window extra \<Rightarrow> swa_num_skipped_tokens window extra num_computed_tokens
      | ChunkedLocalAttentionSpec chunk \<Rightarrow> chunked_num_skipped_tokens chunk num_computed_tokens
      | MambaSpec _ _ _ \<Rightarrow> mamba_num_skipped_tokens num_computed_tokens
      | _ \<Rightarrow> 0)"

lemmas num_skipped_defs =
  get_num_skipped_tokens_def swa_num_skipped_tokens_def chunked_num_skipped_tokens_def mamba_num_skipped_tokens_def

text \<open>The first token that computing the token at position \<^verbatim>\<open>pos\<close> reads.\<close>

definition window_start :: "spec_kind \<Rightarrow> int \<Rightarrow> int" where
  "window_start k pos =
     (case k of
        SlidingWindowSpec window _ \<Rightarrow> max 0 (pos - window + 1)
      | ChunkedLocalAttentionSpec chunk \<Rightarrow> pos - pos mod chunk
      | _ \<Rightarrow> 0)"

section \<open>Blocks worth caching\<close>

definition contiguous_blocks_for_hit :: "int \<Rightarrow> int \<Rightarrow> bool \<Rightarrow> int" where
  "contiguous_blocks_for_hit window_size block_size use_eagle =
     cdiv (window_size - 1) block_size + (if use_eagle then 1 else 0)"

text \<open>The segment length of sparse retention: \<^verbatim>\<open>None\<close> keeps a tail at every alignment boundary, 0 keeps none.\<close>

definition segment_tokens :: "int \<Rightarrow> int option \<Rightarrow> int option" where
  "segment_tokens alignment_tokens retention_interval =
     (case retention_interval of
        None \<Rightarrow> Some alignment_tokens
      | Some r \<Rightarrow> if r = 0 then None else Some r)"

definition in_boundary_tail :: "int \<Rightarrow> int \<Rightarrow> int \<Rightarrow> int \<Rightarrow> int \<Rightarrow> int \<Rightarrow> bool" where
  "in_boundary_tail alignment_tokens block_size need shift boundary_tokens j \<longleftrightarrow>
     (let aligned = boundary_tokens div alignment_tokens * alignment_tokens;
          tail_end = aligned div block_size + shift
      in tail_end - need \<le> j \<and> j < tail_end)"

definition swa_block_mask ::
  "int \<Rightarrow> int \<Rightarrow> int \<Rightarrow> int \<Rightarrow> int option \<Rightarrow> bool \<Rightarrow> int option \<Rightarrow> int list \<Rightarrow> bool list option result" where
  "swa_block_mask window block_size start_block end_block alignment use_eagle retention_interval reachable_boundaries =
     (case alignment of
        None \<Rightarrow> Inr None
      | Some alignment_tokens \<Rightarrow>
          if alignment_tokens mod block_size \<noteq> 0 then Inl AssertionError
          else
            let need = contiguous_blocks_for_hit window block_size use_eagle;
                shift = (if use_eagle then 1 else 0);
                seg = segment_tokens alignment_tokens retention_interval;
                per_segment = (case seg of None \<Rightarrow> 0 | Some s \<Rightarrow> s div block_size)
            in if seg \<noteq> None \<and> need \<ge> per_segment then Inr None
               else Inr (Some (map (\<lambda>i.
                      (seg \<noteq> None \<and> i \<ge> shift \<and> (i - shift) mod per_segment \<ge> per_segment - need) \<or>
                      (retention_interval \<noteq> None \<and>
                       (\<exists>b \<in> set reachable_boundaries. in_boundary_tail alignment_tokens block_size need shift b i)))
                    [start_block..end_block - 1])))"

definition mamba_block_mask ::
  "int \<Rightarrow> int \<Rightarrow> int \<Rightarrow> int option \<Rightarrow> int option \<Rightarrow> int list \<Rightarrow> bool list option" where
  "mamba_block_mask block_size start_block end_block alignment retention_interval reachable_boundaries =
     (case (retention_interval, alignment) of
        (Some r, Some alignment_tokens) \<Rightarrow>
          let per_segment = r div block_size;
              first_boundary = (start_block + per_segment) div per_segment * per_segment - 1
          in if r \<noteq> 0 \<and> per_segment \<le> 1 then None
             else Some (map (\<lambda>i.
                    (r \<noteq> 0 \<and> first_boundary \<le> i \<and> (i - first_boundary) mod per_segment = 0) \<or>
                    (\<exists>b \<in> set reachable_boundaries.
                       i = b div alignment_tokens * alignment_tokens div block_size - 1))
                  [start_block..end_block - 1])
      | _ \<Rightarrow> None)"

section \<open>Properties\<close>

text \<open>C27: No block is released while attention can still read it: the tokens that a sliding-window or chunked-local
  layer skips after \<^verbatim>\<open>c\<close> computed tokens all lie before the window of every token computed from then on.\<close>

theorem skipped_tokens_are_outside_window:
  assumes "0 \<le> c" and "c \<le> pos" and "\<not> is_mamba k"
    and "\<And>w e. k = SlidingWindowSpec w e \<Longrightarrow> 0 < w \<and> 0 \<le> e" and "\<And>n. k = ChunkedLocalAttentionSpec n \<Longrightarrow> 0 < n"
  shows "0 \<le> get_num_skipped_tokens k c \<and> get_num_skipped_tokens k c \<le> window_start k pos \<and>
    get_num_skipped_tokens k c \<le> c"
proof (cases k)
  case (ChunkedLocalAttentionSpec n)
  then have n: "0 < n" using assms(5) by simp
  then have "c div n * n \<le> pos div n * n" using assms(2) by (intro mult_right_mono zdiv_mono1) auto
  moreover have "pos - pos mod n = pos div n * n" by (simp add: minus_mod_eq_div_mult)
  moreover have "c = c div n * n + c mod n" "0 \<le> c mod n" using n by simp_all
  moreover have "0 \<le> c div n * n" using n assms(1) by (simp add: pos_imp_zdiv_nonneg_iff)
  ultimately have "0 \<le> c div n * n \<and> c div n * n \<le> pos - pos mod n \<and> c div n * n \<le> c" by linarith
  then show ?thesis using ChunkedLocalAttentionSpec by (simp add: num_skipped_defs window_start_def)
qed (use assms in \<open>auto simp: num_skipped_defs window_start_def is_mamba_def\<close>)

theorem skipped_tokens_are_outside_window_witness:
  "get_num_skipped_tokens (SlidingWindowSpec 4 0) 7 = 4 \<and> window_start (SlidingWindowSpec 4 0) 7 = 4 \<and>
   (4::int) \<le> window_start (SlidingWindowSpec 4 0) 9"
  using skipped_tokens_are_outside_window [of 7 9 "SlidingWindowSpec 4 0"]
  by (simp add: is_mamba_def num_skipped_defs window_start_def)

text \<open>The blocks that cover the tokens from \<^verbatim>\<open>s\<close> on.\<close>

lemma held_blocks_bound:
  assumes "0 < bs"
  shows "cdiv n bs - s div bs \<le> cdiv (n - s) bs + 1" and "s mod bs = 0 \<Longrightarrow> cdiv n bs - s div bs \<le> cdiv (n - s) bs"
proof -
  have s: "s = s div bs * bs + s mod bs" "s mod bs < bs" using assms by simp_all
  have n: "n - s \<le> cdiv (n - s) bs * bs" using cdiv_bounds(1) [OF assms] .
  have "(cdiv (n - s) bs + 1 + s div bs) * bs = cdiv (n - s) bs * bs + bs + s div bs * bs" by (simp add: algebra_simps)
  then have "n \<le> (cdiv (n - s) bs + 1 + s div bs) * bs" using s n by linarith
  then show "cdiv n bs - s div bs \<le> cdiv (n - s) bs + 1"
    using cdiv_le_iff [OF assms, of n "cdiv (n - s) bs + 1 + s div bs"] by linarith
  assume "s mod bs = 0"
  moreover have "(cdiv (n - s) bs + s div bs) * bs = cdiv (n - s) bs * bs + s div bs * bs" by (simp add: algebra_simps)
  ultimately have "n \<le> (cdiv (n - s) bs + s div bs) * bs" using s n by linarith
  then show "cdiv n bs - s div bs \<le> cdiv (n - s) bs"
    using cdiv_le_iff [OF assms, of n "cdiv (n - s) bs + s div bs"] by linarith
qed

text \<open>C28: The admission cap is an upper bound on what a request holds: when at most \<^verbatim>\<open>inflight\<close> tokens are scheduled
  beyond the processed ones, the blocks for \<^verbatim>\<open>n\<close> tokens without those skipped at the processed boundary never exceed
  the cap. A chunk size is a multiple of the block size, as the attention backend asserts.\<close>

theorem admission_cap_covers_held_blocks:
  assumes "max_admission_blocks_per_request sp inflight max_model_len = Some cap" and "spec_kind sp \<noteq> KpoolTailSpec"
    and "0 < spec_block_size sp" and "0 \<le> processed" and "n \<le> processed + inflight" and "n \<le> max_model_len"
    and "\<And>chunk. spec_kind sp = ChunkedLocalAttentionSpec chunk \<Longrightarrow> 0 < chunk \<and> chunk mod spec_block_size sp = 0"
  shows "cdiv n (spec_block_size sp) - get_num_skipped_tokens (spec_kind sp) processed div spec_block_size sp \<le> cap"
proof -
  let ?bs = "spec_block_size sp" and ?s = "get_num_skipped_tokens (spec_kind sp) processed"
  note mono = cdiv_mono [OF assms(3)] and held = held_blocks_bound [OF assms(3), where n = n and s = ?s]
  show ?thesis
  proof (cases "spec_kind sp")
    case (SlidingWindowSpec w e)
    have "cdiv n ?bs - ?s div ?bs \<le> cdiv (min (w - 1 + e + inflight) max_model_len) ?bs + 1"
    proof (cases "?s = 0")
      case True
      then have "n \<le> min (w - 1 + e + inflight) max_model_len"
        using SlidingWindowSpec assms(5,6) by (auto simp: num_skipped_defs)
      from mono [OF this] True show ?thesis by simp
    next
      case False
      then have "n - ?s \<le> min (w - 1 + e + inflight) max_model_len"
        using SlidingWindowSpec assms(5,6) by (auto simp: num_skipped_defs)
      from mono [OF this] held(1) show ?thesis by linarith
    qed
    then show ?thesis using SlidingWindowSpec assms(1) by (simp add: max_admission_defs)
  next
    case (ChunkedLocalAttentionSpec c)
    then have c: "0 < c" "c mod ?bs = 0" using assms(7) by auto
    have s: "?s = processed div c * c" using ChunkedLocalAttentionSpec by (simp add: num_skipped_defs)
    have "processed - ?s < c" using c(1) s pos_mod_bound [OF c(1), of processed] by (simp add: minus_div_mult_eq_mod)
    moreover have "0 \<le> ?s" using s c(1) assms(4) by (simp add: pos_imp_zdiv_nonneg_iff)
    ultimately have "n - ?s \<le> min (c + inflight) max_model_len" using assms(5,6) by linarith
    moreover have "?s mod ?bs = 0" using c(2) s by (metis dvd_imp_mod_0 dvd_mult mod_0_imp_dvd)
    ultimately show ?thesis
      using mono held(2) ChunkedLocalAttentionSpec assms(1) by (fastforce simp: max_admission_defs)
  qed (use assms in \<open>simp_all add: max_admission_defs\<close>)
qed

theorem admission_cap_covers_held_blocks_witness:
  "max_admission_blocks_per_request \<lparr>spec_kind = SlidingWindowSpec 8 0, spec_block_size = 4, spec_rest = 0\<rparr> 4 100 = Some 4 \<and>
   cdiv 24 4 - get_num_skipped_tokens (SlidingWindowSpec 8 0) 20 div 4 \<le> 4"
  using admission_cap_covers_held_blocks [of "\<lparr>spec_kind = SlidingWindowSpec 8 0, spec_block_size = 4, spec_rest = 0\<rparr>" 4 100 4 20 24]
  by (simp add: max_admission_defs cdiv_def)



end
