(* ===== verification/Cache_Hit.thy ===== *)
theory Cache_Hit
  imports Block_Pool KV_Spec
begin

text \<open>
  The prefix-cache lookups \<^verbatim>\<open>find_longest_cache_hit\<close> of the manager classes in
  \<^verbatim>\<open>v1/core/single_type_kv_cache_manager.py\<close>. Each reads the pool and returns one list of blocks per KV cache group
  and the number of tokens hit; skipped positions hold the null block. The lists of the groups are built in parallel
  and have equal lengths.
\<close>

section \<open>Shared steps\<close>

text \<open>\<^verbatim>\<open>if cached_block\<close>: \<^verbatim>\<open>None\<close> and the empty list are both false.\<close>

fun found_row :: "nat list option \<Rightarrow> nat list option" where
  "found_row (Some (b # bs)) = Some (b # bs)"
| "found_row _ = None"

text \<open>\<^verbatim>\<open>for computed, cached in zip(computed_blocks, row): computed.append(cached)\<close>\<close>

definition append_row :: "nat list list \<Rightarrow> nat list \<Rightarrow> nat list list" where
  "append_row cols row = map2 (\<lambda>c b. c @ [b]) cols row"

definition set_row :: "nat \<Rightarrow> nat list list \<Rightarrow> nat list \<Rightarrow> nat list list" where
  "set_row i cols row = map2 (\<lambda>c b. c[i := b]) cols row"

text \<open>\<^verbatim>\<open>len(computed_blocks[0])\<close>\<close>

definition first_len :: "nat list list \<Rightarrow> nat result" where
  "first_len cols = (case cols of [] \<Rightarrow> Inl IndexError | c # _ \<Rightarrow> Inr (length c))"

section \<open>Full attention\<close>

text \<open>Phase 1: the longest run of cached full blocks from the start.\<close>

fun full_scan :: "block_pool \<Rightarrow> int list \<Rightarrow> block_hash_list \<Rightarrow> nat list \<Rightarrow> nat list list \<Rightarrow> nat list list result" where
  "full_scan p gids bhl [] cols = Inr cols"
| "full_scan p gids bhl (i # is) cols =
     bindE (bhl_get bhl (int i)) (\<lambda>h.
     bindE (get_cached_block p h gids) (\<lambda>c.
       case found_row c of None \<Rightarrow> Inr cols | Some row \<Rightarrow> full_scan p gids bhl is (append_row cols row)))"

text \<open>Phase 2: probe the interior hash boundaries of the first block that missed, from the highest down.\<close>

fun fine_probe :: "block_pool \<Rightarrow> int list \<Rightarrow> bytes list \<Rightarrow> int \<Rightarrow> nat \<Rightarrow> (int \<times> nat list) option result" where
  "fine_probe p gids hs first 0 = Inr None"
| "fine_probe p gids hs first (Suc k) =
     bindE (py_index hs (first + int k)) (\<lambda>h.
     bindE (get_cached_block p h gids) (\<lambda>c.
       case found_row c of None \<Rightarrow> fine_probe p gids hs first k | Some row \<Rightarrow> Inr (Some (first + int k, row))))"

definition full_fine_tail ::
  "block_pool \<Rightarrow> int list \<Rightarrow> bytes list \<Rightarrow> int \<Rightarrow> int \<Rightarrow> int \<Rightarrow> nat \<Rightarrow> nat list list \<Rightarrow> (nat list list \<times> int) result" where
  "full_fine_tail p gids hs block_size alignment_tokens max_length n cols =
     (let scale_factor = block_size div alignment_tokens;
          first_partial_idx = int n * scale_factor;
          max_partial_idx = min (first_partial_idx + scale_factor - 1)
            (min (max_length div alignment_tokens) (int (length hs)))
      in bindE (fine_probe p gids hs first_partial_idx (nat (max_partial_idx - first_partial_idx))) (\<lambda>r.
           case r of
             None \<Rightarrow> Inr (cols, int n * block_size)
           | Some (fine_idx, row) \<Rightarrow> Inr (append_row cols row, (fine_idx + 1) * alignment_tokens)))"

definition full_find_longest_cache_hit ::
  "block_pool \<Rightarrow> kv_spec \<Rightarrow> block_hash_list \<Rightarrow> int \<Rightarrow> int list \<Rightarrow> bool \<Rightarrow> int \<Rightarrow> int \<Rightarrow> (nat list list \<times> int) result" where
  "full_find_longest_cache_hit p sp hashes max_length gids drop_eagle_block alignment_tokens dcp_world_size =
     (let block_size = (if dcp_world_size > 1 then spec_block_size sp * dcp_world_size else spec_block_size sp);
          fine_grained = (alignment_tokens < block_size \<and> block_size mod alignment_tokens = 0)
      in bindE (resolve_block_hashes hashes (hash_block_size p) block_size
                  (supports_fine_grained_hash_lookup (spec_kind sp)) (Some alignment_tokens)) (\<lambda>bhl.
         bindE (if fine_grained
                then (case bhl of Raw hs \<Rightarrow> block_hash_view hs alignment_tokens block_size | View _ _ \<Rightarrow> Inl AssertionError)
                else Inr bhl) (\<lambda>full_hashes.
         if max_length div block_size < 0 then Inl ValueError
         else
           bindE (full_scan p gids full_hashes [0..<nat (min (max_length div block_size) (bhl_len full_hashes))]
                    (replicate (length gids) [])) (\<lambda>cols.
           bindE (first_len cols) (\<lambda>n.
           bindE (if fine_grained
                  then (case bhl of
                          Raw hs \<Rightarrow> full_fine_tail p gids hs block_size alignment_tokens max_length n cols
                        | View _ _ \<Rightarrow> Inl AssertionError)
                  else Inr (cols, int n * block_size)) (\<lambda>(cols', hit).
             let hit1 = (if drop_eagle_block \<and> hit > 0 then hit - min alignment_tokens block_size else hit);
                 hit2 = hit1 - hit1 mod alignment_tokens
             in Inr (map (take (nat (cdiv hit2 block_size))) cols', hit2)))))))"

section \<open>Sliding window\<close>

text \<open>The search from right to left for enough contiguous cached blocks; \<^verbatim>\<open>n\<close> blocks are left to visit.\<close>

fun swa_scan ::
  "block_pool \<Rightarrow> int list \<Rightarrow> block_hash_list \<Rightarrow> int \<Rightarrow> int \<Rightarrow> bool \<Rightarrow> int \<Rightarrow> nat \<Rightarrow> nat list list \<Rightarrow> nat \<Rightarrow>
   (nat list list \<times> nat \<times> bool) result" where
  "swa_scan p gids bhl block_size alignment_tokens drop_eagle_block need 0 cols num_contiguous =
     Inr (cols, num_contiguous, False)"
| "swa_scan p gids bhl block_size alignment_tokens drop_eagle_block need (Suc i) cols num_contiguous =
     bindE (bhl_get bhl (int i)) (\<lambda>h.
     bindE (get_cached_block p h gids) (\<lambda>c.
       case found_row c of
         None \<Rightarrow> swa_scan p gids bhl block_size alignment_tokens drop_eagle_block need i cols 0
       | Some row \<Rightarrow>
           if num_contiguous = 0 \<and> block_size \<noteq> alignment_tokens \<and>
              ((if drop_eagle_block then int i else int i + 1) * block_size) mod alignment_tokens \<noteq> 0
           then swa_scan p gids bhl block_size alignment_tokens drop_eagle_block need i cols num_contiguous
           else let cols' = set_row i cols row; nc = Suc num_contiguous
                in if int nc \<ge> need then Inr (map (take (i + nc)) cols', nc, True)
                   else swa_scan p gids bhl block_size alignment_tokens drop_eagle_block need i cols' nc))"

text \<open>\<^verbatim>\<open>while block_size != alignment_tokens and len(...) * block_size % alignment_tokens != 0: pop\<close>, as the final length.\<close>

fun pop_until_aligned :: "int \<Rightarrow> int \<Rightarrow> nat \<Rightarrow> nat" where
  "pop_until_aligned block_size alignment_tokens 0 = 0"
| "pop_until_aligned block_size alignment_tokens (Suc n) =
     (if block_size \<noteq> alignment_tokens \<and> (int (Suc n) * block_size) mod alignment_tokens \<noteq> 0
      then pop_until_aligned block_size alignment_tokens n else Suc n)"

definition swa_find_longest_cache_hit ::
  "block_pool \<Rightarrow> kv_spec \<Rightarrow> int \<Rightarrow> block_hash_list \<Rightarrow> int \<Rightarrow> int list \<Rightarrow> bool \<Rightarrow> int \<Rightarrow> int \<Rightarrow> int \<Rightarrow>
   (nat list list \<times> int) result" where
  "swa_find_longest_cache_hit p sp window hashes max_length gids drop_eagle_block alignment_tokens
     dcp_world_size pcp_world_size =
     (if dcp_world_size \<noteq> 1 then Inl AssertionError
      else if pcp_world_size \<noteq> 1 then Inl AssertionError
      else if alignment_tokens mod spec_block_size sp \<noteq> 0 then Inl AssertionError
      else
        let block_size = spec_block_size sp in
        bindE (resolve_block_hashes hashes (hash_block_size p) block_size False (Some alignment_tokens)) (\<lambda>bhl.
        let need = contiguous_blocks_for_hit window block_size drop_eagle_block;
            max_num_blocks = nat (max_length div block_size)
        in bindE (swa_scan p gids bhl block_size alignment_tokens drop_eagle_block need max_num_blocks
                    (replicate (length gids) (replicate max_num_blocks (null_block p))) 0) (\<lambda>(cols, nc, match_found).
           let cols1 = (if match_found then cols else map (take (pop_until_aligned block_size alignment_tokens nc)) cols)
           in bindE (first_len cols1) (\<lambda>n.
                let n2 = (if drop_eagle_block \<and> n > 0 then pop_until_aligned block_size alignment_tokens (n - 1) else n)
                in Inr (map (take n2) cols1, int n2 * block_size)))))"

section \<open>Chunked local attention\<close>

definition chunked_find_longest_cache_hit ::
  "block_pool \<Rightarrow> kv_spec \<Rightarrow> int \<Rightarrow> block_hash_list \<Rightarrow> int \<Rightarrow> int list \<Rightarrow> bool \<Rightarrow> int \<Rightarrow> int \<Rightarrow> int \<Rightarrow>
   (nat list list \<times> int) result" where
  "chunked_find_longest_cache_hit p sp chunk hashes max_length gids drop_eagle_block alignment_tokens
     dcp_world_size pcp_world_size =
     (if drop_eagle_block then Inl AssertionError
      else if dcp_world_size \<noteq> 1 then Inl AssertionError
      else if pcp_world_size \<noteq> 1 then Inl AssertionError
      else if spec_block_size sp \<noteq> alignment_tokens then Inl AssertionError
      else
        let block_size = spec_block_size sp in
        bindE (resolve_block_hashes hashes (hash_block_size p) block_size False (Some alignment_tokens)) (\<lambda>bhl.
        let max_num_blocks = max_length div block_size;
            local_attention_start_idx = (if max_length > 0 then max_length div chunk * chunk else 0);
            start_block = local_attention_start_idx div block_size
        in bindE (full_scan p gids bhl [nat start_block..<nat max_num_blocks]
                    (replicate (length gids) (replicate (nat start_block) (null_block p)))) (\<lambda>cols.
           bindE (first_len cols) (\<lambda>n. Inr (cols, int n * block_size)))))"

section \<open>Mamba\<close>

text \<open>The last cached boundary of the hash list, from index \<^verbatim>\<open>k - 1\<close> down.\<close>

fun mamba_fine_scan ::
  "block_pool \<Rightarrow> int list \<Rightarrow> bytes list \<Rightarrow> int \<Rightarrow> int \<Rightarrow> nat \<Rightarrow> (nat list list \<times> int) result" where
  "mamba_fine_scan p gids hs scale_factor hash_size 0 = Inr (replicate (length gids) [], 0)"
| "mamba_fine_scan p gids hs scale_factor hash_size (Suc k) =
     bindE (py_index hs (int k)) (\<lambda>h.
     bindE (get_cached_block p h gids) (\<lambda>c.
       case found_row c of
         None \<Rightarrow> mamba_fine_scan p gids hs scale_factor hash_size k
       | Some row \<Rightarrow>
           Inr (append_row (replicate (length gids) (replicate (nat (int k div scale_factor)) (null_block p))) row,
                (int k + 1) * hash_size)))"

fun mamba_scan ::
  "block_pool \<Rightarrow> int list \<Rightarrow> block_hash_list \<Rightarrow> int \<Rightarrow> int \<Rightarrow> nat \<Rightarrow> (nat list list \<times> int) result" where
  "mamba_scan p gids bhl block_size alignment_tokens 0 = Inr (replicate (length gids) [], 0)"
| "mamba_scan p gids bhl block_size alignment_tokens (Suc i) =
     bindE (bhl_get bhl (int i)) (\<lambda>h.
     bindE (get_cached_block p h gids) (\<lambda>c.
       case found_row c of
         None \<Rightarrow> mamba_scan p gids bhl block_size alignment_tokens i
       | Some row \<Rightarrow>
           if block_size \<noteq> alignment_tokens \<and> ((int i + 1) * block_size) mod alignment_tokens \<noteq> 0
           then mamba_scan p gids bhl block_size alignment_tokens i
           else Inr (append_row (replicate (length gids) (replicate i (null_block p))) row, (int i + 1) * block_size)))"

definition mamba_find_longest_cache_hit ::
  "block_pool \<Rightarrow> kv_spec \<Rightarrow> block_hash_list \<Rightarrow> int \<Rightarrow> int list \<Rightarrow> int \<Rightarrow> int \<Rightarrow> int \<Rightarrow> (nat list list \<times> int) result" where
  "mamba_find_longest_cache_hit p sp hashes max_length gids alignment_tokens dcp_world_size pcp_world_size =
     (if dcp_world_size \<noteq> 1 then Inl AssertionError
      else if pcp_world_size \<noteq> 1 then Inl AssertionError
      else
        let block_size = spec_block_size sp in
        bindE (resolve_block_hashes hashes (hash_block_size p) block_size True (Some alignment_tokens)) (\<lambda>bhl.
        if alignment_tokens < block_size \<and> block_size mod alignment_tokens = 0
        then (case bhl of
                View _ _ \<Rightarrow> Inl AssertionError
              | Raw hs \<Rightarrow>
                  mamba_fine_scan p gids hs (block_size div alignment_tokens) alignment_tokens
                    (nat (min (max_length div alignment_tokens) (int (length hs)))))
        else mamba_scan p gids bhl block_size alignment_tokens (nat (max_length div block_size))))"

section \<open>Dispatch on the manager class\<close>

definition find_longest_cache_hit ::
  "block_pool \<Rightarrow> kv_spec \<Rightarrow> block_hash_list \<Rightarrow> int \<Rightarrow> int list \<Rightarrow> bool \<Rightarrow> int \<Rightarrow> int \<Rightarrow> int \<Rightarrow> (nat list list \<times> int) result" where
  "find_longest_cache_hit p sp hashes max_length gids drop_eagle_block alignment_tokens dcp_world_size pcp_world_size =
     (case spec_kind sp of
        SlidingWindowSpec window _ \<Rightarrow>
          swa_find_longest_cache_hit p sp window hashes max_length gids drop_eagle_block alignment_tokens
            dcp_world_size pcp_world_size
      | ChunkedLocalAttentionSpec chunk \<Rightarrow>
          chunked_find_longest_cache_hit p sp chunk hashes max_length gids drop_eagle_block alignment_tokens
            dcp_world_size pcp_world_size
      | MambaSpec _ _ _ \<Rightarrow>
          mamba_find_longest_cache_hit p sp hashes max_length gids alignment_tokens dcp_world_size pcp_world_size
      | KpoolTailSpec \<Rightarrow> Inr (replicate (length gids) [], 0)
      | CircularBufferSpec \<Rightarrow> Inr (replicate (length gids) [], 0)
      | CrossAttentionSpec \<Rightarrow> Inl NotImplementedError
      | _ \<Rightarrow>
          full_find_longest_cache_hit p sp hashes max_length gids drop_eagle_block alignment_tokens dcp_world_size)"

section \<open>What a hit means\<close>

text \<open>Block \<^verbatim>\<open>b\<close> is in the prefix cache of group \<^verbatim>\<open>g\<close> under the block hash \<^verbatim>\<open>h\<close>.\<close>

definition cached_as :: "block_pool \<Rightarrow> bytes \<Rightarrow> int \<Rightarrow> nat \<Rightarrow> bool" where
  "cached_as p h g b \<longleftrightarrow> (\<exists>key. make_block_hash_with_group_id h g = Inr key \<and> 0 < b \<and> b < num_gpu_blocks p \<and>
     key \<in> set (all_block_hashes p b))"

text \<open>The block at position \<^verbatim>\<open>i\<close> of every group's list is cached under the hash at position \<^verbatim>\<open>i\<close>.\<close>

definition row_hit :: "block_pool \<Rightarrow> int list \<Rightarrow> block_hash_list \<Rightarrow> nat list list \<Rightarrow> nat \<Rightarrow> bool" where
  "row_hit p gids bhl cols i \<longleftrightarrow>
     (\<exists>h. bhl_get bhl (int i) = Inr h \<and> (\<forall>j < length gids. cached_as p h (gids ! j) (cols ! j ! i)))"

definition cols_len :: "int list \<Rightarrow> nat list list \<Rightarrow> nat \<Rightarrow> bool" where
  "cols_len gids cols n \<longleftrightarrow> length cols = length gids \<and> (\<forall>c \<in> set cols. length c = n)"

lemma cols_lenD: "cols_len gids cols n \<Longrightarrow> length cols = length gids"
  "cols_len gids cols n \<Longrightarrow> j < length gids \<Longrightarrow> length (cols ! j) = n"
  by (auto simp: cols_len_def)

lemma found_row_cached:
  assumes "hash_ok p" and "get_cached_block p h gids = Inr c" and "found_row c = Some row"
  shows "length row = length gids" and "j < length gids \<Longrightarrow> cached_as p h (gids ! j) (row ! j)"
proof -
  have c: "c = Some row" using assms(3) by (cases c rule: found_row.cases) auto
  have l: "list_all2 (\<lambda>g b. cached_as p h g b) gids row"
    using get_cached_block_spec [OF assms(1,2)] c by (simp add: cached_as_def)
  then show "length row = length gids" by (simp add: list_all2_lengthD)
  show "j < length gids \<Longrightarrow> cached_as p h (gids ! j) (row ! j)" using l by (simp add: list_all2_nthD)
qed

lemma append_row_nth:
  "length cols = length row \<Longrightarrow> j < length row \<Longrightarrow> append_row cols row ! j = cols ! j @ [row ! j]"
  by (simp add: append_row_def)

lemma append_row_len: "cols_len gids cols n \<Longrightarrow> length row = length gids \<Longrightarrow> cols_len gids (append_row cols row) (Suc n)"
  by (auto simp: cols_len_def append_row_def set_zip)

lemma set_row_len: "cols_len gids cols n \<Longrightarrow> length row = length gids \<Longrightarrow> cols_len gids (set_row i cols row) n"
  by (auto simp: cols_len_def set_row_def set_zip)

lemma set_row_nth: "length cols = length row \<Longrightarrow> j < length row \<Longrightarrow> set_row i cols row ! j = (cols ! j)[i := row ! j]"
  by (simp add: set_row_def)

lemma take_cols_len: "cols_len gids cols n \<Longrightarrow> k \<le> n \<Longrightarrow> cols_len gids (map (take k) cols) k"
  by (auto simp: cols_len_def)

lemma take_row_hit: "cols_len gids cols n \<Longrightarrow> i < k \<Longrightarrow> row_hit p gids bhl (map (take k) cols) i = row_hit p gids bhl cols i"
  by (simp add: row_hit_def cols_len_def)

lemma full_scan_spec:
  assumes "hash_ok p" and "cols_len gids cols k" and "k \<le> n" and "full_scan p gids bhl [k..<n] cols = Inr cols'"
  shows "\<exists>m. k \<le> m \<and> m \<le> n \<and> cols_len gids cols' m \<and> (\<forall>j < length gids. take k (cols' ! j) = cols ! j) \<and>
    (\<forall>i. k \<le> i \<longrightarrow> i < m \<longrightarrow> row_hit p gids bhl cols' i) \<and>
    (m < n \<longrightarrow> (\<exists>h c. bhl_get bhl (int m) = Inr h \<and> get_cached_block p h gids = Inr c \<and> found_row c = None))"
  using assms(2-4)
proof (induction "n - k" arbitrary: k cols)
  case 0
  then show ?case by (auto simp: cols_len_def)
next
  case (Suc d)
  then have kn: "k < n" by simp
  then have upt: "[k..<n] = k # [Suc k..<n]" by (simp add: upt_conv_Cons)
  obtain h c where h: "bhl_get bhl (int k) = Inr h" "get_cached_block p h gids = Inr c"
    using Suc.prems(3) upt by (auto simp: result_simps)
  show ?case
  proof (cases "found_row c")
    case None
    then show ?thesis using Suc.prems h upt by (auto simp: cols_len_def intro!: exI [of _ k])
  next
    case (Some row)
    note row = found_row_cached [OF assms(1) h(2) Some]
    have len: "cols_len gids (append_row cols row) (Suc k)" using append_row_len [OF Suc.prems(1) row(1)] .
    have scan: "full_scan p gids bhl [Suc k..<n] (append_row cols row) = Inr cols'" using Suc.prems(3) upt h Some by simp
    have "d = n - Suc k" "Suc k \<le> n" using Suc.hyps(2) kn by auto
    from Suc.hyps(1) [OF this(1) len this(2) scan] obtain m where
      m: "Suc k \<le> m" "m \<le> n" "cols_len gids cols' m" "\<forall>j < length gids. take (Suc k) (cols' ! j) = append_row cols row ! j"
      "\<forall>i. Suc k \<le> i \<longrightarrow> i < m \<longrightarrow> row_hit p gids bhl cols' i"
      "m < n \<longrightarrow> (\<exists>h c. bhl_get bhl (int m) = Inr h \<and> get_cached_block p h gids = Inr c \<and> found_row c = None)" by auto
    have col: "take (Suc k) (cols' ! j) = cols ! j @ [row ! j]" "length (cols ! j) = k" if "j < length gids" for j
      using m(4) that append_row_nth [of cols row j] cols_lenD [OF Suc.prems(1)] row(1) by simp_all
    have "take k (cols' ! j) = cols ! j" "cols' ! j ! k = row ! j" if "j < length gids" for j
      using col [OF that] by (metis append_eq_conv_conj le_SucI order_refl take_take min_def,
        metis lessI nth_append_length nth_take)
    moreover from this have hk: "row_hit p gids bhl cols' k" using h(1) row(2) by (auto simp: row_hit_def)
    moreover have "row_hit p gids bhl cols' i" if "k \<le> i" "i < m" for i
      using m(5) hk that by (cases "i = k") auto
    ultimately show ?thesis using m(1-3,6) by (intro exI [of _ m]) auto
  qed
qed

section \<open>The sliding-window search\<close>

lemma pop_until_aligned_spec:
  "pop_until_aligned bs a n \<le> n" "bs = a \<or> (int (pop_until_aligned bs a n) * bs) mod a = 0"
  by (induction n) auto

lemma pop_until_aligned_id: "bs = a \<or> (int n * bs) mod a = 0 \<Longrightarrow> pop_until_aligned bs a n = n"
  by (cases n) auto

text \<open>Right of the blocks still to visit lies the run of \<^verbatim>\<open>nc\<close> cached blocks found so far, which ends where the hit,
  after the block dropped for EAGLE, is aligned.\<close>

definition swa_run :: "block_pool \<Rightarrow> int list \<Rightarrow> block_hash_list \<Rightarrow> int \<Rightarrow> int \<Rightarrow> bool \<Rightarrow> nat \<Rightarrow> nat \<Rightarrow> nat list list \<Rightarrow> nat \<Rightarrow> bool" where
  "swa_run p gids bhl bs a eagle mx i cols nc \<longleftrightarrow> cols_len gids cols mx \<and> i + nc \<le> mx \<and>
     (\<forall>k. i \<le> k \<longrightarrow> k < i + nc \<longrightarrow> row_hit p gids bhl cols k) \<and>
     (0 < nc \<longrightarrow> bs = a \<or> (int (i + nc - (if eagle then 1 else 0)) * bs) mod a = 0)"

lemma swa_scan_spec:
  assumes "hash_ok p" and "swa_run p gids bhl bs a eagle mx i cols nc"
    and "swa_scan p gids bhl bs a eagle need i cols nc = Inr (cols', nc', found)"
  shows "\<exists>i'. swa_run p gids bhl bs a eagle (if found then i' + nc' else mx) i' cols' nc' \<and> i' + nc' \<le> mx \<and>
    (found \<longrightarrow> need \<le> int nc' \<and> 0 < nc') \<and> (\<not> found \<longrightarrow> i' = 0)"
  using assms(2,3)
proof (induction i arbitrary: cols nc)
  case 0
  then show ?case by (auto simp: swa_run_def)
next
  case (Suc i)
  obtain h c where h: "bhl_get bhl (int i) = Inr h" "get_cached_block p h gids = Inr c"
    using Suc.prems(2) by (auto simp: result_simps)
  show ?case
  proof (cases "found_row c")
    case None
    have "swa_run p gids bhl bs a eagle mx i cols 0" using Suc.prems(1) by (simp add: swa_run_def)
    then show ?thesis using Suc.IH Suc.prems(2) h None by simp
  next
    case (Some row)
    note row = found_row_cached [OF assms(1) h(2) Some]
    let ?skip = "nc = 0 \<and> bs \<noteq> a \<and> ((if eagle then int i else int i + 1) * bs) mod a \<noteq> 0"
    show ?thesis
    proof (cases ?skip)
      case True
      then have "swa_run p gids bhl bs a eagle mx i cols nc" using Suc.prems(1) by (simp add: swa_run_def)
      then show ?thesis using Suc.IH Suc.prems(2) h Some True by simp
    next
      case False
      define cols1 where "cols1 = set_row i cols row"
      have lens: "cols_len gids cols mx" "i < mx" using Suc.prems(1) by (auto simp: swa_run_def)
      have nth: "cols1 ! j = (cols ! j)[i := row ! j]" if "j < length gids" for j
        using set_row_nth [of cols row j i] cols_lenD(1) [OF lens(1)] row(1) that by (simp add: cols1_def)
      have "row_hit p gids bhl cols1 i"
        using h(1) row(2) nth lens cols_lenD(2) [OF lens(1)] by (auto simp: row_hit_def)
      moreover have "row_hit p gids bhl cols1 k" if "k \<noteq> i" "row_hit p gids bhl cols k" for k
        using that nth by (auto simp: row_hit_def)
      ultimately have hits: "row_hit p gids bhl cols1 k" if "i \<le> k" "k < i + Suc nc" for k
        using Suc.prems(1) that by (cases "k = i") (auto simp: swa_run_def)
      have len1: "cols_len gids cols1 mx" unfolding cols1_def by (rule set_row_len [OF lens(1) row(1)])
      have run: "swa_run p gids bhl bs a eagle mx i cols1 (Suc nc)"
        using Suc.prems(1) hits len1 False by (auto simp: swa_run_def add.commute mod_eq_0_iff_dvd)
      show ?thesis
      proof (cases "int (Suc nc) \<ge> need")
        case True
        then have "cols' = map (take (i + Suc nc)) cols1" "nc' = Suc nc" "found"
          using Suc.prems(2) h Some False by (auto simp: cols1_def Let_def)
        then show ?thesis
          using run True take_cols_len [OF len1, of "i + Suc nc"] take_row_hit [OF len1]
          by (intro exI [of _ i]) (auto simp: swa_run_def)
      next
        case False
        then show ?thesis
          using Suc.IH [OF run] Suc.prems(2) h Some \<open>\<not> ?skip\<close> by (auto simp: cols1_def Let_def)
      qed
    qed
  qed
qed

lemma first_len_cols: "first_len cols = Inr n \<Longrightarrow> cols_len gids cols m \<Longrightarrow> n = m \<and> gids \<noteq> []"
  by (cases cols) (auto simp: first_len_def cols_len_def)

text \<open>The result of the search before the conversion to tokens: the last \<^verbatim>\<open>need\<close> blocks of the hit are cached.\<close>

lemma swa_hit_blocks:
  assumes ok: "hash_ok p" and "swa_scan p gids bhl bs a eagle need mx (replicate (length gids) (replicate mx z)) 0 = Inr (cols, nc, found)"
    and cols1: "cols1 = (if found then cols else map (take (pop_until_aligned bs a nc)) cols)"
    and "first_len cols1 = Inr n"
    and n2: "n2 = (if eagle \<and> n > 0 then pop_until_aligned bs a (n - 1) else n)"
  shows "n2 \<le> mx" and "cols_len gids (map (take n2) cols1) n2" and "bs = a \<or> (int n2 * bs) mod a = 0"
    and "i < n2 \<Longrightarrow> int n2 - need + (if eagle then 1 else 0) \<le> int i \<Longrightarrow> row_hit p gids bhl (map (take n2) cols1) i"
proof -
  let ?e = "if eagle then 1 else 0 :: nat"
  have "swa_run p gids bhl bs a eagle mx mx (replicate (length gids) (replicate mx z)) 0"
    by (simp add: swa_run_def cols_len_def)
  from swa_scan_spec [OF ok this assms(2)] obtain i' where
    run: "swa_run p gids bhl bs a eagle (if found then i' + nc else mx) i' cols nc" and "i' + nc \<le> mx"
    and f: "found \<longrightarrow> need \<le> int nc \<and> 0 < nc" "\<not> found \<longrightarrow> i' = 0" by blast
  define m where "m = (if found then i' + nc else pop_until_aligned bs a nc)"
  have m: "m \<le> i' + nc" using f pop_until_aligned_spec(1) [of bs a nc] by (simp add: m_def)
  have len1: "cols_len gids cols1 m"
    using run take_cols_len [of gids cols mx m] m f \<open>i' + nc \<le> mx\<close> by (auto simp: cols1 m_def swa_run_def)
  have hit: "row_hit p gids bhl cols1 k" if "i' \<le> k" "k < m" for k
    using run that m f take_row_hit [of gids cols mx k m p bhl] by (auto simp: cols1 m_def swa_run_def)
  have n: "n = m" using first_len_cols [OF assms(4) len1] by simp
  have al: "bs = a \<or> (int (m - (if found then ?e else 0)) * bs) mod a = 0"
    using run f pop_until_aligned_spec(2) [of bs a nc] by (auto simp: m_def swa_run_def)
  have n2m: "n2 \<le> m" using n2 n pop_until_aligned_spec(1) [of bs a "n - 1"] by (auto split: if_splits)
  show "n2 \<le> mx" using n2m m \<open>i' + nc \<le> mx\<close> by simp
  show "cols_len gids (map (take n2) cols1) n2" using take_cols_len [OF len1 n2m] .
  show "bs = a \<or> (int n2 * bs) mod a = 0"
    using n2 n al f pop_until_aligned_spec(2) [of bs a "n - 1"] by (auto simp: m_def split: if_splits)
  assume i: "i < n2" "int n2 - need + (if eagle then 1 else 0) \<le> int i"
  have "i' \<le> i"
  proof (cases found)
    case True
    then have "n2 = m - ?e" using n2 n al f pop_until_aligned_id [of bs a "m - 1"] by (auto simp: m_def)
    then show ?thesis using i f True by (auto simp: m_def split: if_splits)
  qed (use f in simp)
  then have "row_hit p gids bhl cols1 i" using hit i(1) n2m by simp
  then show "row_hit p gids bhl (map (take n2) cols1) i" using take_row_hit [OF len1 i(1)] by simp
qed

section \<open>Properties\<close>

lemma demo_lookup:
  "\<exists>p. hash_ok p \<and> hash_block_size p = 2 \<and>
     full_find_longest_cache_hit p \<lparr>spec_kind = FullAttentionSpec, spec_block_size = 2, spec_rest = 0\<rparr> (Raw []) 4 [0] False 2 1 = Inr ([[]], 0) \<and>
     swa_find_longest_cache_hit p \<lparr>spec_kind = SlidingWindowSpec 3 0, spec_block_size = 2, spec_rest = 0\<rparr> 3 (Raw []) 1 [0] False 2 1 1 = Inr ([[]], 0)"
proof -
  obtain p where "pool_rep p [1, 2, 3]" "hash_block_size p = 2" using demo_pool by blast
  then show ?thesis
    by (intro exI [of _ p])
      (simp add: pool_rep_def pool_core_def full_find_longest_cache_hit_def swa_find_longest_cache_hit_def
        resolve_block_hashes_def first_len_def cdiv_def contiguous_blocks_for_hit_def)
qed

text \<open>C23: A sliding-window hit is usable: its length is at most the limit and a multiple of the alignment, and every
  block that holds one of the last \<^verbatim>\<open>window - 1\<close> tokens of the hit is cached under the hash of its position, in every
  group.\<close>

theorem sliding_window_hit_covers_window:
  assumes "hash_ok p" and "0 < spec_block_size sp" and "0 \<le> max_length"
    and "swa_find_longest_cache_hit p sp window hashes max_length gids eagle a 1 1 = Inr (cols, hit)"
  shows "\<exists>bhl. resolve_block_hashes hashes (hash_block_size p) (spec_block_size sp) False (Some a) = Inr bhl \<and>
    0 \<le> hit \<and> hit \<le> max_length \<and> hit mod a = 0 \<and>
    length cols = length gids \<and> (\<forall>c \<in> set cols. int (length c) * spec_block_size sp = hit) \<and>
    (\<forall>i. int i * spec_block_size sp < hit \<longrightarrow> hit - (window - 1) < (int i + 1) * spec_block_size sp \<longrightarrow>
      row_hit p gids bhl cols i)"
proof -
  let ?bs = "spec_block_size sp" and ?mx = "nat (max_length div spec_block_size sp)"
  let ?need = "contiguous_blocks_for_hit window ?bs eagle"
  have a: "a mod ?bs = 0"
    using assms(4) by (cases "a mod ?bs = 0") (simp_all add: swa_find_longest_cache_hit_def)
  obtain bhl cols0 nc found n where r: "resolve_block_hashes hashes (hash_block_size p) ?bs False (Some a) = Inr bhl"
    and scan: "swa_scan p gids bhl ?bs a eagle ?need ?mx (replicate (length gids) (replicate ?mx (null_block p))) 0 =
      Inr (cols0, nc, found)"
    and fl: "first_len (if found then cols0 else map (take (pop_until_aligned ?bs a nc)) cols0) = Inr n"
    and res: "cols = map (take (if eagle \<and> n > 0 then pop_until_aligned ?bs a (n - 1) else n))
        (if found then cols0 else map (take (pop_until_aligned ?bs a nc)) cols0)"
      "hit = int (if eagle \<and> n > 0 then pop_until_aligned ?bs a (n - 1) else n) * ?bs"
    using assms(4) a by (fastforce simp: swa_find_longest_cache_hit_def Let_def bindE_eq_Inr simp del: if_split)
  define n2 where "n2 = (if eagle \<and> n > 0 then pop_until_aligned ?bs a (n - 1) else n)"
  note blocks = swa_hit_blocks [OF assms(1) scan refl fl n2_def, folded res(1) [folded n2_def]]
  have hit: "hit = int n2 * ?bs" using res(2) by (simp add: n2_def)
  have "int n2 \<le> max_length div ?bs" using blocks(1) assms(2,3) by (simp add: pos_imp_zdiv_nonneg_iff le_nat_iff)
  then have "hit \<le> max_length" using assms(2) hit by (metis div_mult_mod_eq le_add_same_cancel1 mult_right_mono order_trans pos_mod_sign less_imp_le)
  moreover have "hit mod a = 0" using blocks(3) hit by auto
  moreover have "row_hit p gids bhl cols i" if "int i * ?bs < hit" "hit - (window - 1) < (int i + 1) * ?bs" for i
  proof (rule blocks(4))
    show "i < n2" using that(1) hit assms(2) by simp
    have "(int n2 - cdiv (window - 1) ?bs) * ?bs < (int i + 1) * ?bs"
      using that(2) hit cdiv_bounds(1) [OF assms(2), of "window - 1"] by (simp add: left_diff_distrib)
    then have "int n2 - cdiv (window - 1) ?bs < int i + 1" using assms(2) by (simp add: mult_less_cancel_right)
    then show "int n2 - ?need + (if eagle then 1 else 0) \<le> int i" by (simp add: contiguous_blocks_for_hit_def)
  qed
  ultimately show ?thesis using r hit blocks(2) assms(2) by (auto simp: cols_len_def)
qed

theorem sliding_window_hit_covers_window_witness:
  "\<exists>p. \<exists>bhl. resolve_block_hashes (Raw []) (hash_block_size p) 2 False (Some 2) = Inr bhl \<and>
     swa_find_longest_cache_hit p \<lparr>spec_kind = SlidingWindowSpec 3 0, spec_block_size = 2, spec_rest = 0\<rparr> 3 (Raw []) 1 [0] False 2 1 1 = Inr ([[]], 0) \<and>
     (\<forall>i. int i * 2 < 0 \<longrightarrow> 0 - (3 - 1) < (int i + 1) * 2 \<longrightarrow> row_hit p [0] bhl [[]] i)"
proof -
  obtain p where p: "hash_ok p"
    "swa_find_longest_cache_hit p \<lparr>spec_kind = SlidingWindowSpec 3 0, spec_block_size = 2, spec_rest = 0\<rparr> 3 (Raw []) 1 [0] False 2 1 1 = Inr ([[]], 0)"
    using demo_lookup by blast
  from sliding_window_hit_covers_window [OF p(1) _ _ p(2)] show ?thesis using p(2) by force
qed

text \<open>A block whose lookup misses in some group.\<close>

definition row_miss :: "block_pool \<Rightarrow> int list \<Rightarrow> block_hash_list \<Rightarrow> nat \<Rightarrow> bool" where
  "row_miss p gids bhl i \<longleftrightarrow> (\<exists>h c. bhl_get bhl (int i) = Inr h \<and> get_cached_block p h gids = Inr c \<and> found_row c = None)"

lemma full_hit_blocks:
  assumes "hash_ok p" and "0 < spec_block_size sp" and "0 < a" and "a mod spec_block_size sp = 0"
    and "full_find_longest_cache_hit p sp hashes max_length gids eagle a 1 = Inr (cols, hit)"
  obtains bhl m where
    "resolve_block_hashes hashes (hash_block_size p) (spec_block_size sp) (supports_fine_grained_hash_lookup (spec_kind sp)) (Some a) = Inr bhl"
    and "int m \<le> max_length div spec_block_size sp" and "0 \<le> hit"
    and "hit = (let h = (if eagle \<and> 0 < m then int m * spec_block_size sp - spec_block_size sp else int m * spec_block_size sp)
                in h - h mod a)"
    and "length cols = length gids" and "\<forall>c \<in> set cols. int (length c) * spec_block_size sp = hit"
    and "\<And>i. int i * spec_block_size sp < hit \<Longrightarrow> row_hit p gids bhl cols i"
    and "int m < max_length div spec_block_size sp \<Longrightarrow> int m < bhl_len bhl \<Longrightarrow> row_miss p gids bhl m"
proof -
  let ?bs = "spec_block_size sp" and ?f = "supports_fine_grained_hash_lookup (spec_kind sp)"
  have ab: "?bs \<le> a" using assms(2-4) by (metis mod_pos_pos_trivial not_le less_imp_le less_irrefl)
  then have nf: "\<not> a < ?bs" by simp
  have nn: "0 \<le> max_length div ?bs"
    using assms(5) nf by (cases "max_length div ?bs < 0") (auto simp: full_find_longest_cache_hit_def Let_def bindE_eq_Inr)
  obtain bhl cols0 n where r: "resolve_block_hashes hashes (hash_block_size p) ?bs ?f (Some a) = Inr bhl"
    and scan: "full_scan p gids bhl [0..<nat (min (max_length div ?bs) (bhl_len bhl))] (replicate (length gids) []) = Inr cols0"
    and fl: "first_len cols0 = Inr n"
    and res: "(let h1 = (if eagle \<and> int n * ?bs > 0 then int n * ?bs - min a ?bs else int n * ?bs); h2 = h1 - h1 mod a
               in (map (take (nat (cdiv h2 ?bs))) cols0, h2)) = (cols, hit)"
    using assms(5) nf nn by (fastforce simp: full_find_longest_cache_hit_def Let_def bindE_eq_Inr simp del: if_split)
  have "cols_len gids (replicate (length gids) []) 0" by (simp add: cols_len_def)
  from full_scan_spec [OF assms(1) this _ scan] obtain m where
    m: "m \<le> nat (min (max_length div ?bs) (bhl_len bhl))" "cols_len gids cols0 m" "\<And>i. i < m \<Longrightarrow> row_hit p gids bhl cols0 i"
    and miss: "m < nat (min (max_length div ?bs) (bhl_len bhl)) \<Longrightarrow> row_miss p gids bhl m"
    by (auto simp: row_miss_def)
  have n: "n = m" using first_len_cols [OF fl m(2)] by simp
  define h1 where "h1 = (if eagle \<and> 0 < m then int m * ?bs - ?bs else int m * ?bs)"
  have hit: "hit = h1 - h1 mod a" and cols: "cols = map (take (nat (cdiv hit ?bs))) cols0"
    using res n ab assms(2) by (auto simp: Let_def h1_def min_def split: if_splits)
  have h1: "0 \<le> h1" "h1 \<le> int m * ?bs" using assms(2) by (auto simp: h1_def mult_le_cancel_right1)
  have "h1 mod a \<le> h1" using h1(1) assms(3) by (simp add: zmod_le_nonneg_dividend)
  moreover have "0 \<le> h1 mod a" using assms(3) by simp
  ultimately have hit0: "0 \<le> hit" "hit \<le> int m * ?bs" using hit h1 by linarith+
  have "hit mod a = 0" using hit by (simp add: mod_eq_0_iff_dvd)
  then have hbs: "hit mod ?bs = 0" using assms(4) by (metis dvd_trans mod_0_imp_dvd dvd_imp_mod_0)
  then have q: "hit = hit div ?bs * ?bs" by (metis add.right_neutral div_mult_mod_eq)
  have cd: "cdiv hit ?bs = hit div ?bs"
    using assms(2) q cdiv_le_iff [of ?bs hit "hit div ?bs"] cdiv_less_iff [of ?bs "hit div ?bs - 1" hit]
    by (smt (verit, ccfv_threshold) mult_less_cancel_right)
  have km: "nat (hit div ?bs) \<le> m" using hit0(2) q assms(2) by (metis mult_le_cancel_right nat_le_iff not_le)
  have k0: "0 \<le> hit div ?bs" using hit0(1) assms(2) by (simp add: pos_imp_zdiv_nonneg_iff)
  show thesis
  proof (rule that [OF r])
    show "int m \<le> max_length div ?bs" using m(1) nn by (auto simp: min_def split: if_splits)
    show "hit = (let h = (if eagle \<and> 0 < m then int m * ?bs - ?bs else int m * ?bs) in h - h mod a)" using hit h1_def by (simp add: Let_def)
    show "length cols = length gids" using cols cols_lenD(1) [OF m(2)] by simp
    show "\<forall>c \<in> set cols. int (length c) * ?bs = hit"
      using cols take_cols_len [OF m(2) km] q k0 by (auto simp: cols_len_def cd)
    show "row_hit p gids bhl cols i" if "int i * ?bs < hit" for i
    proof -
      have "i < nat (hit div ?bs)" using that q assms(2) by (metis mult_less_cancel_right not_less zless_nat_eq_int_zless less_imp_le)
      then show ?thesis using m(3) [of i] km take_row_hit [OF m(2), of i "nat (hit div ?bs)"] cols cd by simp
    qed
    show "row_miss p gids bhl m" if "int m < max_length div ?bs" "int m < bhl_len bhl" using miss that by simp
  qed (rule hit0(1))
qed



end
