(* ===== verification/Single_Type.thy ===== *)
theory Single_Type
  imports Cache_Hit "HOL-Library.AList"
begin

text \<open>
  \<^verbatim>\<open>SingleTypeKVCacheManager\<close> of \<^verbatim>\<open>v1/core/single_type_kv_cache_manager.py\<close> and its subclasses without Mamba: the
  blocks of each request for one KV cache group. The pool is shared with the other managers, so every operation takes
  the pool and the manager and returns both. The default dictionary of block lists is an association list in insertion
  order; reading a missing key inserts an empty list. The fields of the Mamba subclass are part of the record.

  The second half shows that every operation keeps the ownership invariant: the reference count of a block is the
  number of times it occurs in block lists and pending copies, plus what others hold.
\<close>

section \<open>State\<close>

record stm =
  st_spec :: kv_spec
  st_block_size :: int
  st_scheduler_block_size :: int
  st_cache_hit_alignment_tokens :: int
  st_dcp_world_size :: int
  st_pcp_world_size :: int
  st_enable_caching :: bool
  st_max_admission_blocks_per_request :: "int option"
  st_record_new_block_ids :: bool
  st_new_block_ids :: "int list"
  st_req_to_blocks :: "(string \<times> nat list) list"
  st_num_cached_block :: "string \<rightharpoonup> int"
  st_kv_cache_group_id :: int
  st_null_block :: nat
  st_use_eagle :: bool
  st_partial_hit_reqs :: "string \<rightharpoonup> int \<times> nat"
  st_pending_cow_copies :: "(nat \<times> nat) list"
  st_pending_boundary_state_offloads :: "(string \<times> int \<times> nat \<times> int) list"
  mb_cached_blocks_this_step :: "bytes list"
  mb_last_state_block_idx :: "string \<rightharpoonup> int"
  mb_allocated_block_reqs :: "string list"
  mb_num_checkpoint_blocks :: "string \<rightharpoonup> int"
  mb_producer_partial_tail_reqs :: "string \<rightharpoonup> int"

definition st_init ::
  "kv_spec \<Rightarrow> block_pool \<Rightarrow> bool \<Rightarrow> int \<Rightarrow> int \<Rightarrow> int \<Rightarrow> int \<Rightarrow> bool \<Rightarrow> int option \<Rightarrow> stm" where
  "st_init sp p caching gid sched_bs dcp pcp needs_zeroing max_admission =
     \<lparr>st_spec = sp,
      st_block_size = (if is_mamba (spec_kind sp) then spec_block_size sp
                       else if dcp > 1 then spec_block_size sp * dcp else spec_block_size sp),
      st_scheduler_block_size = sched_bs, st_cache_hit_alignment_tokens = sched_bs,
      st_dcp_world_size = dcp, st_pcp_world_size = pcp, st_enable_caching = caching,
      st_max_admission_blocks_per_request = max_admission,
      st_record_new_block_ids = (needs_zeroing \<and> is_attention (spec_kind sp) \<and> spec_kind sp \<noteq> CircularBufferSpec),
      st_new_block_ids = [], st_req_to_blocks = [], st_num_cached_block = Map.empty, st_kv_cache_group_id = gid,
      st_null_block = null_block p, st_use_eagle = False, st_partial_hit_reqs = Map.empty,
      st_pending_cow_copies = [], st_pending_boundary_state_offloads = [],
      mb_cached_blocks_this_step = [], mb_last_state_block_idx = Map.empty, mb_allocated_block_reqs = [],
      mb_num_checkpoint_blocks = Map.empty, mb_producer_partial_tail_reqs = Map.empty\<rparr>"

text \<open>What the Mamba subclass reads of its specification.\<close>

definition mamba_cache_mode :: "stm \<Rightarrow> string" where
  "mamba_cache_mode m = (case spec_kind (st_spec m) of MambaSpec mode _ _ \<Rightarrow> mode | _ \<Rightarrow> [])"

definition num_speculative_blocks :: "stm \<Rightarrow> int" where
  "num_speculative_blocks m = (case spec_kind (st_spec m) of MambaSpec _ n _ \<Rightarrow> n | _ \<Rightarrow> 0)"

definition num_prefill_checkpoint_blocks :: "stm \<Rightarrow> int" where
  "num_prefill_checkpoint_blocks m = (case spec_kind (st_spec m) of MambaSpec _ _ n \<Rightarrow> n | _ \<Rightarrow> 0)"

abbreviation align_mode :: "stm \<Rightarrow> bool" where
  "align_mode m \<equiv> mamba_cache_mode m = ''align''"

text \<open>\<^verbatim>\<open>req_to_blocks.get(rid, ())\<close>, \<^verbatim>\<open>req_to_blocks[rid]\<close> of a default dictionary, and writing the list back.\<close>

definition req_blocks :: "string \<Rightarrow> stm \<Rightarrow> nat list" where
  "req_blocks rid m = (case map_of (st_req_to_blocks m) rid of None \<Rightarrow> [] | Some bs \<Rightarrow> bs)"

definition set_req_blocks :: "string \<Rightarrow> nat list \<Rightarrow> stm \<Rightarrow> stm" where
  "set_req_blocks rid bs m = m\<lparr>st_req_to_blocks := AList.update rid bs (st_req_to_blocks m)\<rparr>"

definition open_req :: "string \<Rightarrow> stm \<Rightarrow> stm" where
  "open_req rid m = (if map_of (st_req_to_blocks m) rid = None then set_req_blocks rid [] m else m)"

definition record_new_block_ids :: "nat list \<Rightarrow> block_pool \<Rightarrow> stm \<Rightarrow> stm" where
  "record_new_block_ids bs p m =
     (if st_record_new_block_ids m
      then m\<lparr>st_new_block_ids := st_new_block_ids m @ map (\<lambda>b. block_id (blk p b)) bs\<rparr> else m)"

section \<open>How many blocks a request needs\<close>

definition get_num_evictable_blocks :: "block_pool \<Rightarrow> nat list \<Rightarrow> int" where
  "get_num_evictable_blocks p bs = int (length (filter (\<lambda>b. ref_cnt (blk p b) = 0 \<and> \<not> is_null (blk p b)) bs))"

definition has_partial_local_hit :: "stm \<Rightarrow> nat list \<Rightarrow> int \<Rightarrow> bool" where
  "has_partial_local_hit m new_computed_blocks num_local_computed_tokens \<longleftrightarrow>
     new_computed_blocks \<noteq> [] \<and> num_local_computed_tokens mod st_block_size m \<noteq> 0"

definition base_get_num_blocks_to_allocate ::
  "block_pool \<Rightarrow> stm \<Rightarrow> string \<Rightarrow> int \<Rightarrow> nat list \<Rightarrow> int \<Rightarrow> int \<Rightarrow> bool \<Rightarrow> int result" where
  "base_get_num_blocks_to_allocate p m rid num_toks new_computed_blocks total_computed_tokens
     num_local_computed_tokens apply_admission_cap =
     (let required = cdiv num_toks (st_block_size m);
          num_required_blocks =
            (case st_max_admission_blocks_per_request m of
               None \<Rightarrow> required
             | Some cap \<Rightarrow> if apply_admission_cap then min required cap else required);
          num_req_blocks = int (length (req_blocks rid m))
      in if st_num_cached_block m rid \<noteq> None
         then (if new_computed_blocks \<noteq> [] then Inl AssertionError else Inr (max (num_required_blocks - num_req_blocks) 0))
         else
           (let num_skipped_tokens = get_num_skipped_tokens (spec_kind (st_spec m)) total_computed_tokens;
                num_local_computed_blocks = int (length new_computed_blocks) + num_req_blocks;
                num_skipped_blocks = num_skipped_tokens div st_block_size m;
                num_new_blocks = max (num_required_blocks - max num_skipped_blocks num_local_computed_blocks) 0;
                num_skipped_new = max 0 (num_skipped_blocks - num_req_blocks);
                num_evictable = get_num_evictable_blocks p (drop (nat num_skipped_new) new_computed_blocks)
            in Inr ((if has_partial_local_hit m new_computed_blocks num_local_computed_tokens
                     then num_new_blocks + 1 else num_new_blocks) + num_evictable)))"

section \<open>Allocation\<close>

definition base_add_local_computed_blocks ::
  "string \<Rightarrow> nat list \<Rightarrow> int \<Rightarrow> int \<Rightarrow> block_pool \<Rightarrow> stm \<Rightarrow> (block_pool \<times> stm) result" where
  "base_add_local_computed_blocks rid new_computed_blocks num_local num_external p m =
     (let m1 = open_req rid m
      in if req_blocks rid m1 \<noteq> [] then Inl AssertionError
         else
           (let num_skipped_blocks =
                  get_num_skipped_tokens (spec_kind (st_spec m)) (num_local + num_external) div st_block_size m;
                hits = (if num_skipped_blocks > 0 then drop (nat num_skipped_blocks) new_computed_blocks
                        else new_computed_blocks)
            in bindE (if st_enable_caching m then touch hits p else if hits \<noteq> [] then Inl AssertionError else Inr p) (\<lambda>p'.
               let bs = replicate (nat num_skipped_blocks) (st_null_block m) @ hits;
                   m2 = set_req_blocks rid bs m1;
                   block_idx = num_local div st_block_size m
               in Inr (p',
                    if has_partial_local_hit m hits num_local
                    then m2\<lparr>st_partial_hit_reqs := (st_partial_hit_reqs m2)(rid \<mapsto> (block_idx, last hits)),
                            st_num_cached_block := (st_num_cached_block m2)(rid \<mapsto> block_idx)\<rparr>
                    else m2\<lparr>st_num_cached_block := (st_num_cached_block m2)(rid \<mapsto> int (length bs))\<rparr>))))"

text \<open>Take \<^verbatim>\<open>n\<close> new blocks from the pool, append them to the request and record their ids.\<close>

definition extend_req :: "string \<Rightarrow> int \<Rightarrow> block_pool \<Rightarrow> stm \<Rightarrow> (nat list \<times> block_pool \<times> stm) result" where
  "extend_req rid n p m =
     bindE (get_new_blocks n p) (\<lambda>(new_blocks, p').
       Inr (new_blocks, p', record_new_block_ids new_blocks p' (set_req_blocks rid (req_blocks rid m @ new_blocks) m)))"

definition base_allocate_external_computed_blocks ::
  "string \<Rightarrow> int \<Rightarrow> int \<Rightarrow> block_pool \<Rightarrow> stm \<Rightarrow> (block_pool \<times> stm) result" where
  "base_allocate_external_computed_blocks rid num_local num_external p m =
     (let total = num_local + num_external;
          num_skipped_tokens = get_num_skipped_tokens (spec_kind (st_spec m)) total;
          external = (if num_skipped_tokens > 0 then min (total - num_skipped_tokens) num_external else num_external)
      in if external \<le> 0 then Inr (p, m)
         else (let m1 = open_req rid m;
                   num_new_blocks = max 0 (cdiv total (st_block_size m) - int (length (req_blocks rid m1)))
               in bindE (extend_req rid num_new_blocks p m1) (\<lambda>(_, p', m'). Inr (p', m'))))"

text \<open>Redirect a partial prefix-cache hit to a private copy.\<close>

definition apply_cow :: "string \<Rightarrow> int \<Rightarrow> nat \<Rightarrow> nat \<Rightarrow> block_pool \<Rightarrow> stm \<Rightarrow> (block_pool \<times> stm) result" where
  "apply_cow rid block_idx source_block cow_block p m =
     (let m1 = open_req rid m; bs = req_blocks rid m1
      in if \<not> block_idx < int (length bs) then Inl AssertionError
         else
           bindE (py_index bs block_idx) (\<lambda>b.
             if b \<noteq> source_block then Inl AssertionError
             else if is_null (blk p source_block) \<or> \<not> ref_cnt (blk p source_block) > 0 then Inl AssertionError
             else
               bindE (py_update bs block_idx cow_block) (\<lambda>bs'.
                 Inr (upd_blk cow_block (bump 1) p,
                      (set_req_blocks rid bs' m1)
                        \<lparr>st_pending_cow_copies := st_pending_cow_copies m1 @ [(source_block, cow_block)]\<rparr>))))"

definition base_redirect_partial_hit :: "string \<Rightarrow> block_pool \<Rightarrow> stm \<Rightarrow> (nat list \<times> block_pool \<times> stm) result" where
  "base_redirect_partial_hit rid p m =
     (case st_partial_hit_reqs m rid of
        None \<Rightarrow> Inr ([], p, m)
      | Some (block_idx, source_block) \<Rightarrow>
          bindE (get_new_blocks 1 p) (\<lambda>(nb, p1).
          bindE (py_index nb 0) (\<lambda>cow_block.
          bindE (apply_cow rid block_idx source_block cow_block p1
                   (m\<lparr>st_partial_hit_reqs := (st_partial_hit_reqs m)(rid := None)\<rparr>)) (\<lambda>(p2, m2).
            Inr ([cow_block], p2, m2\<lparr>st_new_block_ids := st_new_block_ids m2 @ [block_id (blk p2 cow_block)]\<rparr>)))))"

definition base_allocate_new_blocks ::
  "string \<Rightarrow> int \<Rightarrow> block_pool \<Rightarrow> stm \<Rightarrow> (nat list \<times> block_pool \<times> stm) result" where
  "base_allocate_new_blocks rid num_toks p m =
     bindE (base_redirect_partial_hit rid p m) (\<lambda>(cow_blocks, p1, m1).
       let m2 = open_req rid m1;
           num_new_blocks = cdiv num_toks (st_block_size m2) - int (length (req_blocks rid m2))
       in if num_new_blocks \<le> 0 then Inr (cow_blocks, p1, m2)
          else bindE (extend_req rid num_new_blocks p1 m2) (\<lambda>(new_blocks, p', m'). Inr (cow_blocks @ new_blocks, p', m')))"

section \<open>Draining the queues to the worker\<close>

definition take_new_block_ids :: "stm \<Rightarrow> int list \<times> stm" where
  "take_new_block_ids m = (st_new_block_ids m, m\<lparr>st_new_block_ids := []\<rparr>)"

definition take_pending_cow_copies :: "stm \<Rightarrow> (nat \<times> nat) list \<times> stm" where
  "take_pending_cow_copies m = (st_pending_cow_copies m, m\<lparr>st_pending_cow_copies := []\<rparr>)"

definition take_pending_boundary_state_offloads :: "stm \<Rightarrow> (string \<times> int \<times> nat \<times> int) list \<times> stm" where
  "take_pending_boundary_state_offloads m =
     (st_pending_boundary_state_offloads m, m\<lparr>st_pending_boundary_state_offloads := []\<rparr>)"

section \<open>Caching\<close>

definition reachable_block_mask :: "stm \<Rightarrow> int \<Rightarrow> int \<Rightarrow> int option \<Rightarrow> int list \<Rightarrow> bool list option result" where
  "reachable_block_mask m start_block end_block retention_interval reachable_boundaries =
     (case spec_kind (st_spec m) of
        SlidingWindowSpec window _ \<Rightarrow>
          swa_block_mask window (spec_block_size (st_spec m)) start_block end_block
            (Some (st_cache_hit_alignment_tokens m)) (st_use_eagle m) retention_interval reachable_boundaries
      | MambaSpec _ _ _ \<Rightarrow>
          Inr (mamba_block_mask (spec_block_size (st_spec m)) start_block end_block
            (Some (st_cache_hit_alignment_tokens m)) retention_interval reachable_boundaries)
      | _ \<Rightarrow> Inr None)"

definition base_cache_blocks ::
  "(bytes list \<Rightarrow> bytes) \<Rightarrow> request \<Rightarrow> int \<Rightarrow> int option \<Rightarrow> block_pool \<Rightarrow> stm \<Rightarrow> (request \<times> block_pool \<times> stm) result" where
  "base_cache_blocks embeds_digest r num_toks retention_interval p m =
     (let rid = request_id r;
          num_cached_blocks = (case st_num_cached_block m rid of None \<Rightarrow> 0 | Some n \<Rightarrow> n);
          num_full_blocks = num_toks div st_block_size m
      in if num_cached_blocks \<ge> num_full_blocks then Inr (r, p, m)
         else
           (let reachable_boundaries =
                  (num_prompt_tokens r - 1) #
                  (if shared_prefix_boundary r \<noteq> 0 then [shared_prefix_boundary r] else [])
            in bindE (reachable_block_mask m num_cached_blocks num_full_blocks retention_interval reachable_boundaries) (\<lambda>block_mask.
               let m1 = open_req rid m in
               bindE (cache_full_blocks embeds_digest r (req_blocks rid m1) num_cached_blocks num_full_blocks
                        (st_block_size m) (st_kv_cache_group_id m) block_mask p) (\<lambda>(r', p').
                 Inr (r', p', m1\<lparr>st_num_cached_block := (st_num_cached_block m1)(rid \<mapsto> num_full_blocks)\<rparr>)))))"

definition full_cache_partial_tail_block ::
  "(bytes list \<Rightarrow> bytes) \<Rightarrow> request \<Rightarrow> int \<Rightarrow> block_pool \<Rightarrow> stm \<Rightarrow> (request \<times> block_pool \<times> stm) result" where
  "full_cache_partial_tail_block embeds_digest r num_toks p m =
     (let boundary_tokens = num_prompt_tokens r div hash_block_size p * hash_block_size p
      in if boundary_tokens = 0 \<or> boundary_tokens > num_toks then Inr (r, p, m)
         else if boundary_tokens mod st_block_size m = 0 then Inr (r, p, m)
         else
           (let m1 = open_req (request_id r) m;
                blocks = req_blocks (request_id r) m1;
                block_idx = boundary_tokens div st_block_size m
            in if block_idx \<ge> int (length blocks) then Inr (r, p, m1)
               else
                 bindE (py_index blocks block_idx) (\<lambda>b.
                 bindE (cache_partial_block embeds_digest r b boundary_tokens (st_kv_cache_group_id m) (st_block_size m) p)
                   (\<lambda>(_, r', p'). Inr (r', p', m1)))))"

definition full_cache_blocks ::
  "(bytes list \<Rightarrow> bytes) \<Rightarrow> request \<Rightarrow> int \<Rightarrow> int option \<Rightarrow> block_pool \<Rightarrow> stm \<Rightarrow> (request \<times> block_pool \<times> stm) result" where
  "full_cache_blocks embeds_digest r num_toks retention_interval p m =
     bindE (base_cache_blocks embeds_digest r num_toks retention_interval p m) (\<lambda>(r', p', m').
       if st_block_size m' = hash_block_size p' then Inr (r', p', m')
       else full_cache_partial_tail_block embeds_digest r' num_toks p' m')"

section \<open>Releasing blocks\<close>

definition base_pop_blocks_for_free :: "string \<Rightarrow> stm \<Rightarrow> nat list \<times> stm" where
  "base_pop_blocks_for_free rid m =
     (req_blocks rid m,
      m\<lparr>st_req_to_blocks := AList.delete rid (st_req_to_blocks m),
        st_num_cached_block := (st_num_cached_block m)(rid := None),
        st_partial_hit_reqs := (st_partial_hit_reqs m)(rid := None)\<rparr>)"

text \<open>The loop of \<^verbatim>\<open>_remove_blocks_in_range\<close> over the given indices: the freed blocks and the block list after it.\<close>

primrec null_out :: "int list \<Rightarrow> nat \<Rightarrow> nat list \<Rightarrow> (nat list \<times> nat list) result" where
  "null_out [] null bs = Inr ([], bs)"
| "null_out (i # is) null bs =
     bindE (py_index bs i) (\<lambda>b.
       if b = null then Inr ([], bs)
       else bindE (py_update bs i null) (\<lambda>bs'.
            bindE (null_out is null bs') (\<lambda>(freed, bs''). Inr (b # freed, bs''))))"

definition remove_blocks_in_range :: "string \<Rightarrow> int \<Rightarrow> int \<Rightarrow> block_pool \<Rightarrow> stm \<Rightarrow> (block_pool \<times> stm) result" where
  "remove_blocks_in_range rid first_block last_block p m =
     (case map_of (st_req_to_blocks m) rid of
        None \<Rightarrow> Inr (p, m)
      | Some blocks \<Rightarrow>
          if first_block \<ge> last_block then Inr (p, m)
          else
            bindE (null_out (rev [first_block..min last_block (int (length blocks)) - 1]) (st_null_block m) blocks)
              (\<lambda>(freed, blocks').
                 let m' = set_req_blocks rid blocks' m
                 in if freed = [] then Inr (p, m') else bindE (free_blocks freed p) (\<lambda>p'. Inr (p', m'))))"

definition base_remove_skipped_blocks :: "string \<Rightarrow> int \<Rightarrow> block_pool \<Rightarrow> stm \<Rightarrow> (block_pool \<times> stm) result" where
  "base_remove_skipped_blocks rid processed_computed_tokens p m =
     (let num_skipped_tokens = get_num_skipped_tokens (spec_kind (st_spec m)) processed_computed_tokens
      in if num_skipped_tokens \<le> 0 then Inr (p, m)
         else (let m1 = open_req rid m
               in remove_blocks_in_range rid 0
                    (min (num_skipped_tokens div st_block_size m) (int (length (req_blocks rid m1)))) p m1))"

definition rswa_remove_skipped_blocks ::
  "int \<Rightarrow> string \<Rightarrow> int \<Rightarrow> int option \<Rightarrow> block_pool \<Rightarrow> stm \<Rightarrow> (block_pool \<times> stm) result" where
  "rswa_remove_skipped_blocks rswa_window rid processed_computed_tokens num_prompt_toks p m =
     (case num_prompt_toks of
        None \<Rightarrow> base_remove_skipped_blocks rid processed_computed_tokens p m
      | Some n \<Rightarrow>
          (let bs = st_block_size m;
               first_gap_block = cdiv n bs;
               window_start = max n (processed_computed_tokens - rswa_window);
               last_gap_block = window_start div bs
           in remove_blocks_in_range rid first_gap_block last_gap_block p m))"

section \<open>Shared prefix\<close>

definition full_get_num_common_prefix_blocks :: "string \<Rightarrow> block_pool \<Rightarrow> stm \<Rightarrow> int \<times> stm" where
  "full_get_num_common_prefix_blocks rid p m =
     (let m1 = open_req rid m
      in (int (length (takeWhile (\<lambda>b. ref_cnt (blk p b) = int (length (st_req_to_blocks m1))) (req_blocks rid m1))), m1))"

section \<open>One block per request: the kpool tail and the ring buffer\<close>

definition kpool_get_num_blocks_to_allocate :: "string \<Rightarrow> stm \<Rightarrow> int" where
  "kpool_get_num_blocks_to_allocate rid m = max (1 - int (length (req_blocks rid m))) 0"

definition kpool_allocate_new_blocks :: "string \<Rightarrow> block_pool \<Rightarrow> stm \<Rightarrow> (nat list \<times> block_pool \<times> stm) result" where
  "kpool_allocate_new_blocks rid p m =
     (let m1 = open_req rid m
      in if length (req_blocks rid m1) \<ge> 1 then Inr ([], p, m1) else extend_req rid 1 p m1)"

definition kpool_allocate_external_computed_blocks :: "string \<Rightarrow> block_pool \<Rightarrow> stm \<Rightarrow> (block_pool \<times> stm) result" where
  "kpool_allocate_external_computed_blocks rid p m =
     (let m1 = open_req rid m
      in if length (req_blocks rid m1) \<ge> 1 then Inr (p, m1)
         else bindE (extend_req rid 1 p m1) (\<lambda>(_, p', m'). Inr (p', m')))"

definition claim_ring_block :: "string \<Rightarrow> block_pool \<Rightarrow> stm \<Rightarrow> (nat list \<times> block_pool \<times> stm) result" where
  "claim_ring_block rid p m =
     (let m1 = open_req rid m
      in if req_blocks rid m1 \<noteq> [] then Inr ([], p, m1) else extend_req rid 1 p m1)"

definition ring_get_num_blocks_to_allocate :: "string \<Rightarrow> stm \<Rightarrow> int" where
  "ring_get_num_blocks_to_allocate rid m = (if req_blocks rid m \<noteq> [] then 0 else 1)"

definition ring_allocate_external_computed_blocks :: "string \<Rightarrow> block_pool \<Rightarrow> stm \<Rightarrow> (block_pool \<times> stm) result" where
  "ring_allocate_external_computed_blocks rid p m = bindE (claim_ring_block rid p m) (\<lambda>(_, p', m'). Inr (p', m'))"

section \<open>Ownership\<close>

text \<open>The references a manager holds, one per occurrence: its block lists and the two ends of every pending copy.\<close>

definition st_claims :: "stm \<Rightarrow> nat list" where
  "st_claims m = concat (map snd (st_req_to_blocks m)) @ concat (map (\<lambda>(s, d). [s, d]) (st_pending_cow_copies m))"

text \<open>
  The reference count of every block but the null block is what the manager holds plus \<^verbatim>\<open>ex\<close>, what others hold. \<^verbatim>\<open>st_ok\<close> holds the
  side conditions: a positive block size and, for the Mamba subclass, that counts are not negative and that a request
  with a running state has its speculative blocks.
\<close>

definition st_ok :: "stm \<Rightarrow> bool" where
  "st_ok m \<longleftrightarrow>
     0 < st_block_size m \<and> 0 \<le> num_speculative_blocks m \<and>
     (\<forall>rid n. mb_num_checkpoint_blocks m rid = Some n \<longrightarrow> 0 \<le> n) \<and>
     (\<forall>rid \<in> set (mb_allocated_block_reqs m). align_mode m \<and> num_speculative_blocks m \<le> int (length (req_blocks rid m)))"

definition owns :: "(nat \<Rightarrow> int) \<Rightarrow> block_pool \<Rightarrow> stm \<Rightarrow> bool" where
  "owns ex p m \<longleftrightarrow>
     (\<exists>xs. pool_rep p xs) \<and> distinct (map fst (st_req_to_blocks m)) \<and> st_null_block m = 0 \<and>
     (\<forall>b \<in> set (st_claims m). b < num_gpu_blocks p) \<and>
     (\<forall>c. 0 \<le> ex c) \<and>
     (\<forall>c. 0 < c \<and> c < num_gpu_blocks p \<longrightarrow> ref_cnt (blk p c) = ex c + occ (st_claims m) c) \<and>
     st_ok m"

lemma mamba_parameters:
  "st_spec m' = st_spec m \<Longrightarrow> num_speculative_blocks m' = num_speculative_blocks m \<and> mamba_cache_mode m' = mamba_cache_mode m"
  by (simp add: num_speculative_blocks_def mamba_cache_mode_def)

lemma st_ok_cong:
  assumes "st_ok m" and "st_spec m' = st_spec m" and "st_block_size m' = st_block_size m"
    and "\<And>rid n. mb_num_checkpoint_blocks m' rid = Some n \<Longrightarrow> 0 \<le> n"
    and "\<And>rid. rid \<in> set (mb_allocated_block_reqs m') \<Longrightarrow> rid \<in> set (mb_allocated_block_reqs m) \<and>
      length (req_blocks rid m) \<le> length (req_blocks rid m')"
  shows "st_ok m'"
  using assms mamba_parameters [OF assms(2)] by (fastforce simp: st_ok_def)

lemma st_claims_simps [simp]:
  "st_claims (m\<lparr>st_num_cached_block := a\<rparr>) = st_claims m"
  "st_claims (m\<lparr>st_partial_hit_reqs := b\<rparr>) = st_claims m"
  "st_claims (m\<lparr>st_new_block_ids := c\<rparr>) = st_claims m"
  "st_claims (m\<lparr>st_pending_boundary_state_offloads := d\<rparr>) = st_claims m"
  "st_claims (m\<lparr>mb_cached_blocks_this_step := e\<rparr>) = st_claims m"
  "st_claims (m\<lparr>mb_last_state_block_idx := f\<rparr>) = st_claims m"
  "st_claims (m\<lparr>mb_allocated_block_reqs := g\<rparr>) = st_claims m"
  "st_claims (m\<lparr>mb_num_checkpoint_blocks := h\<rparr>) = st_claims m"
  "st_claims (m\<lparr>mb_producer_partial_tail_reqs := i\<rparr>) = st_claims m"
  by (simp_all add: st_claims_def)

lemma req_blocks_fields [simp]:
  "req_blocks rid (m\<lparr>st_num_cached_block := a\<rparr>) = req_blocks rid m"
  "req_blocks rid (m\<lparr>st_partial_hit_reqs := b\<rparr>) = req_blocks rid m"
  "req_blocks rid (m\<lparr>st_new_block_ids := c\<rparr>) = req_blocks rid m"
  "req_blocks rid (m\<lparr>st_pending_cow_copies := j\<rparr>) = req_blocks rid m"
  "req_blocks rid (m\<lparr>st_pending_boundary_state_offloads := d\<rparr>) = req_blocks rid m"
  "req_blocks rid (m\<lparr>mb_cached_blocks_this_step := e\<rparr>) = req_blocks rid m"
  "req_blocks rid (m\<lparr>mb_last_state_block_idx := f\<rparr>) = req_blocks rid m"
  "req_blocks rid (m\<lparr>mb_allocated_block_reqs := g\<rparr>) = req_blocks rid m"
  "req_blocks rid (m\<lparr>mb_num_checkpoint_blocks := h\<rparr>) = req_blocks rid m"
  "req_blocks rid (m\<lparr>mb_producer_partial_tail_reqs := i\<rparr>) = req_blocks rid m"
  by (simp_all add: req_blocks_def)

lemma st_ok_fields [simp]:
  "st_ok (m\<lparr>st_num_cached_block := a\<rparr>) = st_ok m"
  "st_ok (m\<lparr>st_partial_hit_reqs := b\<rparr>) = st_ok m"
  "st_ok (m\<lparr>st_new_block_ids := c\<rparr>) = st_ok m"
  "st_ok (m\<lparr>st_pending_cow_copies := j\<rparr>) = st_ok m"
  "st_ok (m\<lparr>st_pending_boundary_state_offloads := d\<rparr>) = st_ok m"
  "st_ok (m\<lparr>mb_cached_blocks_this_step := e\<rparr>) = st_ok m"
  "st_ok (m\<lparr>mb_last_state_block_idx := f\<rparr>) = st_ok m"
  "st_ok (m\<lparr>mb_producer_partial_tail_reqs := i\<rparr>) = st_ok m"
  by (simp_all add: st_ok_def num_speculative_blocks_def mamba_cache_mode_def)

lemma owns_fields [simp]:
  "owns ex p (m\<lparr>st_num_cached_block := a\<rparr>) = owns ex p m"
  "owns ex p (m\<lparr>st_partial_hit_reqs := b\<rparr>) = owns ex p m"
  "owns ex p (m\<lparr>st_new_block_ids := c\<rparr>) = owns ex p m"
  "owns ex p (m\<lparr>st_pending_boundary_state_offloads := d\<rparr>) = owns ex p m"
  "owns ex p (m\<lparr>mb_cached_blocks_this_step := e\<rparr>) = owns ex p m"
  "owns ex p (m\<lparr>mb_last_state_block_idx := f\<rparr>) = owns ex p m"
  "owns ex p (m\<lparr>mb_producer_partial_tail_reqs := i\<rparr>) = owns ex p m"
  by (simp_all add: owns_def)

subsection \<open>Block lists\<close>

lemma req_blocks_set [simp]:
  "req_blocks rid (set_req_blocks rid bs m) = bs"
  "rid' \<noteq> rid \<Longrightarrow> req_blocks rid' (set_req_blocks rid bs m) = req_blocks rid' m"
  by (simp_all add: req_blocks_def set_req_blocks_def update_conv')

lemma req_blocks_open [simp]: "req_blocks rid' (open_req rid m) = req_blocks rid' m"
  by (cases "rid' = rid") (auto simp: open_req_def, simp add: req_blocks_def)

lemma mset_concat_update:
  assumes "distinct (map fst al)"
  shows "mset (concat (map snd (AList.update k v al))) + mset (case map_of al k of None \<Rightarrow> [] | Some w \<Rightarrow> w) =
    mset (concat (map snd al)) + mset v"
  using assms by (induction al) (auto simp: map_of_eq_None_iff ac_simps split: option.splits)

lemma mset_concat_delete:
  assumes "distinct (map fst al)"
  shows "mset (concat (map snd (AList.delete k al))) + mset (case map_of al k of None \<Rightarrow> [] | Some w \<Rightarrow> w) =
    mset (concat (map snd al))"
  using assms
proof (induction al)
  case (Cons a al)
  show ?case
  proof (cases "fst a = k")
    case True
    then have "map_of al k = None" using Cons.prems by (auto simp: map_of_eq_None_iff)
    then show ?thesis using Cons True by (auto simp: delete_idem map_of_eq_None_iff)
  next
    case False
    then show ?thesis using Cons by (cases a) (simp add: ac_simps)
  qed
qed simp

lemma claims_set_req_blocks:
  assumes "distinct (map fst (st_req_to_blocks m))"
  shows "mset (st_claims (set_req_blocks rid bs m)) + mset (req_blocks rid m) = mset (st_claims m) + mset bs"
  using mset_concat_update [OF assms, of rid bs]
  by (simp add: st_claims_def set_req_blocks_def req_blocks_def ac_simps)

lemma keys_set_req_blocks:
  "distinct (map fst (st_req_to_blocks m)) \<Longrightarrow> distinct (map fst (st_req_to_blocks (set_req_blocks rid bs m)))"
  by (simp add: set_req_blocks_def distinct_update)

lemma req_blocks_claimed: "set (req_blocks rid m) \<subseteq> set (st_claims m)"
  by (cases "map_of (st_req_to_blocks m) rid") (auto simp: req_blocks_def st_claims_def dest!: map_of_SomeD)

lemma occ_mset: "mset xs + mset ys = mset us + mset vs \<Longrightarrow> occ xs c + occ ys c = occ us c + occ vs c"
  by (metis count_mset count_union of_nat_add)

lemma set_req_blocks_fields [simp]:
  "st_null_block (set_req_blocks rid bs m) = st_null_block m" "st_spec (set_req_blocks rid bs m) = st_spec m"
  "st_block_size (set_req_blocks rid bs m) = st_block_size m"
  "st_pending_cow_copies (set_req_blocks rid bs m) = st_pending_cow_copies m"
  "st_partial_hit_reqs (set_req_blocks rid bs m) = st_partial_hit_reqs m"
  "st_num_cached_block (set_req_blocks rid bs m) = st_num_cached_block m"
  "mb_num_checkpoint_blocks (set_req_blocks rid bs m) = mb_num_checkpoint_blocks m"
  "mb_allocated_block_reqs (set_req_blocks rid bs m) = mb_allocated_block_reqs m"
  by (simp_all add: set_req_blocks_def)

lemma st_ok_set_req_blocks:
  assumes "st_ok m" and "length (req_blocks rid m) \<le> length bs"
  shows "st_ok (set_req_blocks rid bs m)"
proof (rule st_ok_cong [OF assms(1)])
  fix rid' assume "rid' \<in> set (mb_allocated_block_reqs (set_req_blocks rid bs m))"
  then show "rid' \<in> set (mb_allocated_block_reqs m) \<and> length (req_blocks rid' m) \<le> length (req_blocks rid' (set_req_blocks rid bs m))"
    using assms(2) by (cases "rid' = rid") simp_all
qed (use assms(1) in \<open>auto simp: st_ok_def\<close>)

text \<open>Replacing one block list by one that is not shorter, with the reference counts following.\<close>

lemma owns_set_req_blocks_ex:
  assumes own: "owns ex p m" and rep: "pool_rep p' xs" and same: "pool_same p p'"
    and bs: "\<forall>b \<in> set bs. b < num_gpu_blocks p" and len: "length (req_blocks rid m) \<le> length bs"
    and ex': "\<And>c. 0 \<le> ex' c"
    and refs: "\<And>c. 0 < c \<Longrightarrow> c < num_gpu_blocks p \<Longrightarrow>
      ref_cnt (blk p' c) + occ (req_blocks rid m) c + ex c = ref_cnt (blk p c) + occ bs c + ex' c"
  shows "owns ex' p' (set_req_blocks rid bs m)"
proof -
  have d: "distinct (map fst (st_req_to_blocks m))" using own by (simp add: owns_def)
  note M = claims_set_req_blocks [OF d, of rid bs]
  have "set (st_claims (set_req_blocks rid bs m)) \<subseteq> set (st_claims m) \<union> set bs"
    using M by (metis Un_upper1 set_mset_mset set_mset_union)
  moreover have "ref_cnt (blk p' c) = ex' c + occ (st_claims (set_req_blocks rid bs m)) c"
    if "0 < c" "c < num_gpu_blocks p" for c
    using refs [OF that] occ_mset [OF M, of c] own that by (simp add: owns_def)
  ultimately show ?thesis
    using own rep bs ex' keys_set_req_blocks [OF d] pool_same_n [OF same] st_ok_set_req_blocks [OF _ len]
    by (auto simp: owns_def)
qed

lemma owns_set_req_blocks:
  assumes "owns ex p m" and "pool_rep p' xs" and "pool_same p p'" and "\<forall>b \<in> set bs. b < num_gpu_blocks p"
    and "length (req_blocks rid m) \<le> length bs"
    and "\<And>c. 0 < c \<Longrightarrow> c < num_gpu_blocks p \<Longrightarrow>
      ref_cnt (blk p' c) + occ (req_blocks rid m) c = ref_cnt (blk p c) + occ bs c"
  shows "owns ex p' (set_req_blocks rid bs m)"
  using assms by (intro owns_set_req_blocks_ex [OF assms(1-5)]) (auto simp: owns_def)

lemma owns_open [simp]: "owns ex p m \<Longrightarrow> owns ex p (open_req rid m)"
  using owns_set_req_blocks [of ex p m p _ "[]" rid] by (auto simp: open_req_def owns_def req_blocks_def)

lemma open_req_fields [simp]:
  "st_null_block (open_req rid m) = st_null_block m" "st_spec (open_req rid m) = st_spec m"
  "st_block_size (open_req rid m) = st_block_size m"
  "st_pending_cow_copies (open_req rid m) = st_pending_cow_copies m"
  "st_partial_hit_reqs (open_req rid m) = st_partial_hit_reqs m"
  "st_num_cached_block (open_req rid m) = st_num_cached_block m"
  "mb_num_checkpoint_blocks (open_req rid m) = mb_num_checkpoint_blocks m"
  "mb_allocated_block_reqs (open_req rid m) = mb_allocated_block_reqs m"
  by (simp_all add: open_req_def)

subsection \<open>Steps that keep ownership\<close>

definition st_config where
  "st_config m = (st_spec m, st_block_size m, st_scheduler_block_size m, st_cache_hit_alignment_tokens m,
     st_dcp_world_size m, st_pcp_world_size m, st_enable_caching m, st_max_admission_blocks_per_request m,
     st_record_new_block_ids m, st_kv_cache_group_id m, st_null_block m, st_use_eagle m)"

definition keeps_owned :: "(nat \<Rightarrow> int) \<Rightarrow> block_pool \<Rightarrow> stm \<Rightarrow> block_pool \<Rightarrow> stm \<Rightarrow> bool" where
  "keeps_owned ex p m p' m' \<longleftrightarrow> owns ex p' m' \<and> pool_same p p' \<and> st_config m' = st_config m"

lemma st_config_simps [simp]:
  "st_config (m\<lparr>st_num_cached_block := a\<rparr>) = st_config m"
  "st_config (m\<lparr>st_partial_hit_reqs := b\<rparr>) = st_config m"
  "st_config (m\<lparr>st_new_block_ids := c\<rparr>) = st_config m"
  "st_config (m\<lparr>st_pending_cow_copies := k\<rparr>) = st_config m"
  "st_config (m\<lparr>st_req_to_blocks := l\<rparr>) = st_config m"
  "st_config (m\<lparr>st_pending_boundary_state_offloads := d\<rparr>) = st_config m"
  "st_config (m\<lparr>mb_cached_blocks_this_step := e\<rparr>) = st_config m"
  "st_config (m\<lparr>mb_last_state_block_idx := f\<rparr>) = st_config m"
  "st_config (m\<lparr>mb_allocated_block_reqs := g\<rparr>) = st_config m"
  "st_config (m\<lparr>mb_num_checkpoint_blocks := h\<rparr>) = st_config m"
  "st_config (m\<lparr>mb_producer_partial_tail_reqs := i\<rparr>) = st_config m"
  "st_config (set_req_blocks rid bs m) = st_config m"
  "st_config (open_req rid m) = st_config m"
  "st_config (record_new_block_ids bs p m) = st_config m"
  by (simp_all add: st_config_def set_req_blocks_def open_req_def record_new_block_ids_def)

lemma st_config_eq:
  "st_config m' = st_config m \<Longrightarrow> st_spec m' = st_spec m \<and> st_block_size m' = st_block_size m \<and> st_null_block m' = st_null_block m"
  by (simp add: st_config_def)

lemma keeps_owned_refl: "owns ex p m \<Longrightarrow> keeps_owned ex p m p m"
  by (simp add: keeps_owned_def)

lemma keeps_owned_trans: "keeps_owned ex p m p1 m1 \<Longrightarrow> keeps_owned ex p1 m1 p2 m2 \<Longrightarrow> keeps_owned ex p m p2 m2"
  using pool_same_trans by (auto simp: keeps_owned_def)

lemma keeps_owned_open: "keeps_owned ex p (open_req rid m) p' m' = keeps_owned ex p m p' m'"
  by (simp add: keeps_owned_def)

lemma keeps_ownedD: "keeps_owned ex p m p' m' \<Longrightarrow> owns ex p' m'" "keeps_owned ex p m p' m' \<Longrightarrow> pool_same p p'"
  by (simp_all add: keeps_owned_def)

lemma owns_record [simp]: "owns ex p (record_new_block_ids bs q m) = owns ex p m"
  by (simp add: record_new_block_ids_def)

lemma req_blocks_record [simp]: "req_blocks rid (record_new_block_ids bs q m) = req_blocks rid m"
  by (simp add: record_new_block_ids_def req_blocks_def)

lemma occ_distinct: "distinct xs \<Longrightarrow> occ xs c = of_bool (c \<in> set xs)"
  by (induction xs) auto

text \<open>Blocks from the pool: fresh, real, and with the one reference their taker will hold.\<close>

lemma get_new_blocks_owned:
  assumes rep: "pool_rep p xs" and run: "get_new_blocks n p = Inr (nb, p')" and n: "0 \<le> n"
  shows "nb = take (nat n) xs" "nat n \<le> length xs" "pool_rep p' (drop (nat n) xs)" "pool_same p p'" "length nb = nat n"
    "\<forall>b \<in> set nb. 0 < b \<and> b < num_gpu_blocks p" "distinct nb" "\<And>b. b \<in> set nb \<Longrightarrow> ref_cnt (blk p b) = 0"
    "\<And>c. ref_cnt (blk p' c) = ref_cnt (blk p c) + occ nb c"
proof -
  show le: "nat n \<le> length xs" using get_new_blocks_short [OF rep, of n] run n by (cases "int (length xs) < n") auto
  from get_new_blocks_spec [OF rep le] obtain q where q: "get_new_blocks n p = Inr (take (nat n) xs, q)"
    "pool_rep q (drop (nat n) xs)" "pool_same p q" "\<forall>c. ref_cnt (blk q c) = (if c \<in> set (take (nat n) xs) then 1 else ref_cnt (blk p c))"
    using n by auto
  then have e: "nb = take (nat n) xs" "p' = q" using run by auto
  show "nb = take (nat n) xs" "pool_rep p' (drop (nat n) xs)" "pool_same p p'" "length nb = nat n" using e q le by simp_all
  have free: "0 < b \<and> b < num_gpu_blocks p \<and> ref_cnt (blk p b) = 0" if "b \<in> set xs" for b
    using rep that by (auto simp: pool_rep_def refs_ok_def)
  have sub: "set nb \<subseteq> set xs" using e(1) set_take_subset by simp
  then show "\<forall>b \<in> set nb. 0 < b \<and> b < num_gpu_blocks p" "\<And>b. b \<in> set nb \<Longrightarrow> ref_cnt (blk p b) = 0" using free by auto
  have "distinct xs" using rep fq.rep_real by (auto simp: pool_rep_def pool_core_def)
  then show d: "distinct nb" using e(1) by simp
  show "ref_cnt (blk p' c) = ref_cnt (blk p c) + occ nb c" for c
    using q(4) e free sub occ_distinct [OF d, of c] by (auto simp: subset_iff)
qed

lemma extend_req_owned:
  assumes own: "owns ex p m" and run: "extend_req rid n p m = Inr (nb, p', m')" and n: "0 \<le> n"
  shows "keeps_owned ex p m p' m'" "req_blocks rid m' = req_blocks rid m @ nb" "length nb = nat n"
proof -
  obtain xs where rep: "pool_rep p xs" using own by (auto simp: owns_def)
  have g: "get_new_blocks n p = Inr (nb, p')"
    and m': "m' = record_new_block_ids nb p' (set_req_blocks rid (req_blocks rid m @ nb) m)"
    using run by (auto simp: extend_req_def result_simps)
  note G = get_new_blocks_owned [OF rep g n]
  have "\<forall>b \<in> set (req_blocks rid m @ nb). b < num_gpu_blocks p"
    using G(6) own req_blocks_claimed [of rid m] by (auto simp: owns_def)
  from owns_set_req_blocks [OF own G(3,4) this] G(9) show "keeps_owned ex p m p' m'"
    using G(4) by (simp add: keeps_owned_def m')
  show "req_blocks rid m' = req_blocks rid m @ nb" "length nb = nat n" using G(5) by (simp_all add: m')
qed

lemma base_add_local_owned:
  assumes own: "owns ex p m" and hits: "\<forall>b \<in> set new_computed_blocks. b < num_gpu_blocks p"
    and run: "base_add_local_computed_blocks rid new_computed_blocks num_local num_external p m = Inr (p', m')"
  shows "keeps_owned ex p m p' m'"
proof -
  obtain xs where rep: "pool_rep p xs" using own by (auto simp: owns_def)
  define k where "k = get_num_skipped_tokens (spec_kind (st_spec m)) (num_local + num_external) div st_block_size m"
  define hs where "hs = (if k > 0 then drop (nat k) new_computed_blocks else new_computed_blocks)"
  define bs where "bs = replicate (nat k) (st_null_block m) @ hs"
  have empty: "req_blocks rid m = []"
    and t: "(if st_enable_caching m then touch hs p else if hs \<noteq> [] then Inl AssertionError else Inr p) = Inr p'"
    and m': "st_config m' = st_config m \<and> (\<forall>ex q. owns ex q m' = owns ex q (set_req_blocks rid bs (open_req rid m)))"
    using run by (auto simp: base_add_local_computed_blocks_def Let_def result_simps k_def hs_def bs_def split: if_split_asm)
  have hv: "\<forall>b \<in> set hs. b < num_gpu_blocks p" using hits by (auto simp: hs_def dest: in_set_dropD)
  from touch_spec [OF rep hv] obtain q where q: "touch hs p = Inr q" "pool_rep q (filter (\<lambda>x. x \<notin> set hs) xs)" "pool_same p q"
    "\<forall>c. ref_cnt (blk q c) = ref_cnt (blk p c) + occ hs c" by auto
  have p': "pool_same p p' \<and> (\<exists>ys. pool_rep p' ys) \<and> (\<forall>c. ref_cnt (blk p' c) = ref_cnt (blk p c) + occ hs c)"
    using t q rep by (auto split: if_splits)
  have null: "st_null_block m = 0" using own by (simp add: owns_def)
  have zero: "occ (replicate (nat k) 0) c = 0" if "0 < c" for c :: nat using that by (induction "nat k") auto
  have "\<forall>b \<in> set bs. b < num_gpu_blocks p"
    using hv rep null by (auto simp: bs_def pool_rep_def pool_core_def pool_shape_def)
  then have "owns ex p' (set_req_blocks rid bs (open_req rid m))"
    using owns_set_req_blocks [of ex p "open_req rid m" p' _ bs rid] own p' empty zero null
    by (auto simp: bs_def)
  then show ?thesis using m' p' by (simp add: keeps_owned_def)
qed

lemma base_allocate_external_owned:
  assumes "owns ex p m" and "base_allocate_external_computed_blocks rid num_local num_external p m = Inr (p', m')"
  shows "keeps_owned ex p m p' m'"
proof -
  let ?n = "max 0 (cdiv (num_local + num_external) (st_block_size m) - int (length (req_blocks rid (open_req rid m))))"
  consider "p' = p" "m' = m" | nb where "extend_req rid ?n p (open_req rid m) = Inr (nb, p', m')"
    using assms(2) by (auto simp: base_allocate_external_computed_blocks_def Let_def result_simps split: if_split_asm)
  then show ?thesis
  proof cases
    case 2
    from extend_req_owned(1) [OF _ this] assms(1) show ?thesis by (simp add: keeps_owned_open)
  qed (use assms(1) in \<open>simp add: keeps_owned_refl\<close>)
qed

text \<open>Taking a further reference to a block that is in use.\<close>

lemma pool_rep_bump:
  assumes rep: "pool_rep p xs" and b: "0 < b \<Longrightarrow> b < num_gpu_blocks p \<Longrightarrow> 0 < ref_cnt (blk p b)"
  shows "pool_rep (upd_blk b (bump 1) p) xs" "pool_same p (upd_blk b (bump 1) p)"
    "ref_cnt (blk (upd_blk b (bump 1) p) c) = ref_cnt (blk p c) + of_bool (c = b)"
proof -
  let ?p = "upd_blk b (bump 1) p"
  show same: "pool_same p ?p" by simp
  show refs: "ref_cnt (blk ?p c) = ref_cnt (blk p c) + of_bool (c = b)" for c by simp
  have "refs_ok ?p xs"
    using rep b by (fastforce simp: pool_rep_def refs_ok_def)
  then show "pool_rep ?p xs"
    using rep pool_same_shape [OF same] by (simp add: pool_rep_def pool_core_def)
qed

lemma claims_pending:
  "mset (st_claims (m\<lparr>st_pending_cow_copies := st_pending_cow_copies m @ [(s, d)]\<rparr>)) = mset (st_claims m) + {#s, d#}"
  by (simp add: st_claims_def ac_simps)

lemma occ_mset_eq: "mset xs = mset ys \<Longrightarrow> occ xs c = occ ys c"
  by (metis count_mset)

text \<open>
  A block list and the pending copies change together: \<^verbatim>\<open>source\<close> and \<^verbatim>\<open>cow\<close> are pinned by the new pair.
\<close>

lemma owns_add_pending:
  assumes own: "owns (\<lambda>c. ex c + occ [s, d] c) p m" and sd: "s < num_gpu_blocks p" "d < num_gpu_blocks p"
    and ex: "\<And>c. 0 \<le> ex c"
  shows "owns ex p (m\<lparr>st_pending_cow_copies := st_pending_cow_copies m @ [(s, d)]\<rparr>)"
proof -
  let ?m = "m\<lparr>st_pending_cow_copies := st_pending_cow_copies m @ [(s, d)]\<rparr>"
  have M: "mset (st_claims ?m) = mset (st_claims m @ [s, d])" using claims_pending by simp
  have "set (st_claims ?m) = set (st_claims m) \<union> {s, d}" using mset_eq_setD [OF M] by simp
  moreover have "occ (st_claims ?m) c = occ (st_claims m) c + occ [s, d] c" for c
    using occ_mset_eq [OF M, of c] by simp
  ultimately show ?thesis using own sd ex by (auto simp: owns_def)
qed

lemma apply_cow_owned:
  assumes own: "owns (\<lambda>c. ex c + of_bool (c = cow)) p m" and ex: "\<And>c. 0 \<le> ex c"
    and cow: "0 < cow" "cow < num_gpu_blocks p"
    and run: "apply_cow rid idx src cow p m = Inr (p', m')"
  shows "keeps_owned ex p m p' m'"
proof -
  obtain xs where rep: "pool_rep p xs" using own by (auto simp: owns_def)
  let ?bs = "req_blocks rid m" and ?p = "upd_blk cow (bump 1) p"
  obtain bs' where i: "py_index ?bs idx = Inr src" and u: "py_update ?bs idx cow = Inr bs'" and p': "p' = ?p"
    and m': "m' = (set_req_blocks rid bs' (open_req rid m))\<lparr>st_pending_cow_copies := st_pending_cow_copies m @ [(src, cow)]\<rparr>"
    using run by (auto simp: apply_cow_def Let_def result_simps split: if_split_asm)
  from py_index_pos [OF i] obtain j where j: "j < length ?bs" "src = ?bs ! j" "\<And>v. py_update ?bs idx v = Inr (?bs[j := v])" by blast
  have bs': "bs' = ?bs[j := cow]" using j(3) u by simp
  have valid: "\<forall>b \<in> set ?bs. b < num_gpu_blocks p" using own req_blocks_claimed [of rid m] by (auto simp: owns_def)
  have "0 < ref_cnt (blk p cow)" using own cow ex [of cow] by (simp add: owns_def)
  note B = pool_rep_bump [OF rep this]
  have upd: "occ bs' c + of_bool (c = src) = occ ?bs c + of_bool (c = cow)" for c
    using j(1) occ_mset [of bs' "[src]" ?bs "[cow]" c] j(2)
    by (simp add: bs' mset_update) (auto split: if_splits)
  have "owns (\<lambda>c. ex c + occ [src, cow] c) ?p (set_req_blocks rid bs' (open_req rid m))"
  proof (rule owns_set_req_blocks_ex [OF _ B(1,2)])
    show "owns (\<lambda>c. ex c + of_bool (c = cow)) p (open_req rid m)" using own by simp
    show "\<forall>b \<in> set bs'. b < num_gpu_blocks p" using valid cow by (auto simp: bs' dest!: set_update_subset_insert [THEN subsetD])
    show "length (req_blocks rid (open_req rid m)) \<le> length bs'" by (simp add: bs')
    show "0 \<le> ex c + occ [src, cow] c" for c using ex [of c] by simp
    show "ref_cnt (blk ?p c) + occ (req_blocks rid (open_req rid m)) c + (ex c + of_bool (c = cow)) =
        ref_cnt (blk p c) + occ bs' c + (ex c + occ [src, cow] c)" for c
      using upd [of c] B(3) [of c] by (auto split: if_splits)
  qed
  then show ?thesis
    using owns_add_pending [of ex src cow ?p "set_req_blocks rid bs' (open_req rid m)"] ex cow valid j B(2)
    by (auto simp: keeps_owned_def p' m')
qed

text \<open>References that pass between the pool and others.\<close>

lemma owns_pool:
  assumes "owns ex p m" and "pool_rep p' xs" and "pool_same p p'" and "\<And>c. 0 \<le> ex' c"
    and "\<And>c. 0 < c \<Longrightarrow> c < num_gpu_blocks p \<Longrightarrow> ref_cnt (blk p' c) + ex c = ref_cnt (blk p c) + ex' c"
  shows "owns ex' p' m"
proof -
  have n: "num_gpu_blocks p' = num_gpu_blocks p" using pool_same_n [OF assms(3)] .
  have "ref_cnt (blk p' c) = ex' c + occ (st_claims m) c" if "0 < c" "c < num_gpu_blocks p" for c
    using assms(5) [OF that] assms(1) that by (simp add: owns_def)
  then show ?thesis using assms(1,2,4) n by (auto simp: owns_def)
qed

lemma owns_kept:
  assumes "kept p p'" and "owns ex p m"
  shows "owns ex p' m"
proof -
  obtain xs where "pool_rep p xs" using assms(2) by (auto simp: owns_def)
  from kept_pool_rep [OF assms(1) this] show ?thesis
    using assms by (intro owns_pool [OF assms(2)]) (auto simp: owns_def kept_def)
qed

lemma keeps_owned_kept:
  "kept p p' \<Longrightarrow> owns ex p m' \<Longrightarrow> st_config m' = st_config m \<Longrightarrow> keeps_owned ex p m p' m'"
  using owns_kept by (simp add: keeps_owned_def kept_def)

lemma get_new_blocks_owns:
  assumes own: "owns ex p m" and run: "get_new_blocks n p = Inr (nb, p')" and n: "0 \<le> n"
  shows "owns (\<lambda>c. ex c + occ nb c) p' m" "pool_same p p'" "length nb = nat n"
    "\<forall>b \<in> set nb. 0 < b \<and> b < num_gpu_blocks p" "set nb \<inter> set (st_claims m) = {}"
proof -
  obtain xs where rep: "pool_rep p xs" using own by (auto simp: owns_def)
  note G = get_new_blocks_owned [OF rep run n]
  show "owns (\<lambda>c. ex c + occ nb c) p' m"
    using own by (intro owns_pool [OF own G(3,4)]) (auto simp: G(9) owns_def)
  show "pool_same p p'" "length nb = nat n" "\<forall>b \<in> set nb. 0 < b \<and> b < num_gpu_blocks p" using G by simp_all
  have "b \<notin> set (st_claims m)" if "b \<in> set nb" for b
  proof -
    have "0 \<le> ex b" "ref_cnt (blk p b) = ex b + occ (st_claims m) b" using own G(6) that by (auto simp: owns_def)
    then have "occ (st_claims m) b = 0" using G(8) [OF that] by simp
    then show ?thesis by (simp add: count_list_0_iff)
  qed
  then show "set nb \<inter> set (st_claims m) = {}" by blast
qed

lemma base_redirect_owned:
  assumes own: "owns ex p m" and run: "base_redirect_partial_hit rid p m = Inr (cow_blocks, p', m')"
  shows "keeps_owned ex p m p' m'"
proof (cases "st_partial_hit_reqs m rid")
  case None
  then show ?thesis using assms by (simp add: base_redirect_partial_hit_def keeps_owned_refl)
next
  case (Some hit)
  obtain idx src where hit: "hit = (idx, src)" by force
  let ?m = "m\<lparr>st_partial_hit_reqs := (st_partial_hit_reqs m)(rid := None)\<rparr>"
  obtain nb p1 cow m2 where g: "get_new_blocks 1 p = Inr (nb, p1)" and c: "py_index nb 0 = Inr cow"
    and a: "apply_cow rid idx src cow p1 ?m = Inr (p', m2)"
    and m': "m' = m2\<lparr>st_new_block_ids := st_new_block_ids m2 @ [block_id (blk p' cow)]\<rparr>"
    using run Some hit by (auto simp: base_redirect_partial_hit_def result_simps)
  have ex: "0 \<le> ex c" for c using own by (simp add: owns_def)
  have "owns ex p ?m" using own by simp
  note G = get_new_blocks_owns [OF this g]
  have nb: "nb = [cow]" using G(3) c by (cases nb) (auto simp: py_index_def)
  have "owns (\<lambda>c. ex c + of_bool (c = cow)) p1 ?m" 
  proof -
    have "(\<lambda>c. ex c + occ nb c) = (\<lambda>c. ex c + of_bool (c = cow))" by (auto simp: nb)
    then show ?thesis using G(1) by simp
  qed
  from apply_cow_owned [OF this ex _ _ a] have "keeps_owned ex p1 ?m p' m2"
    using G(4) nb pool_same_n [OF G(2)] by simp
  then show ?thesis using pool_same_trans [OF G(2)] by (simp add: keeps_owned_def m')
qed

lemma base_allocate_new_owned:
  assumes own: "owns ex p m" and run: "base_allocate_new_blocks rid num_toks p m = Inr (bs, p', m')"
  shows "keeps_owned ex p m p' m'"
proof -
  obtain cow p1 m1 where r: "base_redirect_partial_hit rid p m = Inr (cow, p1, m1)"
    using run by (auto simp: base_allocate_new_blocks_def result_simps)
  note R = base_redirect_owned [OF own r]
  let ?n = "cdiv num_toks (st_block_size m1) - int (length (req_blocks rid m1))"
  consider "p' = p1" "m' = open_req rid m1" | nb where "0 < ?n" "extend_req rid ?n p1 (open_req rid m1) = Inr (nb, p', m')"
    using run r by (auto simp: base_allocate_new_blocks_def Let_def result_simps split: if_split_asm)
  then have "keeps_owned ex p1 m1 p' m'"
  proof cases
    case 1
    then show ?thesis using keeps_ownedD(1) [OF R] by (simp add: keeps_owned_def)
  next
    case 2
    from extend_req_owned(1) [OF _ 2(2)] 2(1) keeps_ownedD(1) [OF R] show ?thesis by (simp add: keeps_owned_open)
  qed
  then show ?thesis using keeps_owned_trans [OF R] by blast
qed

lemma base_cache_blocks_owned:
  assumes own: "owns ex p m" and run: "base_cache_blocks dg r num_toks retention p m = Inr (r', p', m')"
  shows "keeps_owned ex p m p' m'"
proof -
  obtain xs where rep: "pool_rep p xs" using own by (auto simp: owns_def)
  let ?m = "open_req (request_id r) m"
  have valid: "\<forall>b \<in> set (req_blocks (request_id r) ?m). b < num_gpu_blocks p"
    using own req_blocks_claimed [of "request_id r" m] by (auto simp: owns_def)
  consider "p' = p" "m' = m" | nc nf bsz g msk where
    "cache_full_blocks dg r (req_blocks (request_id r) ?m) nc nf bsz g msk p = Inr (r', p')"
    "m' = ?m\<lparr>st_num_cached_block := (st_num_cached_block ?m)(request_id r \<mapsto> nf)\<rparr>"
  proof (cases "(case st_num_cached_block m (request_id r) of None \<Rightarrow> 0 | Some n \<Rightarrow> n) \<ge> num_toks div st_block_size m")
    case True
    then show ?thesis using that(1) run by (simp add: base_cache_blocks_def)
  next
    case False
    then show ?thesis using that(2) run by (auto simp: base_cache_blocks_def Let_def bindE_eq_Inr)
  qed
  then show ?thesis
  proof cases
    case 2
    from cache_full_blocks_spec(1) [OF rep valid 2(1)] have "kept p p'" .
    then show ?thesis using own 2(2) by (intro keeps_owned_kept) simp_all
  qed (use own in \<open>simp add: keeps_owned_refl\<close>)
qed

lemma full_cache_partial_owned:
  assumes own: "owns ex p m" and run: "full_cache_partial_tail_block dg r num_toks p m = Inr (r', p', m')"
  shows "keeps_owned ex p m p' m'"
proof -
  let ?m = "open_req (request_id r) m"
  obtain xs where rep: "pool_rep p xs" using own by (auto simp: owns_def)
  have valid: "\<forall>b \<in> set (req_blocks (request_id r) ?m). b < num_gpu_blocks p"
    using own req_blocks_claimed [of "request_id r" m] by (auto simp: owns_def)
  consider "p' = p" "m' = m \<or> m' = ?m" | i b res nt g bsz where "py_index (req_blocks (request_id r) ?m) i = Inr b"
    "cache_partial_block dg r b nt g bsz p = Inr (res, r', p')" "m' = ?m"
  proof -
    let ?b = "num_prompt_tokens r div hash_block_size p * hash_block_size p"
    let ?done = "?b = 0 \<or> ?b > num_toks" and ?full = "?b mod st_block_size m = 0"
      and ?out = "?b div st_block_size m \<ge> int (length (req_blocks (request_id r) m))"
    show thesis
    proof (cases "?done \<or> ?full \<or> ?out")
      case True
      then have "p' = p" "m' = m \<or> m' = ?m" using run
        by (auto simp: full_cache_partial_tail_block_def Let_def split: if_split_asm)
      then show thesis by (rule that(1))
    next
      case False
      then show thesis using run that(2) by (auto simp: full_cache_partial_tail_block_def Let_def bindE_eq_Inr)
    qed
  qed
  then show ?thesis
  proof cases
    case 1
    then show ?thesis using own by (auto simp: keeps_owned_def)
  next
    case 2
    have "b < num_gpu_blocks p" using 2(1) valid by (elim py_index_pos) auto
    then have "kept p p'" using cache_partial_block_spec [OF _ _ _ 2(2)] rep by (simp add: pool_rep_def pool_core_def)
    then show ?thesis using own 2(3) by (intro keeps_owned_kept) simp_all
  qed
qed

lemma full_cache_blocks_owned:
  assumes own: "owns ex p m" and run: "full_cache_blocks dg r num_toks retention p m = Inr (r', p', m')"
  shows "keeps_owned ex p m p' m'"
proof -
  obtain r1 p1 m1 where b: "base_cache_blocks dg r num_toks retention p m = Inr (r1, p1, m1)"
    and rest: "(if st_block_size m1 = hash_block_size p1 then Inr (r1, p1, m1)
                else full_cache_partial_tail_block dg r1 num_toks p1 m1) = Inr (r', p', m')"
    using run by (auto simp: full_cache_blocks_def bindE_eq_Inr)
  note B = base_cache_blocks_owned [OF own b]
  have "keeps_owned ex p1 m1 p' m'"
    using rest full_cache_partial_owned keeps_ownedD(1) [OF B] by (auto simp: keeps_owned_refl split: if_split_asm)
  then show ?thesis using keeps_owned_trans [OF B] by blast
qed

subsection \<open>Releasing blocks\<close>

text \<open>The popped blocks become references that the caller holds.\<close>

lemma base_pop_owned:
  assumes own: "owns ex p m" and pop: "base_pop_blocks_for_free rid m = (bs, m')"
    and rid: "rid \<notin> set (mb_allocated_block_reqs m)"
  shows "owns (\<lambda>c. ex c + occ bs c) p m'" "st_config m' = st_config m" "bs = req_blocks rid m" "req_blocks rid m' = []"
proof -
  have d: "distinct (map fst (st_req_to_blocks m))" using own by (simp add: owns_def)
  have e: "bs = req_blocks rid m" "mset (st_claims m') + mset bs = mset (st_claims m)" "st_config m' = st_config m"
    "st_req_to_blocks m' = AList.delete rid (st_req_to_blocks m)" "st_null_block m' = st_null_block m"
    using pop mset_concat_delete [OF d, of rid]
    by (auto simp: base_pop_blocks_for_free_def st_claims_def req_blocks_def ac_simps)
  then show "st_config m' = st_config m" "bs = req_blocks rid m" "req_blocks rid m' = []"
    by (simp_all add: req_blocks_def delete_conv')
  have "st_ok m'"
  proof (rule st_ok_cong)
    show "st_ok m" using own by (simp add: owns_def)
  qed (use pop own rid in \<open>auto simp: base_pop_blocks_for_free_def req_blocks_def delete_conv' owns_def st_ok_def\<close>)
  moreover have "set (st_claims m') \<subseteq> set (st_claims m)" by (metis e(2) Un_upper1 set_mset_mset set_mset_union)
  moreover have "occ (st_claims m) c = occ (st_claims m') c + occ bs c" for c
    using occ_mset [of "st_claims m'" bs "st_claims m" "[]" c] e(2) by simp
  ultimately show "owns (\<lambda>c. ex c + occ bs c) p m'"
    using own distinct_delete [OF d, of rid] e(4,5) by (auto simp: owns_def)
qed

text \<open>Freeing blocks whose references others hold never raises and takes these references back.\<close>

lemma free_blocks_owned:
  assumes own: "owns (\<lambda>c. ex c + occ bs c) p m" and ex: "\<And>c. 0 \<le> ex c" and bs: "\<forall>b \<in> set bs. b < num_gpu_blocks p"
  shows "\<exists>p'. free_blocks bs p = Inr p' \<and> owns ex p' m \<and> pool_same p p'"
proof -
  obtain xs where rep: "pool_rep p xs" using own by (auto simp: owns_def)
  have "occ bs c \<le> ref_cnt (blk p c)" if "c \<in> set bs" "0 < c" for c
    using own ex [of c] bs that by (simp add: owns_def)
  from free_blocks_spec [OF rep bs this] obtain p' ys where
    "free_blocks bs p = Inr p'" "pool_rep p' ys" "pool_same p p'" "\<forall>c. ref_cnt (blk p' c) = ref_cnt (blk p c) - occ bs c" by auto
  moreover from this ex have "owns ex p' m" by (intro owns_pool [OF own, of p' ys ex]) auto
  ultimately show ?thesis by blast
qed

text \<open>The loop of \<^verbatim>\<open>_remove_blocks_in_range\<close> swaps the freed blocks for null blocks.\<close>

lemma null_out_spec:
  assumes "null_out is 0 bs = Inr (fs, bs')"
  shows "length bs' = length bs \<and> set fs \<subseteq> set bs \<and> 0 \<notin> set fs \<and> set bs' \<subseteq> insert 0 (set bs) \<and>
    (0 < c \<longrightarrow> occ bs' c + occ fs c = occ bs c)"
  using assms
proof (induction "is" arbitrary: bs fs)
  case (Cons i "is")
  obtain b where b: "py_index bs i = Inr b" using Cons.prems by (auto simp: bindE_eq_Inr)
  from py_index_pos [OF b] obtain j where j: "j < length bs" "b = bs ! j" "\<And>v. py_update bs i v = Inr (bs[j := v])" by blast
  show ?case
  proof (cases "b = 0")
    case True
    then show ?thesis using Cons.prems b by auto
  next
    case False
    then obtain fs1 where f: "null_out is 0 (bs[j := 0]) = Inr (fs1, bs')" "fs = b # fs1"
      using Cons.prems b j(3) by (auto simp: bindE_eq_Inr)
    note IH = Cons.IH [OF f(1)]
    have sub: "set (bs[j := 0]) \<subseteq> insert 0 (set bs)" by (rule set_update_subset_insert)
    have o: "occ (bs[j := 0]) c + of_bool (c = b) = occ bs c" if "0 < c"
      using j(1,2) that occ_mset [of "bs[j := 0]" "[b]" bs "[0]" c] by (auto simp: mset_update split: if_splits)
    have "set fs \<subseteq> set bs" using IH sub f(2) j by auto
    moreover have "set bs' \<subseteq> insert 0 (set bs)" using IH sub by auto
    moreover have "0 < c \<longrightarrow> occ bs' c + occ fs c = occ bs c" using IH o f(2) by (auto split: if_splits)
    ultimately show ?thesis using IH f(2) False by simp
  qed
qed auto

lemma remove_range_owned:
  assumes own: "owns ex p m" and run: "remove_blocks_in_range rid first_block last_block p m = Inr (p', m')"
  shows "keeps_owned ex p m p' m'"
proof (cases "map_of (st_req_to_blocks m) rid = None \<or> first_block \<ge> last_block")
  case True
  then show ?thesis using assms by (auto simp: remove_blocks_in_range_def keeps_owned_refl split: option.splits)
next
  case False
  then obtain blocks where bl: "map_of (st_req_to_blocks m) rid = Some blocks" by auto
  have rb: "req_blocks rid m = blocks" by (simp add: req_blocks_def bl)
  have null: "st_null_block m = 0" using own by (simp add: owns_def)
  obtain xs where rep: "pool_rep p xs" using own by (auto simp: owns_def)
  obtain "is" fs bs' where n: "null_out is 0 blocks = Inr (fs, bs')" and m': "m' = set_req_blocks rid bs' m"
    and fr: "(if fs = [] then Inr p else free_blocks fs p) = Inr p'"
    using run False bl null by (auto simp: remove_blocks_in_range_def Let_def bindE_eq_Inr split: if_split_asm)
  note N = null_out_spec [OF n]
  have valid: "\<forall>b \<in> set blocks. b < num_gpu_blocks p" using own req_blocks_claimed [of rid m] rb by (auto simp: owns_def)
  have pos: "0 < num_gpu_blocks p" using rep by (simp add: pool_rep_def pool_core_def pool_shape_def)
  have ex: "0 \<le> ex c" for c using own by (simp add: owns_def)
  have "owns (\<lambda>c. ex c + occ fs c) p m'"
    unfolding m' using N valid pos ex rb
    by (intro owns_set_req_blocks_ex [OF own rep pool_same_refl]) (auto simp: add_nonneg_nonneg)
  from free_blocks_owned [OF this ex] N valid obtain q where "free_blocks fs p = Inr q" "owns ex q m'" "pool_same p q" by blast
  moreover have "fs = [] \<Longrightarrow> owns ex p m'" using \<open>owns (\<lambda>c. ex c + occ fs c) p m'\<close> by simp
  ultimately show ?thesis using fr m' by (auto simp: keeps_owned_def split: if_split_asm)
qed

lemma base_remove_skipped_owned:
  assumes "owns ex p m" and "base_remove_skipped_blocks rid processed p m = Inr (p', m')"
  shows "keeps_owned ex p m p' m'"
  using assms remove_range_owned [of ex p "open_req rid m" rid]
  by (auto simp: base_remove_skipped_blocks_def Let_def keeps_owned_refl keeps_owned_open split: if_split_asm)

lemma rswa_remove_skipped_owned:
  assumes "owns ex p m" and "rswa_remove_skipped_blocks w rid processed prompt p m = Inr (p', m')"
  shows "keeps_owned ex p m p' m'"
  using assms base_remove_skipped_owned remove_range_owned
  by (auto simp: rswa_remove_skipped_blocks_def Let_def split: option.splits)

lemma kpool_allocate_owned:
  assumes "owns ex p m" and "kpool_allocate_new_blocks rid p m = Inr (bs, p', m')"
  shows "keeps_owned ex p m p' m'"
  using assms extend_req_owned(1) [of ex p "open_req rid m" rid 1 bs]
  by (auto simp: kpool_allocate_new_blocks_def Let_def keeps_owned_open keeps_owned_def split: if_split_asm)

lemma kpool_external_owned:
  assumes "owns ex p m" and "kpool_allocate_external_computed_blocks rid p m = Inr (p', m')"
  shows "keeps_owned ex p m p' m'"
  using assms kpool_allocate_owned [of ex p m rid]
  by (auto simp: kpool_allocate_external_computed_blocks_def kpool_allocate_new_blocks_def Let_def bindE_eq_Inr
      keeps_owned_def split: if_split_asm)

lemma claim_ring_owned:
  assumes "owns ex p m" and "claim_ring_block rid p m = Inr (bs, p', m')"
  shows "keeps_owned ex p m p' m'"
  using assms extend_req_owned(1) [of ex p "open_req rid m" rid 1 bs]
  by (auto simp: claim_ring_block_def Let_def keeps_owned_open keeps_owned_def split: if_split_asm)

end
