(* ===== verification/Mamba.thy ===== *)
theory Mamba
  imports Single_Type
begin

text \<open>
  \<^verbatim>\<open>MambaManager\<close> of \<^verbatim>\<open>v1/core/single_type_kv_cache_manager.py\<close>: one state block at the end of a request's block list,
  speculative scratch blocks behind it and null blocks in front. In the \<^verbatim>\<open>align\<close> mode states are cached at block
  boundaries, a prompt that ends inside a block leaves a partial entry, and the block is copied before the next step
  overwrites it.
\<close>

section \<open>Operations\<close>

definition mamba_remove_skipped_blocks :: "string \<Rightarrow> int \<Rightarrow> block_pool \<Rightarrow> stm \<Rightarrow> (block_pool \<times> stm) result" where
  "mamba_remove_skipped_blocks rid processed_computed_tokens p m =
     bindE (base_remove_skipped_blocks rid processed_computed_tokens p m) (\<lambda>(p1, m1).
       case (if align_mode m1 then mb_last_state_block_idx m1 rid else None) of
         None \<Rightarrow> Inr (p1, m1)
       | Some idx \<Rightarrow>
           if idx < cdiv processed_computed_tokens (st_block_size m1) - 1
           then
             (let m2 = open_req rid m1; blocks = req_blocks rid m2
              in bindE (py_index blocks idx) (\<lambda>b.
                   if b \<noteq> st_null_block m2
                   then bindE (free_blocks [b] p1) (\<lambda>p2.
                        bindE (py_update blocks idx (st_null_block m2)) (\<lambda>blocks'. Inr (p2, set_req_blocks rid blocks' m2)))
                   else Inr (p1, m2)))
           else Inr (p1, m1))"

definition needs_internal_checkpoint :: "string \<Rightarrow> int \<Rightarrow> int \<Rightarrow> block_pool \<Rightarrow> stm \<Rightarrow> bool" where
  "needs_internal_checkpoint rid num_toks num_computed p m \<longleftrightarrow>
     (let checkpoint_idx = cdiv num_toks (st_block_size m) - 2; blocks = req_blocks rid m
      in num_prefill_checkpoint_blocks m > 0 \<and>
         num_toks mod st_block_size m \<noteq> 0 \<and>
         num_computed mod st_block_size m = 0 \<and>
         checkpoint_idx \<ge> 0 \<and>
         (checkpoint_idx \<ge> int (length blocks) \<or> is_null (blk p (blocks ! nat checkpoint_idx))))"

definition mamba_align_num_blocks_to_allocate ::
  "block_pool \<Rightarrow> string \<Rightarrow> int \<Rightarrow> nat list \<Rightarrow> int \<Rightarrow> int \<Rightarrow> bool \<Rightarrow> stm \<Rightarrow> int \<times> stm" where
  "mamba_align_num_blocks_to_allocate p rid num_toks new_computed_blocks total_computed_tokens
     num_local_computed_tokens apply_admission_cap m =
     (let m1 = open_req rid m;
          num_required_blocks = cdiv num_toks (st_block_size m1) + num_speculative_blocks m1;
          new0 = num_required_blocks - int (length new_computed_blocks) - int (length (req_blocks rid m1));
          has_partial_hit = (has_partial_local_hit m1 new_computed_blocks num_local_computed_tokens \<or>
                             st_partial_hit_reqs m1 rid \<noteq> None);
          new1 = (if has_partial_hit then max new0 0 + 1 else new0);
          checkpoint_block = of_bool (needs_internal_checkpoint rid num_toks total_computed_tokens p m1);
          m2 = (if apply_admission_cap then m1
                else m1\<lparr>mb_num_checkpoint_blocks := (mb_num_checkpoint_blocks m1)(rid \<mapsto> checkpoint_block)\<rparr>);
          new2 = (if new1 > 0
                  then 1 + of_bool has_partial_hit + checkpoint_block +
                       (if rid \<notin> set (mb_allocated_block_reqs m1) then num_speculative_blocks m1 else 0)
                  else new1)
      in (new2 + get_num_evictable_blocks p new_computed_blocks, m2))"

definition mamba_get_num_blocks_to_allocate ::
  "block_pool \<Rightarrow> string \<Rightarrow> int \<Rightarrow> nat list \<Rightarrow> int \<Rightarrow> int \<Rightarrow> int \<Rightarrow> bool \<Rightarrow> stm \<Rightarrow> (int \<times> stm) result" where
  "mamba_get_num_blocks_to_allocate p rid num_toks new_computed_blocks total_computed_tokens
     num_local_computed_tokens num_tokens_main_model apply_admission_cap m =
     (if new_computed_blocks \<noteq> [] \<and>
         (case block_hash (blk p (last new_computed_blocks)) of
            None \<Rightarrow> False | Some h \<Rightarrow> h \<in> set (mb_cached_blocks_this_step m))
      then Inr (int (num_gpu_blocks p) + 1, m)
      else if \<not> align_mode m
      then
        (let n = (if num_speculative_blocks m > 0
                  then num_toks + spec_block_size (st_spec m) * num_speculative_blocks m else num_toks)
         in bindE (base_get_num_blocks_to_allocate p m rid n new_computed_blocks total_computed_tokens
                     num_local_computed_tokens apply_admission_cap) (\<lambda>k. Inr (k, m)))
      else Inr (mamba_align_num_blocks_to_allocate p rid num_tokens_main_model new_computed_blocks
                  total_computed_tokens num_local_computed_tokens apply_admission_cap m))"

definition relocate_speculative_block :: "nat \<Rightarrow> block_pool \<Rightarrow> int \<Rightarrow> nat list \<Rightarrow> nat list result" where
  "relocate_speculative_block null p block_idx blocks =
     bindE (py_index blocks block_idx) (\<lambda>b.
       if \<not> is_block_writable b p then Inl AssertionError else py_update (blocks @ [b]) block_idx null)"

primrec relocate_loop :: "int \<Rightarrow> nat \<Rightarrow> block_pool \<Rightarrow> int list \<Rightarrow> nat list \<Rightarrow> nat list result" where
  "relocate_loop num_skipped null p [] blocks = Inr blocks"
| "relocate_loop num_skipped null p (i # is) blocks =
     (if i < num_skipped
      then bindE (relocate_speculative_block null p i blocks) (relocate_loop num_skipped null p is)
      else Inr blocks)"

text \<open>The copy for a running request: the cache entry moves to the new block.\<close>

definition mamba_running_cow :: "string \<Rightarrow> int \<Rightarrow> nat \<Rightarrow> nat \<Rightarrow> block_pool \<Rightarrow> stm \<Rightarrow> (block_pool \<times> stm) result" where
  "mamba_running_cow rid block_idx source_block cow_block p m =
     bindE (py_index (req_blocks rid m) block_idx) (\<lambda>b.
       if b \<noteq> source_block then Inl AssertionError
       else
         bindE (move_block_hashes source_block cow_block p) (\<lambda>p1.
           let p2 = upd_blk source_block (bump 1) p1;
               m1 = m\<lparr>st_pending_cow_copies := st_pending_cow_copies m @ [(source_block, cow_block)],
                       mb_producer_partial_tail_reqs := (mb_producer_partial_tail_reqs m)(rid := None)\<rparr>;
               m2 = (case mb_producer_partial_tail_reqs m rid of
                       None \<Rightarrow> m1
                     | Some boundary_tokens \<Rightarrow>
                         m1\<lparr>st_pending_boundary_state_offloads := st_pending_boundary_state_offloads m1 @
                              [(rid, st_kv_cache_group_id m, cow_block, boundary_tokens)]\<rparr>);
               m3 = (case block_hash (blk p2 cow_block) of
                       None \<Rightarrow> m2
                     | Some h \<Rightarrow> m2\<lparr>mb_cached_blocks_this_step := List.insert h (mb_cached_blocks_this_step m2)\<rparr>)
           in Inr (p2, m3)))"

text \<open>The block list after the previous state has been noted, null blocks appended and scratch blocks relocated.\<close>

definition mamba_prepare_blocks ::
  "int \<Rightarrow> int \<Rightarrow> int \<Rightarrow> bool \<Rightarrow> nat \<Rightarrow> block_pool \<Rightarrow> nat list \<Rightarrow> nat list result" where
  "mamba_prepare_blocks num_required_blocks num_spec checkpoint_block blocks_allocated null p blocks =
     (let prev_block_len = int (length blocks);
          num_skipped_blocks = num_required_blocks - num_spec - 1;
          blocks1 = (if prev_block_len < num_skipped_blocks
                     then blocks @ replicate (nat (num_skipped_blocks - checkpoint_block - prev_block_len)) null
                     else blocks)
      in if blocks_allocated
         then relocate_loop num_skipped_blocks null p [prev_block_len - num_spec..prev_block_len - 1] blocks1
         else Inr blocks1)"

definition mamba_note_last_state :: "string \<Rightarrow> int \<Rightarrow> bool \<Rightarrow> stm \<Rightarrow> stm" where
  "mamba_note_last_state rid prev_block_len blocks_allocated m =
     (if blocks_allocated
      then m\<lparr>mb_last_state_block_idx := (mb_last_state_block_idx m)(rid \<mapsto> prev_block_len - 1 - num_speculative_blocks m)\<rparr>
      else if prev_block_len > 0
      then m\<lparr>mb_last_state_block_idx := (mb_last_state_block_idx m)(rid \<mapsto> prev_block_len - 1)\<rparr>
      else m)"

text \<open>What happens to a partial hit: the pool, the manager, the blocks still to append and the blocks to return.\<close>

definition mamba_place_partial_hit ::
  "string \<Rightarrow> bool \<Rightarrow> nat list \<Rightarrow> nat list \<Rightarrow> block_pool \<Rightarrow> stm \<Rightarrow> (block_pool \<times> stm \<times> nat list \<times> nat list) result" where
  "mamba_place_partial_hit rid blocks_allocated new_blocks returned_blocks p m =
     (case st_partial_hit_reqs m rid of
        None \<Rightarrow> Inr (p, m, new_blocks, returned_blocks)
      | Some (block_idx, source_block) \<Rightarrow>
          bindE (py_index new_blocks 0) (\<lambda>cow_block.
            if blocks_allocated
            then bindE (mamba_running_cow rid block_idx source_block cow_block p m) (\<lambda>(p', m').
                   Inr (p', m', tl new_blocks, returned_blocks))
            else bindE (apply_cow rid block_idx source_block cow_block p m) (\<lambda>(p', m').
                   Inr (p', m', tl new_blocks, cow_block # returned_blocks))))"

definition mamba_align_allocate_new_blocks ::
  "string \<Rightarrow> int \<Rightarrow> block_pool \<Rightarrow> stm \<Rightarrow> (nat list \<times> block_pool \<times> stm) result" where
  "mamba_align_allocate_new_blocks rid num_toks p m =
     (let m1 = open_req rid m;
          blocks = req_blocks rid m1;
          num_spec = num_speculative_blocks m1;
          num_required_blocks = cdiv num_toks (st_block_size m1) + num_spec;
          checkpoint_block = (case mb_num_checkpoint_blocks m1 rid of None \<Rightarrow> 0 | Some n \<Rightarrow> n);
          has_partial_hit = (st_partial_hit_reqs m1 rid \<noteq> None);
          blocks_allocated = (rid \<in> set (mb_allocated_block_reqs m1));
          mark = (\<lambda>m. m\<lparr>mb_allocated_block_reqs := List.insert rid (mb_allocated_block_reqs m)\<rparr>)
      in if num_required_blocks \<le> int (length blocks) \<and> \<not> has_partial_hit then Inr ([], p, mark m1)
         else
           bindE (mamba_prepare_blocks num_required_blocks num_spec checkpoint_block blocks_allocated
                    (st_null_block m1) p blocks) (\<lambda>blocks2.
           let m2 = set_req_blocks rid blocks2 (mamba_note_last_state rid (int (length blocks)) blocks_allocated m1);
               new0 = num_required_blocks - int (length blocks2);
               num_new_blocks = (if has_partial_hit then max new0 0 + 1 else new0);
               max_new_blocks = 1 + of_bool has_partial_hit + checkpoint_block + (if blocks_allocated then 0 else num_spec)
           in if \<not> num_new_blocks \<le> max_new_blocks then Inl AssertionError
              else
                bindE (get_new_blocks num_new_blocks p) (\<lambda>(new_blocks, p1).
                bindE (mamba_place_partial_hit rid blocks_allocated new_blocks (drop (length blocks) blocks2) p1 m2)
                  (\<lambda>(p2, m3, to_append, returned_blocks).
                     let m4 = mark (set_req_blocks rid (req_blocks rid m3 @ to_append) m3)
                     in Inr (returned_blocks @ to_append, p2,
                             m4\<lparr>st_partial_hit_reqs := (st_partial_hit_reqs m4)(rid := None)\<rparr>)))))"

definition mamba_allocate_new_blocks ::
  "string \<Rightarrow> int \<Rightarrow> int \<Rightarrow> block_pool \<Rightarrow> stm \<Rightarrow> (nat list \<times> block_pool \<times> stm) result" where
  "mamba_allocate_new_blocks rid num_toks num_tokens_main_model p m =
     (if \<not> align_mode m
      then base_allocate_new_blocks rid
             (if num_speculative_blocks m > 0 then num_toks + st_block_size m * num_speculative_blocks m else num_toks) p m
      else mamba_align_allocate_new_blocks rid num_tokens_main_model p m)"

definition mamba_pop_blocks_for_free :: "string \<Rightarrow> stm \<Rightarrow> nat list \<times> stm" where
  "mamba_pop_blocks_for_free rid m =
     base_pop_blocks_for_free rid
       (if align_mode m
        then m\<lparr>mb_allocated_block_reqs := removeAll rid (mb_allocated_block_reqs m),
               mb_last_state_block_idx := (mb_last_state_block_idx m)(rid := None),
               mb_num_checkpoint_blocks := (mb_num_checkpoint_blocks m)(rid := None),
               mb_producer_partial_tail_reqs := (mb_producer_partial_tail_reqs m)(rid := None),
               st_pending_boundary_state_offloads := filter (\<lambda>e. fst e \<noteq> rid) (st_pending_boundary_state_offloads m)\<rparr>
        else m)"

definition mamba_cache_partial_tail_block ::
  "(bytes list \<Rightarrow> bytes) \<Rightarrow> request \<Rightarrow> int \<Rightarrow> block_pool \<Rightarrow> stm \<Rightarrow> (bytes option \<times> request \<times> block_pool \<times> stm) result" where
  "mamba_cache_partial_tail_block embeds_digest r num_toks p m =
     (let hbs = hash_block_size p; bs = st_block_size m; rid = request_id r
      in if bs = hbs then Inr (None, r, p, m)
         else if num_toks mod bs = 0 then Inr (None, r, p, m)
         else if num_toks mod hbs \<noteq> 0 then Inr (None, r, p, m)
         else if num_toks \<noteq> num_prompt_tokens r div hbs * hbs then Inr (None, r, p, m)
         else
           (let block_idx = num_toks div bs; m1 = open_req rid m; blocks = req_blocks rid m1
            in if block_idx \<ge> int (length blocks) then Inr (None, r, p, m1)
               else
                 bindE (py_index blocks block_idx) (\<lambda>source_block.
                   if is_null (blk p source_block) then Inr (None, r, p, m1)
                   else
                     bindE (cache_partial_block embeds_digest r source_block num_toks (st_kv_cache_group_id m) bs p)
                       (\<lambda>(partial_hash, r', p').
                          Inr (partial_hash, r', p',
                            if partial_hash = None then m1
                            else m1\<lparr>st_partial_hit_reqs := (st_partial_hit_reqs m1)(rid \<mapsto> (block_idx, source_block)),
                                    st_num_cached_block := (st_num_cached_block m1)(rid \<mapsto> block_idx),
                                    mb_producer_partial_tail_reqs := (mb_producer_partial_tail_reqs m1)(rid \<mapsto> num_toks)\<rparr>)))))"

text \<open>The loop of \<^verbatim>\<open>cache_blocks\<close> over the blocks cached by the call.\<close>

definition mamba_note_cached_block :: "string \<Rightarrow> nat list \<Rightarrow> block_pool \<Rightarrow> int \<Rightarrow> stm \<Rightarrow> stm result" where
  "mamba_note_cached_block rid blocks p idx m =
     bindE (py_index blocks idx) (\<lambda>b.
       case (if is_null (blk p b) then None else block_hash (blk p b)) of
         None \<Rightarrow> Inr m
       | Some h \<Rightarrow>
           let m1 = m\<lparr>mb_cached_blocks_this_step := List.insert h (mb_cached_blocks_this_step m)\<rparr>
           in Inr (if align_mode m1
                   then m1\<lparr>st_pending_boundary_state_offloads := st_pending_boundary_state_offloads m1 @
                          [(rid, st_kv_cache_group_id m1, b, (idx + 1) * st_block_size m1)]\<rparr>
                   else m1))"

definition mamba_note_cached_blocks :: "string \<Rightarrow> int \<Rightarrow> int \<Rightarrow> block_pool \<Rightarrow> stm \<Rightarrow> stm result" where
  "mamba_note_cached_blocks rid before after p m =
     (if after > before
      then (let m1 = open_req rid m in foldE (mamba_note_cached_block rid (req_blocks rid m1) p) [before..after - 1] m1)
      else Inr m)"

definition mamba_register_tail ::
  "(bytes list \<Rightarrow> bytes) \<Rightarrow> request \<Rightarrow> int \<Rightarrow> block_pool \<Rightarrow> stm \<Rightarrow> (request \<times> block_pool \<times> stm) result" where
  "mamba_register_tail embeds_digest r num_toks p m =
     (if align_mode m
      then bindE (mamba_cache_partial_tail_block embeds_digest r num_toks p m) (\<lambda>(partial_hash, r', p', m').
             Inr (r', p',
               case partial_hash of
                 None \<Rightarrow> m'
               | Some h \<Rightarrow> m'\<lparr>mb_cached_blocks_this_step := List.insert h (mb_cached_blocks_this_step m')\<rparr>))
      else Inr (r, p, m))"

definition mamba_cache_blocks ::
  "(bytes list \<Rightarrow> bytes) \<Rightarrow> request \<Rightarrow> int \<Rightarrow> int option \<Rightarrow> block_pool \<Rightarrow> stm \<Rightarrow> (request \<times> block_pool \<times> stm) result" where
  "mamba_cache_blocks embeds_digest r num_toks retention_interval p m =
     (let num_cached = (\<lambda>m. case st_num_cached_block m (request_id r) of None \<Rightarrow> 0 | Some n \<Rightarrow> n)
      in bindE (base_cache_blocks embeds_digest r num_toks retention_interval p m) (\<lambda>(r1, p1, m1).
         bindE (mamba_register_tail embeds_digest r1 num_toks p1 m1) (\<lambda>(r2, p2, m2).
         bindE (mamba_note_cached_blocks (request_id r) (num_cached m) (num_cached m1) p2 m2) (\<lambda>m3. Inr (r2, p2, m3)))))"

definition mamba_new_step_starts :: "stm \<Rightarrow> stm" where
  "mamba_new_step_starts m = m\<lparr>mb_cached_blocks_this_step := []\<rparr>"

section \<open>Ownership\<close>

lemma owns_checkpoint:
  "owns ex p m \<Longrightarrow> 0 \<le> n \<Longrightarrow> owns ex p (m\<lparr>mb_num_checkpoint_blocks := (mb_num_checkpoint_blocks m)(rid \<mapsto> n)\<rparr>)"
  by (auto simp: owns_def intro!: st_ok_cong [where m = m]) (auto simp: st_ok_def split: if_splits)

lemma owns_mark:
  assumes "owns ex p m" and "align_mode m" and "num_speculative_blocks m \<le> int (length (req_blocks rid m))"
  shows "owns ex p (m\<lparr>mb_allocated_block_reqs := List.insert rid (mb_allocated_block_reqs m)\<rparr>)"
  using assms by (auto simp: owns_def st_ok_def num_speculative_blocks_def mamba_cache_mode_def)

lemma mamba_remove_skipped_owned:
  assumes own: "owns ex p m" and run: "mamba_remove_skipped_blocks rid processed p m = Inr (p', m')"
  shows "keeps_owned ex p m p' m'"
proof -
  obtain p1 m1 where b: "base_remove_skipped_blocks rid processed p m = Inr (p1, m1)"
    using run by (auto simp: mamba_remove_skipped_blocks_def bindE_eq_Inr)
  note B = base_remove_skipped_owned [OF own b]
  note own1 = keeps_ownedD(1) [OF B]
  let ?m = "open_req rid m1" let ?bs = "req_blocks rid ?m"
  have null: "st_null_block m1 = 0" using own1 by (simp add: owns_def)
  consider "p' = p1" "m' = m1 \<or> m' = ?m" | i x bs' where "py_index ?bs i = Inr x" "x \<noteq> 0" "free_blocks [x] p1 = Inr p'"
    "py_update ?bs i 0 = Inr bs'" "m' = set_req_blocks rid bs' ?m"
  proof (cases "if align_mode m1 then mb_last_state_block_idx m1 rid else None")
    case None
    then show ?thesis using that(1) run b by (simp add: mamba_remove_skipped_blocks_def)
  next
    case (Some i)
    let ?old = "i < cdiv processed (st_block_size m1) - 1"
    show ?thesis
    proof (cases "?old \<and> py_index ?bs i \<noteq> Inr 0")
      case True
      then show ?thesis using that(2) run b Some null
        by (auto simp: mamba_remove_skipped_blocks_def Let_def bindE_eq_Inr simp del: if_split split: if_split_asm)
    next
      case False
      then have "p' = p1" "m' = m1 \<or> m' = ?m" using run b Some null
        by (auto simp: mamba_remove_skipped_blocks_def Let_def split: if_split_asm)
      then show ?thesis by (rule that(1))
    qed
  qed
  then have "keeps_owned ex p1 m1 p' m'"
  proof cases
    case 1
    then show ?thesis using own1 by (auto simp: keeps_owned_def)
  next
    case 2
    from py_index_pos [OF 2(1)] obtain j where j: "j < length ?bs" "x = ?bs ! j" "\<And>v. py_update ?bs i v = Inr (?bs[j := v])" by blast
    have n: "null_out [i] 0 ?bs = Inr ([x], bs')" using 2 by simp
    note N = null_out_spec [OF n]
    have valid: "\<forall>b \<in> set ?bs. b < num_gpu_blocks p1"
      using own1 req_blocks_claimed [of rid m1] by (auto simp: owns_def)
    obtain xs where rep: "pool_rep p1 xs" using own1 by (auto simp: owns_def)
    have pos: "0 < num_gpu_blocks p1" using rep by (simp add: pool_rep_def pool_core_def pool_shape_def)
    have ex: "0 \<le> ex c" for c using own by (simp add: owns_def)
    have "owns (\<lambda>c. ex c + occ [x] c) p1 m'"
      unfolding 2(5) using own1 valid pos ex N
      by (intro owns_set_req_blocks_ex [OF owns_open [OF own1] rep pool_same_refl]) (auto simp: add_nonneg_nonneg)
    from free_blocks_owned [OF this ex] valid j 2(3,5) show ?thesis by (auto simp: keeps_owned_def)
  qed
  then show ?thesis using keeps_owned_trans [OF B] by blast
qed

lemma mamba_get_num_owned:
  assumes "owns ex p m"
    and "mamba_get_num_blocks_to_allocate p rid num_toks hits tot num_local main cap m = Inr (n, m')"
  shows "keeps_owned ex p m p m'"
proof -
  have "keeps_owned ex p m p (snd (mamba_align_num_blocks_to_allocate p rid main hits tot num_local cap m))"
    using owns_open [OF assms(1), of rid] owns_checkpoint [OF owns_open [OF assms(1), of rid]]
    by (simp add: mamba_align_num_blocks_to_allocate_def Let_def keeps_owned_def)
  then show ?thesis using assms keeps_owned_refl [OF assms(1)]
    by (auto simp: mamba_get_num_blocks_to_allocate_def Let_def bindE_eq_Inr split: if_split_asm)
qed

text \<open>Relocating a scratch block moves it to the end and leaves the null block behind.\<close>

lemma relocate_block_spec:
  assumes "relocate_speculative_block 0 p i bs = Inr bs'" and "0 \<le> i"
  shows "length bs' = Suc (length bs)" "set bs' \<subseteq> insert 0 (set bs)" "0 < c \<Longrightarrow> occ bs' c = occ bs c" "i < int (length bs)"
proof -
  let ?j = "nat i"
  have j: "?j < length bs" and bs': "bs' = (bs @ [bs ! ?j])[?j := 0]"
    using assms by (auto simp: relocate_speculative_block_def bindE_eq_Inr py_index_def py_update_def split: if_split_asm)
  show "length bs' = Suc (length bs)" "i < int (length bs)" using j by (simp_all add: bs')
  show "set bs' \<subseteq> insert 0 (set bs)"
    using set_update_subset_insert [of "bs @ [bs ! ?j]" ?j 0] j by (auto simp: bs')
  show "0 < c \<Longrightarrow> occ bs' c = occ bs c"
    using occ_mset [of "bs[?j := 0]" "[bs ! ?j]" bs "[0]" c] j by (simp add: bs' mset_update list_update_append)
qed

lemma relocate_loop_spec:
  assumes "relocate_loop k 0 p [a..b - 1] bs = Inr bs'" and "0 \<le> a" and "a \<le> b"
  shows "int (length bs') = int (length bs) + max 0 (min b k - a)" "set bs' \<subseteq> insert 0 (set bs)" "0 < c \<Longrightarrow> occ bs' c = occ bs c"
proof -
  have "int (length bs') = int (length bs) + max 0 (min b k - a) \<and> set bs' \<subseteq> insert 0 (set bs) \<and> (0 < c \<longrightarrow> occ bs' c = occ bs c)"
    using assms
  proof (induction "nat (b - a)" arbitrary: a bs)
    case 0
    then show ?case by auto
  next
    case (Suc d)
    then have ab: "a < b" by simp
    have up: "[a..b - 1] = a # [a + 1..b - 1]" using ab by (simp add: upto_rec1)
    show ?case
    proof (cases "a < k")
      case False
      then show ?thesis using Suc.prems up by auto
    next
      case True
      obtain bs1 where r: "relocate_speculative_block 0 p a bs = Inr bs1" "relocate_loop k 0 p [a + 1..b - 1] bs1 = Inr bs'"
        using Suc.prems(1) True up by (auto simp: bindE_eq_Inr)
      note R = relocate_block_spec [OF r(1) Suc.prems(2)]
      have "d = nat (b - (a + 1))" using Suc.hyps(2) by simp
      from Suc.hyps(1) [OF this r(2)] Suc.prems(2) ab
      have "int (length bs') = int (length bs1) + max 0 (min b k - (a + 1))" "set bs' \<subseteq> insert 0 (set bs1)"
        "0 < c \<longrightarrow> occ bs' c = occ bs1 c" by auto
      then show ?thesis using R True ab by auto
    qed
  qed
  then show "int (length bs') = int (length bs) + max 0 (min b k - a)" "set bs' \<subseteq> insert 0 (set bs)" "0 < c \<Longrightarrow> occ bs' c = occ bs c" by auto
qed

lemma occ_zeros: "0 < c \<Longrightarrow> count_list (replicate n 0) c = 0" for c :: nat
  by (induction n) auto

lemma mamba_prepare_spec:
  assumes run: "mamba_prepare_blocks R s ck alloc 0 p bs = Inr bs'" and s: "0 \<le> s" and ck: "0 \<le> ck"
    and alloc: "alloc \<Longrightarrow> s \<le> int (length bs)"
  shows "set bs' \<subseteq> insert 0 (set bs)" "0 < c \<Longrightarrow> occ bs' c = occ bs c" "length bs \<le> length bs'"
    "int (length bs) < R \<Longrightarrow> int (length bs') \<le> R"
proof -
  let ?L = "int (length bs)" and ?k = "R - s - 1"
  define b1 where "b1 = (if ?L < ?k then bs @ replicate (nat (?k - ck - ?L)) 0 else bs)"
  have b1: "set b1 \<subseteq> insert 0 (set bs)" "0 < c \<Longrightarrow> occ b1 c = occ bs c"
    "int (length b1) = (if ?L < ?k then max ?L (?k - ck) else ?L)"
    by (auto simp: b1_def occ_zeros)
  have run': "(if alloc then relocate_loop ?k 0 p [?L - s..?L - 1] b1 else Inr b1) = Inr bs'"
    using run unfolding mamba_prepare_blocks_def Let_def b1_def .
  have R: "set bs' \<subseteq> insert 0 (set b1) \<and> (0 < c \<longrightarrow> occ bs' c = occ b1 c) \<and>
    int (length bs') = int (length b1) + (if alloc then max 0 (min ?L ?k - (?L - s)) else 0)"
  proof (cases alloc)
    case True
    with run' have "relocate_loop ?k 0 p [?L - s..?L - 1] b1 = Inr bs'" by simp
    from relocate_loop_spec(1,2) [OF this] relocate_loop_spec(3) [OF this, of c] alloc s True show ?thesis by simp
  next
    case False
    then show ?thesis using run' by auto
  qed
  show "set bs' \<subseteq> insert 0 (set bs)" "0 < c \<Longrightarrow> occ bs' c = occ bs c" using R b1(1,2) by auto
  have "?L \<le> int (length b1)" "int (length b1) \<le> int (length bs')" using R b1(3) by auto
  then show "length bs \<le> length bs'" by simp
  show "int (length bs) < R \<Longrightarrow> int (length bs') \<le> R" using R b1(3) s ck by (simp split: if_splits)
qed

lemma mamba_running_cow_owned:
  assumes own: "owns (\<lambda>c. ex c + of_bool (c = cow)) p m" and ex: "\<And>c. 0 \<le> ex c"
    and cow: "0 < cow" "cow < num_gpu_blocks p" "cow \<notin> set (st_claims m)"
    and run: "mamba_running_cow rid idx src cow p m = Inr (p', m')"
  shows "keeps_owned ex p m p' m'" "req_blocks rid m' = req_blocks rid m"
    "mb_allocated_block_reqs m' = mb_allocated_block_reqs m"
proof -
  obtain xs where rep: "pool_rep p xs" using own by (auto simp: owns_def)
  obtain p1 where i: "py_index (req_blocks rid m) idx = Inr src" and mv: "move_block_hashes src cow p = Inr p1"
    and p': "p' = upd_blk src (bump 1) p1"
    using run by (auto simp: mamba_running_cow_def Let_def bindE_eq_Inr split: if_split_asm)
  let ?m = "m\<lparr>st_pending_cow_copies := st_pending_cow_copies m @ [(src, cow)]\<rparr>"
  have m': "(\<forall>ex q. owns ex q m' = owns ex q ?m) \<and> st_config m' = st_config m \<and> req_blocks rid m' = req_blocks rid m \<and>
    mb_allocated_block_reqs m' = mb_allocated_block_reqs m"
    using run i mv by (auto simp: mamba_running_cow_def Let_def split: option.splits)
  then show "req_blocks rid m' = req_blocks rid m" "mb_allocated_block_reqs m' = mb_allocated_block_reqs m" by simp_all
  have src: "src \<in> set (st_claims m)" using i req_blocks_claimed [of rid m] by (elim py_index_pos) auto
  then have srcn: "src < num_gpu_blocks p" using own by (auto simp: owns_def)
  have "all_block_hashes p cow = []" using mv by (auto simp: move_block_hashes_def all_block_hashes_def split: if_split_asm)
  with move_block_hashes_spec [of p src cow] rep srcn cow src mv have k: "kept p p1"
    by (auto simp: pool_rep_def pool_core_def)
  note own1 = owns_kept [OF k own]
  obtain ys where rep1: "pool_rep p1 ys" using own1 by (auto simp: owns_def)
  have "0 < ref_cnt (blk p1 src)" if "0 < src" "src < num_gpu_blocks p1"
  proof -
    have "ref_cnt (blk p1 src) = ex src + of_bool (src = cow) + occ (st_claims m) src" using own1 that by (simp add: owns_def)
    moreover have "0 < occ (st_claims m) src" using src count_list_0_iff [of "st_claims m" src] by simp
    ultimately show ?thesis using ex [of src] by (cases "src = cow") auto
  qed
  note B = pool_rep_bump [OF rep1 this]
  have "owns (\<lambda>c. ex c + occ [src, cow] c) p' m"
    unfolding p' using ex B(3) by (intro owns_pool [OF own1 B(1,2)]) (auto simp: add_nonneg_nonneg)
  from owns_add_pending [OF this] have "owns ex p' ?m"
    using ex srcn cow kept_n [OF k] pool_same_n [OF B(2)] by (simp add: p')
  moreover have "pool_same p p'" using k B(2) pool_same_trans [of p p1 p'] by (simp add: kept_def p')
  ultimately show "keeps_owned ex p m p' m'" using m' by (simp add: keeps_owned_def)
qed

lemma apply_cow_blocks:
  assumes "apply_cow rid idx src cow p m = Inr (p', m')"
  shows "length (req_blocks rid m') = length (req_blocks rid m)" "mb_allocated_block_reqs m' = mb_allocated_block_reqs m"
  using assms
  by (auto simp: apply_cow_def Let_def py_update_def bindE_eq_Inr split: if_split_asm)

text \<open>A partial hit takes the first new block; the others are left to append.\<close>

lemma mamba_place_owned:
  assumes own: "owns (\<lambda>c. ex c + occ nb c) p m" and ex: "\<And>c. 0 \<le> ex c"
    and nb: "\<forall>b \<in> set nb. 0 < b \<and> b < num_gpu_blocks p" "set nb \<inter> set (st_claims m) = {}"
    and run: "mamba_place_partial_hit rid alloc nb ret p m = Inr (p', m', rest, ret')"
  shows "keeps_owned (\<lambda>c. ex c + occ rest c) p m p' m'" "length (req_blocks rid m') = length (req_blocks rid m)"
    "mb_allocated_block_reqs m' = mb_allocated_block_reqs m" "set rest \<subseteq> set nb"
    "rest = (if st_partial_hit_reqs m rid = None then nb else tl nb)"
proof -
  have "keeps_owned (\<lambda>c. ex c + occ rest c) p m p' m' \<and> length (req_blocks rid m') = length (req_blocks rid m) \<and>
    mb_allocated_block_reqs m' = mb_allocated_block_reqs m \<and> rest = (if st_partial_hit_reqs m rid = None then nb else tl nb)"
  proof (cases "st_partial_hit_reqs m rid")
    case None
    then show ?thesis using run own by (auto simp: mamba_place_partial_hit_def keeps_owned_refl)
  next
    case (Some hit)
    obtain idx src where hit: "hit = (idx, src)" by force
    obtain cow where c: "py_index nb 0 = Inr cow" using run Some hit by (auto simp: mamba_place_partial_hit_def bindE_eq_Inr)
    then obtain tl' where nbc: "nb = cow # tl'" by (cases nb) (auto simp: py_index_def)
    have own': "owns (\<lambda>c. (ex c + occ tl' c) + of_bool (c = cow)) p m"
    proof -
      have "(\<lambda>c. ex c + occ nb c) = (\<lambda>c. (ex c + occ tl' c) + of_bool (c = cow))" by (auto simp: nbc)
      then show ?thesis using own by simp
    qed
    have ex': "0 \<le> ex c + occ tl' c" for c using ex [of c] by simp
    have cow: "0 < cow" "cow < num_gpu_blocks p" "cow \<notin> set (st_claims m)" using nb by (auto simp: nbc)
    have step: "(if alloc then mamba_running_cow rid idx src cow p m else apply_cow rid idx src cow p m) = Inr (p', m')"
      and rest: "rest = tl'"
      using run Some hit c by (auto simp: mamba_place_partial_hit_def bindE_eq_Inr nbc split: if_split_asm)
    show ?thesis
    proof (cases alloc)
      case True
      with step have "mamba_running_cow rid idx src cow p m = Inr (p', m')" by simp
      from mamba_running_cow_owned [OF own' ex' cow this] show ?thesis using rest nbc Some by simp
    next
      case False
      with step have a: "apply_cow rid idx src cow p m = Inr (p', m')" by simp
      from apply_cow_owned [OF own' ex' cow(1,2) a] apply_cow_blocks [OF a] show ?thesis using rest nbc Some by simp
    qed
  qed
  then show "keeps_owned (\<lambda>c. ex c + occ rest c) p m p' m'" "length (req_blocks rid m') = length (req_blocks rid m)"
    "mb_allocated_block_reqs m' = mb_allocated_block_reqs m" "set rest \<subseteq> set nb"
    "rest = (if st_partial_hit_reqs m rid = None then nb else tl nb)"
    by (auto dest: in_set_tlD)
qed

lemma mamba_note_simps [simp]:
  "owns ex p (mamba_note_last_state rid n b m) = owns ex p m" "st_config (mamba_note_last_state rid n b m) = st_config m"
  "req_blocks rid' (mamba_note_last_state rid n b m) = req_blocks rid' m"
  "mb_allocated_block_reqs (mamba_note_last_state rid n b m) = mb_allocated_block_reqs m"
  "st_partial_hit_reqs (mamba_note_last_state rid n b m) = st_partial_hit_reqs m"
  by (simp_all add: mamba_note_last_state_def)

lemma mamba_align_allocate_owned:
  assumes own: "owns ex p m" and align: "align_mode m" and toks: "0 \<le> num_toks"
    and run: "mamba_align_allocate_new_blocks rid num_toks p m = Inr (bs, p', m')"
  shows "keeps_owned ex p m p' m'"
proof -
  let ?m1 = "open_req rid m" and ?s = "num_speculative_blocks m"
  let ?R = "cdiv num_toks (st_block_size m) + ?s" and ?B = "req_blocks rid m"
  let ?alloc = "rid \<in> set (mb_allocated_block_reqs m)" and ?part = "st_partial_hit_reqs m rid \<noteq> None"
  let ?ck = "case mb_num_checkpoint_blocks m rid of None \<Rightarrow> 0 | Some n \<Rightarrow> n"
  let ?mark = "\<lambda>m. m\<lparr>mb_allocated_block_reqs := List.insert rid (mb_allocated_block_reqs m)\<rparr>"
  have ok: "0 < st_block_size m" "0 \<le> ?s" "0 \<le> ?ck" "?alloc \<Longrightarrow> ?s \<le> int (length ?B)" "\<And>c. 0 \<le> ex c" "st_null_block m = 0"
    using own by (auto simp: owns_def st_ok_def split: option.splits)
  have "0 \<le> cdiv num_toks (st_block_size m)"
    using cdiv_bounds(1) [OF ok(1), of num_toks] toks ok(1) by (smt (verit) mult_nonneg_nonpos2 mult_neg_pos)
  then have R: "?s \<le> ?R" by simp
  note par = mamba_parameters [of ?m1 m]
  show ?thesis
  proof (cases "?R \<le> int (length ?B) \<and> \<not> ?part")
    case True
    then have "p' = p" "m' = ?mark ?m1" using run mamba_parameters [of ?m1 m] by (simp_all add: mamba_align_allocate_new_blocks_def Let_def)
    then show ?thesis using owns_mark [OF owns_open [OF own, of rid], of rid] align R True mamba_parameters [of ?m1 m]
      by (simp add: keeps_owned_def)
  next
    case False
    let ?new = "\<lambda>B. if ?part then max (?R - int (length B)) 0 + 1 else ?R - int (length B)"
    let ?m2 = "\<lambda>B. set_req_blocks rid B (mamba_note_last_state rid (int (length ?B)) ?alloc ?m1)"
    obtain B nb p1 m3 rest ret where pr: "mamba_prepare_blocks ?R ?s ?ck ?alloc 0 p ?B = Inr B"
      and g: "get_new_blocks (?new B) p = Inr (nb, p1)"
      and pl: "mamba_place_partial_hit rid ?alloc nb (drop (length ?B) B) p1 (?m2 B) = Inr (p', m3, rest, ret)"
      and m': "m' = (?mark (set_req_blocks rid (req_blocks rid m3 @ rest) m3))
                 \<lparr>st_partial_hit_reqs := (st_partial_hit_reqs m3)(rid := None)\<rparr>"
      using run False par ok(6)
      by (auto simp: mamba_align_allocate_new_blocks_def Let_def bindE_eq_Inr split: if_split_asm)
    note P = mamba_prepare_spec [OF pr ok(2,3,4)]
    have new: "0 \<le> ?new B" using P(4) False by auto
    obtain xs where rep: "pool_rep p xs" using own by (auto simp: owns_def)
    have own2: "owns ex p (?m2 B)"
    proof (rule owns_set_req_blocks [OF _ rep pool_same_refl])
      show "owns ex p (mamba_note_last_state rid (int (length ?B)) ?alloc ?m1)" using own by simp
      have "0 < num_gpu_blocks p" using rep by (simp add: pool_rep_def pool_core_def pool_shape_def)
      then show "\<forall>b \<in> set B. b < num_gpu_blocks p"
        using P(1) own req_blocks_claimed [of rid m] by (auto simp: owns_def)
    qed (use P(2,3) in simp_all)
    note G = get_new_blocks_owns [OF own2 g new]
    have nbv: "\<forall>b \<in> set nb. 0 < b \<and> b < num_gpu_blocks p1" using G(4) pool_same_n [OF G(2)] by simp
    note L = mamba_place_owned [OF G(1) ok(5) nbv G(5) pl]
    note own3 = keeps_ownedD [OF L(1)]
    let ?m4 = "set_req_blocks rid (req_blocks rid m3 @ rest) m3"
    obtain ys where rep3: "pool_rep p' ys" using own3(1) by (auto simp: owns_def)
    have "owns ex p' ?m4"
    proof (rule owns_set_req_blocks_ex [OF own3(1) rep3 pool_same_refl])
      show "\<forall>b \<in> set (req_blocks rid m3 @ rest). b < num_gpu_blocks p'"
        using own3 req_blocks_claimed [of rid m3] L(4) nbv pool_same_n [OF own3(2)] by (auto simp: owns_def)
    qed (use ok(5) in simp_all)
    moreover have cfg: "st_config m3 = st_config m" using L(1) by (simp add: keeps_owned_def)
    moreover have "?R - int (length B) \<le> int (length rest)"
      using L(5) G(3) new by (cases ?part) (auto simp: nat_add_distrib)
    then have "?s \<le> int (length (req_blocks rid ?m4))" using R L(2) by simp
    ultimately have "owns ex p' (?mark ?m4)"
      using owns_mark [of ex p' ?m4 rid] align mamba_parameters [of ?m4 m] st_config_eq [OF cfg] by simp
    then show ?thesis
      using cfg pool_same_trans [OF G(2) own3(2)] by (simp add: keeps_owned_def m')
  qed
qed

lemma mamba_allocate_owned:
  assumes "owns ex p m" and "0 \<le> main" and "mamba_allocate_new_blocks rid num_toks main p m = Inr (bs, p', m')"
  shows "keeps_owned ex p m p' m'"
  using assms mamba_align_allocate_owned base_allocate_new_owned
  by (auto simp: mamba_allocate_new_blocks_def split: if_split_asm)

lemma mamba_pop_owned:
  assumes own: "owns ex p m" and pop: "mamba_pop_blocks_for_free rid m = (bs, m')"
  shows "owns (\<lambda>c. ex c + occ bs c) p m'" "st_config m' = st_config m" "bs = req_blocks rid m" "req_blocks rid m' = []"
proof -
  let ?m = "if align_mode m
        then m\<lparr>mb_allocated_block_reqs := removeAll rid (mb_allocated_block_reqs m),
               mb_last_state_block_idx := (mb_last_state_block_idx m)(rid := None),
               mb_num_checkpoint_blocks := (mb_num_checkpoint_blocks m)(rid := None),
               mb_producer_partial_tail_reqs := (mb_producer_partial_tail_reqs m)(rid := None),
               st_pending_boundary_state_offloads := filter (\<lambda>e. fst e \<noteq> rid) (st_pending_boundary_state_offloads m)\<rparr>
        else m"
  have ok: "st_ok m" using own by (simp add: owns_def)
  then have "st_ok ?m" by (intro st_ok_cong [OF ok]) (auto simp: st_ok_def split: if_splits)
  then have own': "owns ex p ?m" using own by (simp add: owns_def)
  have nin: "rid \<notin> set (mb_allocated_block_reqs ?m)" using ok by (auto simp: st_ok_def)
  note B = base_pop_owned [OF own' pop [unfolded mamba_pop_blocks_for_free_def] nin]
  show "owns (\<lambda>c. ex c + occ bs c) p m'" "st_config m' = st_config m" "bs = req_blocks rid m" "req_blocks rid m' = []"
    using B by simp_all
qed

lemma mamba_cache_partial_owned:
  assumes own: "owns ex p m" and run: "mamba_cache_partial_tail_block dg r num_toks p m = Inr (h, r', p', m')"
  shows "keeps_owned ex p m p' m'"
proof -
  let ?m = "open_req (request_id r) m" let ?bl = "req_blocks (request_id r) m" and ?i = "num_toks div st_block_size m"
  obtain xs where rep: "pool_rep p xs" using own by (auto simp: owns_def)
  let ?skip = "st_block_size m = hash_block_size p \<or> num_toks mod st_block_size m = 0 \<or> num_toks mod hash_block_size p \<noteq> 0 \<or>
    num_toks \<noteq> num_prompt_tokens r div hash_block_size p * hash_block_size p"
  consider "p' = p" "m' = m \<or> m' = ?m" | b g bsz where "py_index ?bl ?i = Inr b"
    "cache_partial_block dg r b num_toks g bsz p = Inr (h, r', p')" "owns ex p m'" "st_config m' = st_config m"
  proof (cases "?skip \<or> ?i \<ge> int (length ?bl) \<or> (\<exists>b. py_index ?bl ?i = Inr b \<and> is_null (blk p b))")
    case True
    then have "p' = p" "m' = m \<or> m' = ?m" using run
      by (auto simp: mamba_cache_partial_tail_block_def Let_def split: if_split_asm)
    then show ?thesis by (rule that(1))
  next
    case False
    then show ?thesis using run own that(2) owns_open [OF own]
      by (auto simp: mamba_cache_partial_tail_block_def Let_def bindE_eq_Inr simp del: owns_open)
  qed
  then show ?thesis
  proof cases
    case 1
    then show ?thesis using own by (auto simp: keeps_owned_def)
  next
    case 2
    have "b < num_gpu_blocks p"
      using py_index_pos [OF 2(1)] own req_blocks_claimed [of "request_id r" m] by (metis nth_mem owns_def subsetD)
    then have "kept p p'" using cache_partial_block_spec [OF _ _ _ 2(2)] rep by (simp add: pool_rep_def pool_core_def)
    then show ?thesis using 2(3,4) by (intro keeps_owned_kept)
  qed
qed

lemma mamba_note_cached_owned:
  assumes "mamba_note_cached_block rid bl p i m = Inr m'"
  shows "owns ex q m' = owns ex q m" "st_config m' = st_config m"
proof -
  obtain b where b: "py_index bl i = Inr b" using assms by (auto simp: mamba_note_cached_block_def bindE_eq_Inr)
  show "owns ex q m' = owns ex q m" "st_config m' = st_config m"
    using assms by (cases "if is_null (blk p b) then None else block_hash (blk p b)";
      auto simp: mamba_note_cached_block_def b Let_def simp del: if_split split: if_split_asm)+
qed

lemma mamba_note_cached_blocks_owned:
  assumes "owns ex p m" and "mamba_note_cached_blocks rid i j p m = Inr m'"
  shows "keeps_owned ex p m p m'"
proof (cases "j > i")
  case True
  then have "foldE (mamba_note_cached_block rid (req_blocks rid (open_req rid m)) p) [i..j - 1] (open_req rid m) = Inr m'"
    using assms(2) by (simp add: mamba_note_cached_blocks_def Let_def)
  then have "owns ex p m' \<and> st_config m' = st_config m"
    by (rule foldE_invariant) (use assms(1) mamba_note_cached_owned in auto)
  then show ?thesis by (simp add: keeps_owned_def)
qed (use assms in \<open>simp add: mamba_note_cached_blocks_def keeps_owned_refl\<close>)

lemma mamba_register_tail_owned:
  assumes own: "owns ex p m" and run: "mamba_register_tail dg r num_toks p m = Inr (r', p', m')"
  shows "keeps_owned ex p m p' m'"
proof (cases "align_mode m")
  case True
  then obtain h m2 where "mamba_cache_partial_tail_block dg r num_toks p m = Inr (h, r', p', m2)"
    "m' = (case h of None \<Rightarrow> m2 | Some h \<Rightarrow> m2\<lparr>mb_cached_blocks_this_step := List.insert h (mb_cached_blocks_this_step m2)\<rparr>)"
    using run by (auto simp: mamba_register_tail_def bindE_eq_Inr)
  then show ?thesis using mamba_cache_partial_owned [OF own] by (auto simp: keeps_owned_def split: option.splits)
qed (use assms in \<open>auto simp: mamba_register_tail_def keeps_owned_refl\<close>)

lemma mamba_cache_blocks_owned:
  assumes own: "owns ex p m" and run: "mamba_cache_blocks dg r num_toks retention p m = Inr (r', p', m')"
  shows "keeps_owned ex p m p' m'"
proof -
  obtain r1 p1 m1 m2 i j where b: "base_cache_blocks dg r num_toks retention p m = Inr (r1, p1, m1)"
    and t: "mamba_register_tail dg r1 num_toks p1 m1 = Inr (r', p', m2)"
    and n: "mamba_note_cached_blocks (request_id r) i j p' m2 = Inr m'"
    using run by (auto simp: mamba_cache_blocks_def Let_def bindE_eq_Inr)
  note B = base_cache_blocks_owned [OF own b]
  note T = keeps_owned_trans [OF B mamba_register_tail_owned [OF keeps_ownedD(1) [OF B] t]]
  show ?thesis using keeps_owned_trans [OF T mamba_note_cached_blocks_owned [OF keeps_ownedD(1) [OF T] n]] .
qed

end
