(* ===== verification/Managers.thy ===== *)
theory Managers
  imports Mamba
begin

text \<open>
  The manager classes behind the interface of \<^verbatim>\<open>SingleTypeKVCacheManager\<close>: method calls dispatch on the class that the
  registry assigns to the specification. Every method keeps the ownership invariant.
\<close>

section \<open>Dispatch\<close>

definition get_manager_for_kv_cache_spec ::
  "kv_spec \<Rightarrow> int \<Rightarrow> int \<Rightarrow> block_pool \<Rightarrow> bool \<Rightarrow> int \<Rightarrow> int \<Rightarrow> int \<Rightarrow> int \<Rightarrow> bool \<Rightarrow> stm result" where
  "get_manager_for_kv_cache_spec sp max_in_flight_tokens max_model_len p caching gid dcp pcp sched_bs needs_zeroing =
     (case spec_kind sp of
        SinkFullAttentionSpec _ \<Rightarrow> Inl TypeError
      | _ \<Rightarrow> Inr (st_init sp p caching gid sched_bs dcp pcp needs_zeroing
                   (max_admission_blocks_per_request sp max_in_flight_tokens max_model_len)))"

definition mgr_get_num_blocks_to_allocate ::
  "block_pool \<Rightarrow> string \<Rightarrow> int \<Rightarrow> nat list \<Rightarrow> int \<Rightarrow> int \<Rightarrow> int \<Rightarrow> bool \<Rightarrow> stm \<Rightarrow> (int \<times> stm) result" where
  "mgr_get_num_blocks_to_allocate p rid num_toks hits total_computed num_local main cap m =
     (case spec_kind (st_spec m) of
        KpoolTailSpec \<Rightarrow> Inr (kpool_get_num_blocks_to_allocate rid m, m)
      | CircularBufferSpec \<Rightarrow> Inr (ring_get_num_blocks_to_allocate rid m, m)
      | MambaSpec _ _ _ \<Rightarrow> mamba_get_num_blocks_to_allocate p rid num_toks hits total_computed num_local main cap m
      | _ \<Rightarrow> bindE (base_get_num_blocks_to_allocate p m rid num_toks hits total_computed num_local cap) (\<lambda>n. Inr (n, m)))"

definition mgr_add_local_computed_blocks ::
  "string \<Rightarrow> nat list \<Rightarrow> int \<Rightarrow> int \<Rightarrow> block_pool \<Rightarrow> stm \<Rightarrow> (block_pool \<times> stm) result" where
  "mgr_add_local_computed_blocks rid hits num_local num_external p m =
     (case spec_kind (st_spec m) of
        KpoolTailSpec \<Rightarrow> Inr (p, m)
      | CircularBufferSpec \<Rightarrow> Inr (p, m)
      | CrossAttentionSpec \<Rightarrow> if hits = [] then Inr (p, m) else Inl AssertionError
      | _ \<Rightarrow> base_add_local_computed_blocks rid hits num_local num_external p m)"

definition mgr_allocate_external_computed_blocks ::
  "string \<Rightarrow> int \<Rightarrow> int \<Rightarrow> block_pool \<Rightarrow> stm \<Rightarrow> (block_pool \<times> stm) result" where
  "mgr_allocate_external_computed_blocks rid num_local num_external p m =
     (case spec_kind (st_spec m) of
        KpoolTailSpec \<Rightarrow> kpool_allocate_external_computed_blocks rid p m
      | CircularBufferSpec \<Rightarrow> ring_allocate_external_computed_blocks rid p m
      | CrossAttentionSpec \<Rightarrow> Inr (p, m)
      | _ \<Rightarrow> base_allocate_external_computed_blocks rid num_local num_external p m)"

definition mgr_allocate_new_blocks ::
  "string \<Rightarrow> int \<Rightarrow> int \<Rightarrow> block_pool \<Rightarrow> stm \<Rightarrow> (nat list \<times> block_pool \<times> stm) result" where
  "mgr_allocate_new_blocks rid num_toks main p m =
     (case spec_kind (st_spec m) of
        KpoolTailSpec \<Rightarrow> kpool_allocate_new_blocks rid p m
      | CircularBufferSpec \<Rightarrow> claim_ring_block rid p m
      | MambaSpec _ _ _ \<Rightarrow> mamba_allocate_new_blocks rid num_toks main p m
      | _ \<Rightarrow> base_allocate_new_blocks rid num_toks p m)"

definition mgr_cache_blocks ::
  "(bytes list \<Rightarrow> bytes) \<Rightarrow> int \<Rightarrow> int option \<Rightarrow> request \<Rightarrow> block_pool \<Rightarrow> stm \<Rightarrow> (request \<times> block_pool \<times> stm) result" where
  "mgr_cache_blocks embeds_digest num_toks retention_interval r p m =
     (case spec_kind (st_spec m) of
        KpoolTailSpec \<Rightarrow> Inr (r, p, m)
      | CircularBufferSpec \<Rightarrow> Inr (r, p, m)
      | CrossAttentionSpec \<Rightarrow> Inl ValueError
      | MambaSpec _ _ _ \<Rightarrow> mamba_cache_blocks embeds_digest r num_toks retention_interval p m
      | SlidingWindowSpec _ _ \<Rightarrow> base_cache_blocks embeds_digest r num_toks retention_interval p m
      | ChunkedLocalAttentionSpec _ \<Rightarrow> base_cache_blocks embeds_digest r num_toks retention_interval p m
      | _ \<Rightarrow> full_cache_blocks embeds_digest r num_toks retention_interval p m)"

definition mgr_pop_blocks_for_free :: "string \<Rightarrow> stm \<Rightarrow> nat list \<times> stm" where
  "mgr_pop_blocks_for_free rid m =
     (if is_mamba (spec_kind (st_spec m)) then mamba_pop_blocks_for_free rid m else base_pop_blocks_for_free rid m)"

definition mgr_free :: "string \<Rightarrow> block_pool \<Rightarrow> stm \<Rightarrow> (block_pool \<times> stm) result" where
  "mgr_free rid p m =
     (let (bs, m') = mgr_pop_blocks_for_free rid m in bindE (free_blocks (rev bs) p) (\<lambda>p'. Inr (p', m')))"

definition mgr_remove_skipped_blocks :: "string \<Rightarrow> int \<Rightarrow> int option \<Rightarrow> block_pool \<Rightarrow> stm \<Rightarrow> (block_pool \<times> stm) result" where
  "mgr_remove_skipped_blocks rid processed num_prompt p m =
     (case spec_kind (st_spec m) of
        RSWASpec window \<Rightarrow> rswa_remove_skipped_blocks window rid processed num_prompt p m
      | KpoolTailSpec \<Rightarrow> Inr (p, m)
      | CircularBufferSpec \<Rightarrow> Inr (p, m)
      | MambaSpec _ _ _ \<Rightarrow> mamba_remove_skipped_blocks rid processed p m
      | _ \<Rightarrow> base_remove_skipped_blocks rid processed p m)"

definition mgr_get_num_common_prefix_blocks :: "string \<Rightarrow> block_pool \<Rightarrow> stm \<Rightarrow> int \<times> stm" where
  "mgr_get_num_common_prefix_blocks rid p m =
     (if is_full_attention (spec_kind (st_spec m)) then full_get_num_common_prefix_blocks rid p m else (0, m))"

definition mgr_new_step_starts :: "stm \<Rightarrow> stm" where
  "mgr_new_step_starts m = (if is_mamba (spec_kind (st_spec m)) then mamba_new_step_starts m else m)"

section \<open>Ownership\<close>

text \<open>A request without speculative state: no other class than Mamba in align mode marks requests.\<close>

lemma owns_not_marked: "owns ex p m \<Longrightarrow> \<not> is_mamba (spec_kind (st_spec m)) \<Longrightarrow> mb_allocated_block_reqs m = []"
  by (cases "mb_allocated_block_reqs m")
     (auto simp: owns_def st_ok_def mamba_cache_mode_def is_mamba_def split: spec_kind.splits)

lemma st_init_owns:
  assumes "pool_rep p xs" and "\<And>c. 0 < c \<Longrightarrow> c < num_gpu_blocks p \<Longrightarrow> ref_cnt (blk p c) = ex c" and "\<And>c. 0 \<le> ex c"
    and "get_manager_for_kv_cache_spec sp f l p caching gid dcp pcp sbs z = Inr m"
    and "0 < spec_block_size sp" and "\<And>mode n k. spec_kind sp = MambaSpec mode n k \<Longrightarrow> 0 \<le> n"
  shows "owns ex p m" and "st_spec m = sp" and "st_claims m = []"
proof -
  have m: "m = st_init sp p caching gid sbs dcp pcp z (max_admission_blocks_per_request sp f l)"
    using assms(4) by (simp add: get_manager_for_kv_cache_spec_def split: spec_kind.splits)
  then show "st_spec m = sp" "st_claims m = []" by (simp_all add: st_init_def st_claims_def)
  have "null_block p = 0" using assms(1) by (simp add: pool_rep_def pool_core_def pool_shape_def)
  then show "owns ex p m" using assms
    by (auto simp: m st_init_def owns_def st_claims_def st_ok_def num_speculative_blocks_def split: spec_kind.splits)
qed

lemma mgr_get_num_owned:
  assumes "owns ex p m" and "mgr_get_num_blocks_to_allocate p rid nt hits tot num_local main cap m = Inr (n, m')"
  shows "keeps_owned ex p m p m'"
  using assms mamba_get_num_owned keeps_owned_refl [OF assms(1)]
  by (auto simp: mgr_get_num_blocks_to_allocate_def bindE_eq_Inr split: spec_kind.split_asm)

lemma mgr_add_local_owned:
  assumes "owns ex p m" and "\<forall>b \<in> set hits. b < num_gpu_blocks p"
    and "mgr_add_local_computed_blocks rid hits num_local num_external p m = Inr (p', m')"
  shows "keeps_owned ex p m p' m'"
  using assms base_add_local_owned keeps_owned_refl [OF assms(1)]
  by (auto simp: mgr_add_local_computed_blocks_def split: spec_kind.split_asm if_split_asm)

lemma mgr_external_owned:
  assumes "owns ex p m" and "mgr_allocate_external_computed_blocks rid num_local num_external p m = Inr (p', m')"
  shows "keeps_owned ex p m p' m'"
  using assms base_allocate_external_owned kpool_external_owned claim_ring_owned keeps_owned_refl [OF assms(1)]
  by (auto simp: mgr_allocate_external_computed_blocks_def ring_allocate_external_computed_blocks_def bindE_eq_Inr
      split: spec_kind.split_asm)

lemma mgr_allocate_new_owned:
  assumes "owns ex p m" and "0 \<le> main" and "mgr_allocate_new_blocks rid nt main p m = Inr (bs, p', m')"
  shows "keeps_owned ex p m p' m'"
  using assms base_allocate_new_owned kpool_allocate_owned claim_ring_owned mamba_allocate_owned
  by (auto simp: mgr_allocate_new_blocks_def split: spec_kind.split_asm)

lemma mgr_cache_owned:
  assumes "owns ex p m" and "mgr_cache_blocks dg nt ret r p m = Inr (r', p', m')"
  shows "keeps_owned ex p m p' m'"
  using assms base_cache_blocks_owned full_cache_blocks_owned mamba_cache_blocks_owned keeps_owned_refl [OF assms(1)]
  by (auto simp: mgr_cache_blocks_def split: spec_kind.split_asm)

lemma mgr_pop_owned:
  assumes "owns ex p m" and "mgr_pop_blocks_for_free rid m = (bs, m')"
  shows "owns (\<lambda>c. ex c + occ bs c) p m'" "st_config m' = st_config m" "bs = req_blocks rid m" "req_blocks rid m' = []"
  using assms mamba_pop_owned base_pop_owned owns_not_marked [OF assms(1)]
  by (auto simp: mgr_pop_blocks_for_free_def split: if_split_asm)

lemma mgr_free_owned:
  assumes own: "owns ex p m"
  shows "\<exists>p' m'. mgr_free rid p m = Inr (p', m') \<and> keeps_owned ex p m p' m' \<and> req_blocks rid m' = []"
proof -
  obtain bs m' where pop: "mgr_pop_blocks_for_free rid m = (bs, m')" by force
  note P = mgr_pop_owned [OF own pop]
  have "occ (rev bs) = occ bs" by (rule ext) simp
  then have o: "owns (\<lambda>c. ex c + occ (rev bs) c) p m'" using P(1) by (simp add: fun_eq_iff)
  have ex: "0 \<le> ex c" for c using own by (simp add: owns_def)
  have "\<forall>b \<in> set (rev bs). b < num_gpu_blocks p"
    using own P(3) req_blocks_claimed [of rid m] by (auto simp: owns_def)
  from free_blocks_owned [OF o ex this] P(2,4) show ?thesis
    by (auto simp: mgr_free_def pop keeps_owned_def)
qed

lemma mgr_remove_skipped_owned:
  assumes "owns ex p m" and "mgr_remove_skipped_blocks rid processed prompt p m = Inr (p', m')"
  shows "keeps_owned ex p m p' m'"
  using assms base_remove_skipped_owned rswa_remove_skipped_owned mamba_remove_skipped_owned keeps_owned_refl [OF assms(1)]
  by (auto simp: mgr_remove_skipped_blocks_def split: spec_kind.split_asm)

lemma mgr_common_prefix_owned:
  "owns ex p m \<Longrightarrow> mgr_get_num_common_prefix_blocks rid p m = (n, m') \<Longrightarrow> keeps_owned ex p m p m'"
  by (auto simp: mgr_get_num_common_prefix_blocks_def full_get_num_common_prefix_blocks_def Let_def keeps_owned_def
      split: if_split_asm)

lemma mgr_new_step_owned: "owns ex p m \<Longrightarrow> keeps_owned ex p m p (mgr_new_step_starts m)"
  by (simp add: mgr_new_step_starts_def mamba_new_step_starts_def keeps_owned_def)

end
