(* ===== verification/Coordinator.thy ===== *)
theory Coordinator
  imports Managers
begin

text \<open>
  \<^verbatim>\<open>v1/core/kv_cache_coordinator.py\<close>: one manager per KV cache group over one or more shared block pools, and the lookup
  that reconciles the prefix-cache hits of the groups. The coordinator classes differ in the constructor, in caching
  and in the lookup; \<^verbatim>\<open>co_kind\<close> names the class. Groups whose layers have different specifications of one type
  (\<^verbatim>\<open>UniformTypeKVCacheSpecs\<close>) are represented by the specification of their first layer.
\<close>

section \<open>Configuration and state\<close>

record kv_group =
  group_spec :: kv_spec
  is_eagle_group :: bool
  group_pool_id :: nat

record kv_cache_config =
  cfg_num_blocks :: int
  cfg_groups :: "kv_group list"
  cfg_retention_interval :: "int option"
  has_mixed_precision_kv_cache :: bool

definition num_pools :: "kv_cache_config \<Rightarrow> nat" where
  "num_pools cfg = Suc (foldr max (map group_pool_id (cfg_groups cfg)) 0)"

definition has_mamba_layers :: "kv_cache_config \<Rightarrow> bool" where
  "has_mamba_layers cfg \<longleftrightarrow> (\<exists>g \<in> set (cfg_groups cfg). is_mamba (spec_kind (group_spec g)))"

definition needs_kv_cache_zeroing :: "kv_cache_config \<Rightarrow> bool" where
  "needs_kv_cache_zeroing cfg \<longleftrightarrow> has_mamba_layers cfg \<or> has_mixed_precision_kv_cache cfg"

definition dcp_world_size_for_kv_cache_spec :: "kv_spec \<Rightarrow> int \<Rightarrow> int" where
  "dcp_world_size_for_kv_cache_spec sp dcp_world_size =
     (if dcp_world_size \<le> 1 then 1 else if is_full_attention (spec_kind sp) then dcp_world_size else 1)"

datatype coordinator_kind = NoPrefixCache | Unitary | Hybrid

record spec_group =
  sg_spec :: kv_spec
  sg_group_ids :: "nat list"
  sg_use_eagle :: bool
  sg_pool_id :: nat

record coordinator =
  co_kind :: coordinator_kind
  co_config :: kv_cache_config
  co_enable_caching :: bool
  co_scheduler_block_size :: int
  co_num_reprefillable_tokens :: int
  co_block_pools :: "block_pool list"
  co_eagle_group_ids :: "nat list"
  co_managers :: "stm list"
  co_retention_interval :: "int option"
  co_hash_block_size :: int
  co_enable_partial_hash_hits :: bool
  co_attention_groups :: "spec_group list"
  co_full_attention_group_id :: "nat option"

section \<open>Construction\<close>

definition validate_prefix_cache_retention_interval :: "int option \<Rightarrow> int \<Rightarrow> kv_cache_config \<Rightarrow> unit result" where
  "validate_prefix_cache_retention_interval retention_interval sched_bs cfg =
     (case retention_interval of
        None \<Rightarrow> Inr ()
      | Some r \<Rightarrow>
          if \<not> (\<exists>g \<in> set (cfg_groups cfg). is_sliding_window (spec_kind (group_spec g)) \<or> is_mamba (spec_kind (group_spec g)))
          then (if r = 0 then Inr () else Inl ValueError)
          else if r < 0 \<or> r mod sched_bs \<noteq> 0 then Inl ValueError else Inr ())"

definition eagle_ids :: "bool \<Rightarrow> kv_group list \<Rightarrow> nat list" where
  "eagle_ids use_eagle groups =
     (let flagged = map fst (filter (\<lambda>(i, g). is_eagle_group g) (enumerate 0 groups))
      in if use_eagle \<and> flagged = [] then [0..<length groups] else flagged)"

definition make_manager ::
  "kv_cache_config \<Rightarrow> int \<Rightarrow> int \<Rightarrow> bool \<Rightarrow> int \<Rightarrow> int \<Rightarrow> int \<Rightarrow> block_pool list \<Rightarrow> nat \<times> kv_group \<Rightarrow> stm result" where
  "make_manager cfg max_model_len max_in_flight_tokens caching dcp pcp sched_bs pools ig =
     (let (i, g) = ig
      in get_manager_for_kv_cache_spec (group_spec g) max_in_flight_tokens max_model_len (pools ! group_pool_id g) caching
           (int i) (dcp_world_size_for_kv_cache_spec (group_spec g) dcp) pcp sched_bs (needs_kv_cache_zeroing cfg))"

definition coordinator_init ::
  "coordinator_kind \<Rightarrow> kv_cache_config \<Rightarrow> int \<Rightarrow> int \<Rightarrow> bool \<Rightarrow> bool \<Rightarrow> bool \<Rightarrow> bool \<Rightarrow> int \<Rightarrow> int \<Rightarrow> int \<Rightarrow> int \<Rightarrow> int \<Rightarrow>
   coordinator result" where
  "coordinator_init kind cfg max_model_len max_in_flight_tokens use_eagle caching events use_int dcp pcp sched_bs hbs
     num_prefill_lookahead =
     (if \<not> (sched_bs mod hbs = 0 \<and> (\<forall>g \<in> set (cfg_groups cfg). sched_bs mod spec_block_size (group_spec g) = 0))
      then Inl AssertionError
      else
        bindE (mapE (\<lambda>pid. block_pool_init (cfg_num_blocks cfg) caching hbs events (int pid) use_int) [0..<num_pools cfg])
          (\<lambda>pools.
             let eagle = eagle_ids use_eagle (cfg_groups cfg)
             in if caching \<and> eagle \<noteq> [] \<and> sched_bs < num_prefill_lookahead then Inl ValueError
                else
                  bindE (mapE (make_manager cfg max_model_len max_in_flight_tokens caching dcp pcp sched_bs pools)
                           (enumerate 0 (cfg_groups cfg))) (\<lambda>managers.
                  bindE (validate_prefix_cache_retention_interval (cfg_retention_interval cfg) sched_bs cfg) (\<lambda>_.
                    Inr \<lparr>co_kind = kind, co_config = cfg, co_enable_caching = caching, co_scheduler_block_size = sched_bs,
                         co_num_reprefillable_tokens = max 0 (num_prefill_lookahead - 1), co_block_pools = pools,
                         co_eagle_group_ids = eagle, co_managers = managers,
                         co_retention_interval = cfg_retention_interval cfg, co_hash_block_size = hbs,
                         co_enable_partial_hash_hits = False, co_attention_groups = [],
                         co_full_attention_group_id = None\<rparr>))))"

definition unitary_init :: "coordinator \<Rightarrow> coordinator result" where
  "unitary_init c =
     (case co_managers c of
        [] \<Rightarrow> Inl IndexError
      | m # _ \<Rightarrow>
          if \<not> (\<not> co_enable_caching c \<or> co_hash_block_size c = st_block_size m) then Inl AssertionError
          else if length (cfg_groups (co_config c)) \<noteq> 1 then Inl AssertionError
          else Inr (c\<lparr>co_managers := (co_managers c)[0 := m\<lparr>st_use_eagle := (0 \<in> set (co_eagle_group_ids c))\<rparr>]\<rparr>))"

text \<open>\<^verbatim>\<open>verify_and_split_kv_cache_groups\<close>: groups with equal specification and pool are looked up together.\<close>

primrec join_group :: "nat \<Rightarrow> kv_group \<Rightarrow> bool \<Rightarrow> spec_group list \<Rightarrow> spec_group list" where
  "join_group i g use_eagle [] =
     [\<lparr>sg_spec = group_spec g, sg_group_ids = [i], sg_use_eagle = use_eagle, sg_pool_id = group_pool_id g\<rparr>]"
| "join_group i g use_eagle (s # ss) =
     (if sg_spec s = group_spec g \<and> sg_pool_id s = group_pool_id g
      then s\<lparr>sg_group_ids := sg_group_ids s @ [i], sg_use_eagle := (sg_use_eagle s \<or> use_eagle)\<rparr> # ss
      else s # join_group i g use_eagle ss)"

definition split_groups :: "nat list \<Rightarrow> kv_group list \<Rightarrow> spec_group list" where
  "split_groups eagle groups =
     fold (\<lambda>(i, g) ss. if participates_in_prefix_caching (spec_kind (group_spec g)) then join_group i g (i \<in> set eagle) ss else ss)
       (enumerate 0 groups) []"

abbreviation full_group :: "spec_group \<Rightarrow> bool" where
  "full_group s \<equiv> is_full_attention (spec_kind (sg_spec s))"

definition set_use_eagle :: "spec_group list \<Rightarrow> stm list \<Rightarrow> stm list" where
  "set_use_eagle groups managers =
     fold (\<lambda>i ms. ms[i := (ms ! i)\<lparr>st_use_eagle := True\<rparr>]) (concat (map sg_group_ids (filter sg_use_eagle groups))) managers"

definition verify_and_split_kv_cache_groups :: "coordinator \<Rightarrow> coordinator result" where
  "verify_and_split_kv_cache_groups c =
     (let found = split_groups (co_eagle_group_ids c) (cfg_groups (co_config c));
          groups = filter full_group found @ filter (\<lambda>s. \<not> full_group s) found
      in case groups of
           [] \<Rightarrow> Inl AssertionError
         | first # _ \<Rightarrow>
             Inr (c\<lparr>co_attention_groups := groups,
                    co_full_attention_group_id := (if full_group first then Some (hd (sg_group_ids first)) else None),
                    co_managers := set_use_eagle groups (co_managers c)\<rparr>))"

definition cache_hit_alignment_tokens :: "coordinator \<Rightarrow> int" where
  "cache_hit_alignment_tokens c = (if co_enable_partial_hash_hits c then co_hash_block_size c else co_scheduler_block_size c)"

definition partial_mamba_group :: "int \<Rightarrow> int \<Rightarrow> kv_group \<Rightarrow> bool" where
  "partial_mamba_group dcp hbs g =
     (case spec_kind (group_spec g) of
        MambaSpec mode _ _ \<Rightarrow>
          mode = ''align'' \<and>
          (dcp = 1 \<and> spec_block_size (group_spec g) > hbs \<or> dcp > 1 \<and> spec_block_size (group_spec g) \<ge> hbs)
      | _ \<Rightarrow> False)"

definition unsupported_partial_hit_manager :: "int \<Rightarrow> stm \<times> kv_group \<Rightarrow> bool" where
  "unsupported_partial_hit_manager hbs mg \<longleftrightarrow>
     (let (m, g) = mg
      in participates_in_prefix_caching (spec_kind (group_spec g)) \<and>
         \<not> supports_fine_grained_hash_lookup (spec_kind (st_spec m)) \<and> st_block_size m \<noteq> hbs)"

definition settle_alignment :: "bool \<Rightarrow> coordinator \<Rightarrow> coordinator" where
  "settle_alignment partial c =
     (let c1 = c\<lparr>co_enable_partial_hash_hits := partial\<rparr>
      in c1\<lparr>co_managers := map (\<lambda>m. m\<lparr>st_cache_hit_alignment_tokens := cache_hit_alignment_tokens c1\<rparr>) (co_managers c1)\<rparr>)"

definition hybrid_init :: "int \<Rightarrow> int \<Rightarrow> coordinator \<Rightarrow> coordinator result" where
  "hybrid_init dcp pcp c =
     (let groups = cfg_groups (co_config c); hbs = co_hash_block_size c; mgs = zip (co_managers c) groups
      in if \<not> (\<forall>(m, g) \<in> set mgs. participates_in_prefix_caching (spec_kind (group_spec g)) \<longrightarrow> st_block_size m mod hbs = 0)
         then Inl AssertionError
         else if pcp \<noteq> 1 then Inl AssertionError
         else if dcp > 1 \<and> \<not> (\<forall>g \<in> set groups. is_full_attention (spec_kind (group_spec g)) \<or> is_mamba (spec_kind (group_spec g)))
         then Inl AssertionError
         else
           verify_and_split_kv_cache_groups
             (settle_alignment ((\<exists>g \<in> set groups. partial_mamba_group dcp hbs g) \<and>
                                \<not> (\<exists>mg \<in> set mgs. unsupported_partial_hit_manager hbs mg)) c))"

definition get_kv_cache_coordinator ::
  "kv_cache_config \<Rightarrow> int \<Rightarrow> int \<Rightarrow> bool \<Rightarrow> bool \<Rightarrow> bool \<Rightarrow> bool \<Rightarrow> int \<Rightarrow> int \<Rightarrow> int \<Rightarrow> int \<Rightarrow> int \<Rightarrow> coordinator result" where
  "get_kv_cache_coordinator cfg max_model_len max_in_flight_tokens use_eagle caching events use_int dcp pcp sched_bs hbs
     num_prefill_lookahead =
     (if \<not> caching
      then coordinator_init NoPrefixCache cfg max_model_len max_in_flight_tokens use_eagle False events use_int dcp pcp
             sched_bs hbs num_prefill_lookahead
      else if length (cfg_groups cfg) = 1
      then bindE (coordinator_init Unitary cfg max_model_len max_in_flight_tokens use_eagle caching events use_int dcp pcp
             sched_bs hbs num_prefill_lookahead) unitary_init
      else bindE (coordinator_init Hybrid cfg max_model_len max_in_flight_tokens use_eagle caching events use_int dcp pcp
             sched_bs hbs num_prefill_lookahead) (hybrid_init dcp pcp))"

section \<open>Operations on all managers\<close>

abbreviation pool_index :: "coordinator \<Rightarrow> nat \<Rightarrow> nat" where
  "pool_index c i \<equiv> group_pool_id (cfg_groups (co_config c) ! i)"

definition put_manager :: "nat \<Rightarrow> block_pool \<Rightarrow> stm \<Rightarrow> coordinator \<Rightarrow> coordinator" where
  "put_manager i p m c =
     c\<lparr>co_block_pools := (co_block_pools c)[pool_index c i := p], co_managers := (co_managers c)[i := m]\<rparr>"

text \<open>A loop over the managers in order; \<^verbatim>\<open>s\<close> is what the body carries from one manager to the next.\<close>

type_synonym 's manager_step = "nat \<Rightarrow> 's \<Rightarrow> block_pool \<Rightarrow> stm \<Rightarrow> ('s \<times> block_pool \<times> stm) result"

definition on_manager :: "'s manager_step \<Rightarrow> nat \<Rightarrow> 's \<times> coordinator \<Rightarrow> ('s \<times> coordinator) result" where
  "on_manager f i sc =
     (let (s, c) = sc
      in bindE (f i s (co_block_pools c ! pool_index c i) (co_managers c ! i)) (\<lambda>(s', p, m). Inr (s', put_manager i p m c)))"

definition for_managers :: "'s manager_step \<Rightarrow> 's \<Rightarrow> coordinator \<Rightarrow> ('s \<times> coordinator) result" where
  "for_managers f s c = foldE (on_manager f) [0..<length (co_managers c)] (s, c)"

abbreviation is_cross :: "stm \<Rightarrow> bool" where
  "is_cross m \<equiv> spec_kind (st_spec m) = CrossAttentionSpec"

text \<open>\<^verbatim>\<open>new_computed_blocks[i]\<close> is one list per group; a tuple that is too short raises.\<close>

definition count_step :: "coordinator \<Rightarrow> string \<Rightarrow> int \<Rightarrow> nat list list \<Rightarrow> int \<Rightarrow> int \<Rightarrow> int \<Rightarrow> int \<Rightarrow> bool \<Rightarrow> int list manager_step" where
  "count_step c rid num_toks hits num_encoder_tokens total_computed num_local main cap i counts p m =
     bindE (if is_cross m
            then mgr_get_num_blocks_to_allocate p rid num_encoder_tokens [] 0 0 num_encoder_tokens cap m
            else bindE (py_index hits (int i)) (\<lambda>bs.
                   mgr_get_num_blocks_to_allocate p rid num_toks bs total_computed num_local main cap m)) (\<lambda>(n, m').
       Inr (counts[pool_index c i := counts ! pool_index c i + n], p, m'))"

definition co_get_num_blocks_to_allocate ::
  "string \<Rightarrow> int \<Rightarrow> nat list list \<Rightarrow> int \<Rightarrow> int \<Rightarrow> int \<Rightarrow> int \<Rightarrow> bool \<Rightarrow> coordinator \<Rightarrow> (int \<times> coordinator) result" where
  "co_get_num_blocks_to_allocate rid num_toks hits num_encoder_tokens total_computed num_local main cap c =
     bindE (for_managers (count_step c rid num_toks hits num_encoder_tokens total_computed num_local main cap)
              (replicate (length (co_block_pools c)) 0) c) (\<lambda>(counts, c').
       Inr (if counts = [] then 0 else Max (set counts), c'))"

definition add_local_step :: "string \<Rightarrow> nat list list \<Rightarrow> int \<Rightarrow> int \<Rightarrow> unit manager_step" where
  "add_local_step rid hits num_local num_external i u p m =
     bindE (py_index hits (int i)) (\<lambda>bs.
     bindE (mgr_add_local_computed_blocks rid bs num_local num_external p m) (\<lambda>(p', m'). Inr (u, p', m')))"

definition external_step :: "string \<Rightarrow> int \<Rightarrow> int \<Rightarrow> unit manager_step" where
  "external_step rid num_local num_external i u p m =
     bindE (mgr_allocate_external_computed_blocks rid num_local num_external p m) (\<lambda>(p', m'). Inr (u, p', m'))"

definition co_allocate_new_computed_blocks ::
  "string \<Rightarrow> nat list list \<Rightarrow> int \<Rightarrow> int \<Rightarrow> coordinator \<Rightarrow> coordinator result" where
  "co_allocate_new_computed_blocks rid hits num_local num_external c =
     (if \<exists>m \<in> set (co_managers c). st_num_cached_block m rid \<noteq> None
      then (if \<forall>bs \<in> set hits. bs = [] then Inr c else Inl AssertionError)
      else
        bindE (for_managers (add_local_step rid hits num_local num_external) () c) (\<lambda>(_, c1).
          if num_external > 0
          then bindE (for_managers (external_step rid num_local num_external) () c1) (\<lambda>(_, c2). Inr c2)
          else Inr c1))"

definition allocate_new_step :: "string \<Rightarrow> int \<Rightarrow> int \<Rightarrow> int \<Rightarrow> nat list list manager_step" where
  "allocate_new_step rid num_toks main num_encoder_tokens i acc p m =
     bindE (mgr_allocate_new_blocks rid (if is_cross m then num_encoder_tokens else num_toks) main p m) (\<lambda>(bs, p', m').
       Inr (acc @ [bs], p', m'))"

definition co_allocate_new_blocks ::
  "string \<Rightarrow> int \<Rightarrow> int \<Rightarrow> int \<Rightarrow> coordinator \<Rightarrow> (nat list list \<times> coordinator) result" where
  "co_allocate_new_blocks rid num_toks main num_encoder_tokens c =
     for_managers (allocate_new_step rid num_toks main num_encoder_tokens) [] c"

definition align_cacheable :: "coordinator \<Rightarrow> int \<Rightarrow> int" where
  "align_cacheable c num_toks =
     (if co_enable_partial_hash_hits c then num_toks else round_down num_toks (co_scheduler_block_size c))"

text \<open>How many tokens a manager caches: the base class and the hybrid coordinator.\<close>

definition tokens_to_cache :: "coordinator \<Rightarrow> int \<Rightarrow> stm \<Rightarrow> int" where
  "tokens_to_cache c num_computed m =
     (if co_kind c \<noteq> Hybrid then max 0 (num_computed - co_num_reprefillable_tokens c)
      else
        (let cached = align_cacheable c num_computed
         in if st_use_eagle m \<and> cached > 0
            then (let finalized = max 0 (num_computed - co_num_reprefillable_tokens c)
                  in min finalized (align_cacheable c finalized + st_block_size m))
            else cached))"

definition cache_step :: "(bytes list \<Rightarrow> bytes) \<Rightarrow> coordinator \<Rightarrow> int \<Rightarrow> request manager_step" where
  "cache_step embeds_digest c num_computed i r p m =
     mgr_cache_blocks embeds_digest (tokens_to_cache c num_computed m) (co_retention_interval c) r p m"

definition co_cache_blocks :: "(bytes list \<Rightarrow> bytes) \<Rightarrow> request \<Rightarrow> int \<Rightarrow> coordinator \<Rightarrow> (request \<times> coordinator) result" where
  "co_cache_blocks embeds_digest r num_computed c = for_managers (cache_step embeds_digest c num_computed) r c"

definition free_step :: "string \<Rightarrow> unit manager_step" where
  "free_step rid i u p m = bindE (mgr_free rid p m) (\<lambda>(p', m'). Inr (u, p', m'))"

definition co_free :: "string \<Rightarrow> coordinator \<Rightarrow> coordinator result" where
  "co_free rid c = bindE (for_managers (free_step rid) () c) (\<lambda>(_, c'). Inr c')"

definition pop_step :: "coordinator \<Rightarrow> string \<Rightarrow> pool_block list manager_step" where
  "pop_step c rid i acc p m =
     (let (bs, m') = mgr_pop_blocks_for_free rid m in Inr (acc @ map (Pair (pool_index c i)) bs, p, m'))"

definition co_pop_blocks_for_free :: "string \<Rightarrow> coordinator \<Rightarrow> (pool_block list \<times> coordinator) result" where
  "co_pop_blocks_for_free rid c = for_managers (pop_step c rid) [] c"

definition common_prefix_step :: "string \<Rightarrow> int list manager_step" where
  "common_prefix_step rid i acc p m = (let (n, m') = mgr_get_num_common_prefix_blocks rid p m in Inr (acc @ [n], p, m'))"

definition co_get_num_common_prefix_blocks :: "string \<Rightarrow> coordinator \<Rightarrow> (int list \<times> coordinator) result" where
  "co_get_num_common_prefix_blocks rid c =
     (if co_kind c = NoPrefixCache then Inr (replicate (length (co_managers c)) 0, c)
      else for_managers (common_prefix_step rid) [] c)"

definition remove_skipped_step :: "string \<Rightarrow> int \<Rightarrow> int option \<Rightarrow> unit manager_step" where
  "remove_skipped_step rid processed num_prompt i u p m =
     bindE (mgr_remove_skipped_blocks rid processed num_prompt p m) (\<lambda>(p', m'). Inr (u, p', m'))"

definition co_remove_skipped_blocks :: "string \<Rightarrow> int \<Rightarrow> int option \<Rightarrow> coordinator \<Rightarrow> coordinator result" where
  "co_remove_skipped_blocks rid processed num_prompt c =
     bindE (for_managers (remove_skipped_step rid processed num_prompt) () c) (\<lambda>(_, c'). Inr c')"

definition co_get_blocks :: "string \<Rightarrow> coordinator \<Rightarrow> nat list list" where
  "co_get_blocks rid c = map (req_blocks rid) (co_managers c)"

definition co_new_step_starts :: "coordinator \<Rightarrow> coordinator" where
  "co_new_step_starts c = c\<lparr>co_managers := map mgr_new_step_starts (co_managers c)\<rparr>"

section \<open>Prefix-cache lookup\<close>

text \<open>The variables of the fixed-point loop of the hybrid lookup.\<close>

record hit_state =
  hs_curr :: int
  hs_blocks :: "nat list option list"
  hs_lengths :: "int list"
  hs_eagle_verified :: "nat list"
  hs_longest :: int

definition eagle_margin :: "coordinator \<Rightarrow> spec_group \<Rightarrow> int \<Rightarrow> int" where
  "eagle_margin c g group_block_size =
     (if co_enable_partial_hash_hits c \<and> supports_fine_grained_hash_lookup (spec_kind (sg_spec g)) \<and>
         group_block_size > co_hash_block_size c
      then co_hash_block_size c else group_block_size)"

text \<open>\<^verbatim>\<open>for group_id, blocks in zip(group_ids, hit_blocks)\<close>: record the result of one lookup.\<close>

definition record_hit :: "nat list \<Rightarrow> nat list list \<Rightarrow> int \<Rightarrow> hit_state \<Rightarrow> hit_state" where
  "record_hit gids blocks n st =
     fold (\<lambda>(g, bs) st. st\<lparr>hs_blocks := (hs_blocks st)[g := Some bs], hs_lengths := (hs_lengths st)[g := n]\<rparr>)
       (zip gids blocks) st"

definition lookup_group ::
  "coordinator \<Rightarrow> bytes list \<Rightarrow> int \<Rightarrow> nat \<times> spec_group \<Rightarrow> hit_state \<Rightarrow> hit_state result" where
  "lookup_group c hashes max_len ig st =
     (let (idx, g) = ig; first = hd (sg_group_ids g); m = co_managers c ! first; curr_len = hs_curr st
      in if full_group g \<and> hs_blocks st ! first \<noteq> None
         then Inr (st\<lparr>hs_curr := min curr_len (hs_lengths st ! first)\<rparr>)
         else
           (let drop_eagle = (sg_use_eagle g \<and> idx \<notin> set (hs_eagle_verified st));
                lim = (if drop_eagle \<and> \<not> is_mamba (spec_kind (sg_spec g))
                       then min (curr_len + eagle_margin c g (st_block_size m)) max_len else curr_len)
            in bindE (find_longest_cache_hit (co_block_pools c ! sg_pool_id g) (sg_spec g) (Raw hashes) lim
                        (map int (sg_group_ids g)) drop_eagle (cache_hit_alignment_tokens c)
                        (st_dcp_world_size m) (st_pcp_world_size m)) (\<lambda>(blocks, n).
               let verified = (if drop_eagle then List.insert idx (hs_eagle_verified st)
                               else if n < curr_len then [] else hs_eagle_verified st);
                   st1 = record_hit (sg_group_ids g) blocks n (st\<lparr>hs_eagle_verified := verified, hs_curr := n\<rparr>)
               in Inr (st1\<lparr>hs_longest := max (hs_longest st1) n\<rparr>))))"

definition is_simple_hybrid :: "coordinator \<Rightarrow> bool" where
  "is_simple_hybrid c \<longleftrightarrow> length (co_attention_groups c) = 2 \<and> full_group (co_attention_groups c ! 0)"

text \<open>\<^verbatim>\<open>while True\<close>; \<^verbatim>\<open>None\<close> would be a loop that never ends.\<close>

partial_function (option) hybrid_loop ::
  "coordinator \<Rightarrow> bytes list \<Rightarrow> int \<Rightarrow> int \<Rightarrow> hit_state \<Rightarrow> (int \<times> hit_state) result option" where
  "hybrid_loop c hashes max_len hit_len st =
     (case foldE (lookup_group c hashes max_len) (enumerate 0 (co_attention_groups c)) (st\<lparr>hs_curr := hit_len\<rparr>) of
        Inl e \<Rightarrow> Some (Inl e)
      | Inr st' \<Rightarrow>
          if hs_curr st' \<ge> hit_len then Some (Inr (hit_len, st'))
          else if is_simple_hybrid c then Some (Inr (hs_curr st', st'))
          else hybrid_loop c hashes max_len (hs_curr st') st')"

declare hybrid_loop.simps [code]

definition truncate_group :: "coordinator \<Rightarrow> int \<Rightarrow> spec_group \<Rightarrow> hit_state \<Rightarrow> hit_state" where
  "truncate_group c hit_len g st =
     (if \<not> full_group g then st
      else
        (let n = nat (cdiv hit_len (st_block_size (co_managers c ! hd (sg_group_ids g))))
         in fold (\<lambda>i st. case hs_blocks st ! i of
                           None \<Rightarrow> st
                         | Some bs \<Rightarrow> st\<lparr>hs_blocks := (hs_blocks st)[i := Some (take n bs)],
                                        hs_lengths := (hs_lengths st)[i := hit_len]\<rparr>) (sg_group_ids g) st))"

definition hit_state_init :: "coordinator \<Rightarrow> hit_state" where
  "hit_state_init c =
     (let n = length (cfg_groups (co_config c))
      in \<lparr>hs_curr = 0, hs_blocks = replicate n None, hs_lengths = replicate n 0, hs_eagle_verified = [], hs_longest = 0\<rparr>)"

definition hybrid_find_longest_cache_hit ::
  "coordinator \<Rightarrow> bytes list \<Rightarrow> int \<Rightarrow> (nat list list \<times> int \<times> int) result option" where
  "hybrid_find_longest_cache_hit c hashes max_len =
     map_option (\<lambda>r. bindE r (\<lambda>(hit_len, st).
       let st' = fold (truncate_group c hit_len) (co_attention_groups c) st
       in Inr (map (\<lambda>b. case b of None \<Rightarrow> [] | Some bs \<Rightarrow> bs) (hs_blocks st'), hit_len, hs_longest st' - hit_len)))
     (hybrid_loop c hashes max_len max_len (hit_state_init c))"

definition unitary_find_longest_cache_hit :: "coordinator \<Rightarrow> bytes list \<Rightarrow> int \<Rightarrow> (nat list list \<times> int \<times> int) result" where
  "unitary_find_longest_cache_hit c hashes max_len =
     (let m = co_managers c ! 0
      in bindE (find_longest_cache_hit (co_block_pools c ! 0) (group_spec (cfg_groups (co_config c) ! 0)) (Raw hashes) max_len
                  [0] (0 \<in> set (co_eagle_group_ids c)) (st_block_size m) (st_dcp_world_size m) (st_pcp_world_size m))
           (\<lambda>(blocks, n). Inr (blocks, n, 0)))"

definition co_find_longest_cache_hit :: "coordinator \<Rightarrow> bytes list \<Rightarrow> int \<Rightarrow> (nat list list \<times> int \<times> int) result option" where
  "co_find_longest_cache_hit c hashes max_len =
     (case co_kind c of
        NoPrefixCache \<Rightarrow> Some (Inr (replicate (length (co_managers c)) [], 0, 0))
      | Unitary \<Rightarrow> Some (unitary_find_longest_cache_hit c hashes max_len)
      | Hybrid \<Rightarrow> hybrid_find_longest_cache_hit c hashes max_len)"

text \<open>
  The body of the loop reads \<^verbatim>\<open>manager.dcp_world_size\<close>, and no variable \<^verbatim>\<open>manager\<close> is bound in the method or the module.
\<close>

definition manager_name :: "stm result" where
  "manager_name = Inl NameError"

definition find_longest_cache_hit_per_group :: "coordinator \<Rightarrow> bytes list \<Rightarrow> int \<Rightarrow> (nat list list \<times> int list) result" where
  "find_longest_cache_hit_per_group c hashes max_len =
     (let n = length (cfg_groups (co_config c))
      in foldE (\<lambda>g (hit_blocks, hit_lengths).
                  bindE manager_name (\<lambda>m.
                  bindE (find_longest_cache_hit (co_block_pools c ! sg_pool_id g) (sg_spec g) (Raw hashes) max_len
                           (map int (sg_group_ids g)) (sg_use_eagle g) (cache_hit_alignment_tokens c)
                           (st_dcp_world_size m) (st_pcp_world_size m)) (\<lambda>(blocks, group_hit).
                    Inr (fold (\<lambda>(gid, blks) (bs, ls). (bs[gid := blks], ls[gid := group_hit]))
                           (zip (sg_group_ids g) blocks) (hit_blocks, hit_lengths)))))
           (co_attention_groups c) (replicate n [], replicate n 0))"

section \<open>Ownership\<close>

text \<open>The references to block \<^verbatim>\<open>b\<close> of pool \<^verbatim>\<open>k\<close> that the managers hold together.\<close>

definition held :: "coordinator \<Rightarrow> nat \<Rightarrow> nat \<Rightarrow> int" where
  "held c k b = (\<Sum>i \<in> {i. i < length (co_managers c) \<and> pool_index c i = k}. occ (st_claims (co_managers c ! i)) b)"

definition mgr_ok :: "block_pool \<Rightarrow> stm \<Rightarrow> bool" where
  "mgr_ok p m \<longleftrightarrow> distinct (map fst (st_req_to_blocks m)) \<and> st_null_block m = 0 \<and>
     (\<forall>b \<in> set (st_claims m). b < num_gpu_blocks p) \<and> st_ok m"

text \<open>The invariant: every reference count is what the managers hold plus \<^verbatim>\<open>ex\<close>, the references of the callers.\<close>

definition co_owns :: "(nat \<Rightarrow> nat \<Rightarrow> int) \<Rightarrow> coordinator \<Rightarrow> bool" where
  "co_owns ex c \<longleftrightarrow>
     length (co_managers c) = length (cfg_groups (co_config c)) \<and>
     (\<forall>i < length (co_managers c). pool_index c i < length (co_block_pools c) \<and>
        mgr_ok (co_block_pools c ! pool_index c i) (co_managers c ! i)) \<and>
     (\<forall>k b. 0 \<le> ex k b) \<and>
     (\<forall>k < length (co_block_pools c). (\<exists>xs. pool_rep (co_block_pools c ! k) xs) \<and>
        (\<forall>b. 0 < b \<and> b < num_gpu_blocks (co_block_pools c ! k) \<longrightarrow>
           ref_cnt (blk (co_block_pools c ! k) b) = ex k b + held c k b))"

lemma owns_iff:
  "owns ex p m \<longleftrightarrow> (\<exists>xs. pool_rep p xs) \<and> mgr_ok p m \<and> (\<forall>c. 0 \<le> ex c) \<and>
     (\<forall>c. 0 < c \<and> c < num_gpu_blocks p \<longrightarrow> ref_cnt (blk p c) = ex c + occ (st_claims m) c)"
  by (auto simp: owns_def mgr_ok_def)

lemma held_split:
  assumes "i < length (co_managers c)" and "pool_index c i = k"
  shows "held c k b = occ (st_claims (co_managers c ! i)) b +
    (\<Sum>j \<in> {j. j < length (co_managers c) \<and> pool_index c j = k} - {i}. occ (st_claims (co_managers c ! j)) b)"
  unfolding held_def by (rule sum.remove) (use assms in auto)

text \<open>What manager \<^verbatim>\<open>i\<close> sees as held by others.\<close>

definition ex_of :: "(nat \<Rightarrow> nat \<Rightarrow> int) \<Rightarrow> coordinator \<Rightarrow> nat \<Rightarrow> nat \<Rightarrow> int" where
  "ex_of ex c i b = ex (pool_index c i) b +
     (\<Sum>j \<in> {j. j < length (co_managers c) \<and> pool_index c j = pool_index c i} - {i}. occ (st_claims (co_managers c ! j)) b)"

lemma co_owns_manager:
  assumes "co_owns ex c" and "i < length (co_managers c)"
  shows "owns (ex_of ex c i) (co_block_pools c ! pool_index c i) (co_managers c ! i)"
  using assms held_split [OF assms(2) refl]
  by (auto simp: co_owns_def owns_iff ex_of_def sum_nonneg)

lemma put_manager_simps [simp]:
  "co_config (put_manager i p m c) = co_config c" "length (co_managers (put_manager i p m c)) = length (co_managers c)"
  "length (co_block_pools (put_manager i p m c)) = length (co_block_pools c)"
  "co_kind (put_manager i p m c) = co_kind c"
  by (simp_all add: put_manager_def)

lemma mgr_ok_same: "pool_same p p' \<Longrightarrow> mgr_ok p m \<Longrightarrow> mgr_ok p' m"
  by (simp add: mgr_ok_def pool_same_n)

text \<open>Putting back a manager and its pool, with references \<^verbatim>\<open>d\<close> passing to the callers.\<close>

lemma co_owns_put_ex:
  assumes co: "co_owns ex c" and i: "i < length (co_managers c)"
    and own: "owns (\<lambda>b. ex_of ex c i b + d b) p' m'" and same: "pool_same (co_block_pools c ! pool_index c i) p'"
    and d: "\<And>b. 0 \<le> d b"
  shows "co_owns (\<lambda>k b. ex k b + (if k = pool_index c i then d b else 0)) (put_manager i p' m' c)"
proof -
  let ?c = "put_manager i p' m' c" and ?k = "pool_index c i"
  let ?rest = "\<lambda>b. \<Sum>j \<in> {j. j < length (co_managers c) \<and> pool_index c j = ?k} - {i}. occ (st_claims (co_managers c ! j)) b"
  have k: "?k < length (co_block_pools c)" using co i by (simp add: co_owns_def)
  have held_k: "held ?c ?k b = occ (st_claims m') b + ?rest b" for b
    using held_split [of i ?c ?k b] i by (simp add: put_manager_def)
  have held_o: "held ?c k' b = held c k' b" if "k' \<noteq> ?k" for k' b
    unfolding held_def using that by (intro sum.cong) (auto simp: put_manager_def, metis nth_list_update_neq)
  have ok: "mgr_ok (co_block_pools ?c ! pool_index ?c j) (co_managers ?c ! j)" if "j < length (co_managers c)" for j
  proof (cases "j = i")
    case True
    then show ?thesis using own k i by (simp add: put_manager_def owns_iff)
  next
    case False
    have "mgr_ok (co_block_pools c ! pool_index c j) (co_managers c ! j)" using co that by (simp add: co_owns_def)
    then show ?thesis using False k mgr_ok_same [OF same]
      by (cases "pool_index c j = ?k") (simp_all add: put_manager_def nth_list_update)
  qed
  have pool: "(\<exists>xs. pool_rep (co_block_pools ?c ! k') xs) \<and>
      (\<forall>b. 0 < b \<and> b < num_gpu_blocks (co_block_pools ?c ! k') \<longrightarrow>
        ref_cnt (blk (co_block_pools ?c ! k') b) = ex k' b + (if k' = ?k then d b else 0) + held ?c k' b)"
    if "k' < length (co_block_pools c)" for k'
  proof (cases "k' = ?k")
    case True
    then have "co_block_pools ?c ! k' = p'" using k by (simp add: put_manager_def)
    then show ?thesis using own True by (simp add: owns_iff ex_of_def held_k)
  next
    case False
    then have "co_block_pools ?c ! k' = co_block_pools c ! k'" by (simp add: put_manager_def)
    then show ?thesis using co that False by (simp add: co_owns_def held_o)
  qed
  have nn: "0 \<le> ex k' b + (if k' = ?k then d b else 0)" for k' b using co d [of b] by (simp add: co_owns_def)
  show ?thesis unfolding co_owns_def using co ok pool nn by (simp add: co_owns_def)
qed

lemma co_owns_put:
  assumes "co_owns ex c" and "i < length (co_managers c)"
    and "keeps_owned (ex_of ex c i) (co_block_pools c ! pool_index c i) (co_managers c ! i) p' m'"
  shows "co_owns ex (put_manager i p' m' c)"
  using co_owns_put_ex [OF assms(1,2), of "\<lambda>_. 0" p' m'] assms(3) by (simp add: keeps_owned_def cong: if_cong)

text \<open>What no operation on the managers changes.\<close>

definition co_same :: "coordinator \<Rightarrow> coordinator \<Rightarrow> bool" where
  "co_same c c' \<longleftrightarrow>
     c' = c\<lparr>co_block_pools := co_block_pools c', co_managers := co_managers c'\<rparr> \<and>
     length (co_block_pools c') = length (co_block_pools c) \<and> length (co_managers c') = length (co_managers c) \<and>
     (\<forall>k < length (co_block_pools c). pool_same (co_block_pools c ! k) (co_block_pools c' ! k)) \<and>
     (\<forall>i < length (co_managers c). st_config (co_managers c' ! i) = st_config (co_managers c ! i))"

lemma co_same_refl [simp]: "co_same c c"
  by (simp add: co_same_def)

lemma co_same_simps:
  assumes "co_same c c'"
  shows "co_config c' = co_config c" "co_kind c' = co_kind c" "length (co_managers c') = length (co_managers c)"
    "length (co_block_pools c') = length (co_block_pools c)"
    "k < length (co_block_pools c) \<Longrightarrow> pool_same (co_block_pools c ! k) (co_block_pools c' ! k)"
    "i < length (co_managers c) \<Longrightarrow> st_config (co_managers c' ! i) = st_config (co_managers c ! i)"
proof -
  have c': "c' = c\<lparr>co_block_pools := co_block_pools c', co_managers := co_managers c'\<rparr>" using assms by (simp add: co_same_def)
  show "co_config c' = co_config c" "co_kind c' = co_kind c" by (subst c', simp)+
qed (use assms in \<open>auto simp: co_same_def\<close>)

lemma co_same_trans:
  assumes "co_same c c1" and "co_same c1 c2"
  shows "co_same c c2"
proof -
  have "c2 = c1\<lparr>co_block_pools := co_block_pools c2, co_managers := co_managers c2\<rparr>"
    "c1 = c\<lparr>co_block_pools := co_block_pools c1, co_managers := co_managers c1\<rparr>"
    using assms by (simp_all add: co_same_def)
  then have "c2 = c\<lparr>co_block_pools := co_block_pools c2, co_managers := co_managers c2\<rparr>"
    by (cases c; cases c1; cases c2) simp
  then show ?thesis using assms pool_same_trans by (auto simp: co_same_def)
qed

lemma co_same_put:
  assumes "i < length (co_managers c)" and "pool_same (co_block_pools c ! pool_index c i) p"
    and "st_config m = st_config (co_managers c ! i)"
  shows "co_same c (put_manager i p m c)"
proof -
  have "pool_same (co_block_pools c ! k) ((co_block_pools c)[pool_index c i := p] ! k)" if "k < length (co_block_pools c)" for k
    using assms(2) that by (cases "k = pool_index c i") simp_all
  moreover have "st_config ((co_managers c)[i := m] ! j) = st_config (co_managers c ! j)" if "j < length (co_managers c)" for j
    using assms(3) that by (cases "j = i") simp_all
  ultimately show ?thesis by (simp add: co_same_def put_manager_def)
qed

definition co_keeps :: "(nat \<Rightarrow> nat \<Rightarrow> int) \<Rightarrow> coordinator \<Rightarrow> coordinator \<Rightarrow> bool" where
  "co_keeps ex c c' \<longleftrightarrow> co_owns ex c' \<and> co_same c c'"

lemma co_keepsD: "co_keeps ex c c' \<Longrightarrow> co_owns ex c'" "co_keeps ex c c' \<Longrightarrow> co_same c c'"
  by (simp_all add: co_keeps_def)

lemma co_keeps_refl: "co_owns ex c \<Longrightarrow> co_keeps ex c c"
  by (simp add: co_keeps_def)

lemma co_keeps_trans: "co_keeps ex c c1 \<Longrightarrow> co_keeps ex c1 c2 \<Longrightarrow> co_keeps ex c c2"
  using co_same_trans by (auto simp: co_keeps_def)

text \<open>
  The contract between the coordinator and a manager method: it keeps ownership whatever the others hold. The loop
  over the managers then keeps the invariant of the coordinator.
\<close>

locale owned_step =
  fixes step :: "'s manager_step" and pre :: "nat \<Rightarrow> block_pool \<Rightarrow> bool"
  assumes step_owned: "\<And>ex p m i s s' p' m'. owns ex p m \<Longrightarrow> pre i p \<Longrightarrow> step i s p m = Inr (s', p', m') \<Longrightarrow> keeps_owned ex p m p' m'"
    and pre_same: "\<And>i p p'. pool_same p p' \<Longrightarrow> pre i p \<Longrightarrow> pre i p'"
begin

lemma on_manager_owned:
  assumes "co_owns ex c" and "i < length (co_managers c)" and "pre i (co_block_pools c ! pool_index c i)"
    and "on_manager step i (s, c) = Inr (s', c')"
  shows "co_keeps ex c c'"
proof -
  obtain p' m' where st: "step i s (co_block_pools c ! pool_index c i) (co_managers c ! i) = Inr (s', p', m')"
    and c': "c' = put_manager i p' m' c"
    using assms(4) by (auto simp: on_manager_def bindE_eq_Inr)
  note K = step_owned [OF co_owns_manager [OF assms(1,2)] assms(3) st]
  show ?thesis using co_owns_put [OF assms(1,2) K] co_same_put [OF assms(2)] K by (simp add: co_keeps_def c' keeps_owned_def)
qed

lemma for_managers_owned:
  assumes "co_owns ex c" and "\<And>i. i < length (co_managers c) \<Longrightarrow> pre i (co_block_pools c ! pool_index c i)"
    and "for_managers step s c = Inr (s', c')"
  shows "co_keeps ex c c'"
proof -
  have "foldE (on_manager step) [0..<length (co_managers c)] (s, c) = Inr (s', c')" using assms(3) by (simp add: for_managers_def)
  then have "case (s', c') of (s', c') \<Rightarrow> co_keeps ex c c'"
  proof (rule foldE_invariant)
    show "case (s, c) of (s', c') \<Rightarrow> co_keeps ex c c'" using assms(1) by (simp add: co_keeps_refl)
    fix i t t' assume i: "i \<in> set [0..<length (co_managers c)]" and t: "case t of (s', c') \<Rightarrow> co_keeps ex c c'"
      and st: "on_manager step i t = Inr t'"
    obtain s1 c1 s2 c2 where tt: "t = (s1, c1)" "t' = (s2, c2)" by force
    have k: "co_keeps ex c c1" using t tt by simp
    note S = co_same_simps [OF co_keepsD(2) [OF k]]
    have "pool_index c i < length (co_block_pools c)" using assms(1) i by (simp add: co_owns_def)
    then have "pre i (co_block_pools c1 ! pool_index c1 i)" using pre_same [OF S(5) assms(2)] i S(1) by simp
    from on_manager_owned [OF co_keepsD(1) [OF k] _ this] st i S(3) tt have "co_keeps ex c1 c2" by simp
    then show "case t' of (s', c') \<Rightarrow> co_keeps ex c c'" using co_keeps_trans [OF k] tt by simp
  qed
  then show ?thesis by simp
qed

end

interpretation count: owned_step "count_step c rid nt hits enc tot loc main cap" "\<lambda>i p. True"
  for c rid nt hits enc tot loc main cap
  by unfold_locales (auto simp: count_step_def bindE_eq_Inr dest!: mgr_get_num_owned split: if_split_asm)

interpretation add_local: owned_step "add_local_step rid hits loc ext" "\<lambda>i p. i < length hits \<longrightarrow> (\<forall>b \<in> set (hits ! i). b < num_gpu_blocks p)"
  for rid hits loc ext
  by unfold_locales (auto simp: add_local_step_def bindE_eq_Inr py_index_def pool_same_n dest!: mgr_add_local_owned [rotated 2] split: if_split_asm)

interpretation external: owned_step "external_step rid loc ext" "\<lambda>i p. True"
  for rid loc ext
  by unfold_locales (auto simp: external_step_def bindE_eq_Inr dest!: mgr_external_owned)

interpretation allocate_new: owned_step "allocate_new_step rid nt main enc" "\<lambda>i p. 0 \<le> main"
  for rid nt main enc
  by unfold_locales (auto simp: allocate_new_step_def bindE_eq_Inr dest!: mgr_allocate_new_owned [rotated 2])

interpretation cache: owned_step "cache_step dg c n" "\<lambda>i p. True"
  for dg c n
  by unfold_locales (auto simp: cache_step_def dest!: mgr_cache_owned)

interpretation free: owned_step "free_step rid" "\<lambda>i p. True"
  for rid
proof unfold_locales
  fix ex p m i s s' p' m' assume "owns ex p m" and "free_step rid i s p m = Inr (s', p', m')"
  then show "keeps_owned ex p m p' m'" using mgr_free_owned [of ex p m rid] by (auto simp: free_step_def)
qed simp

interpretation common_prefix: owned_step "common_prefix_step rid" "\<lambda>i p. True"
  for rid
  by unfold_locales (auto simp: common_prefix_step_def split: prod.splits dest!: mgr_common_prefix_owned)

interpretation remove_skipped: owned_step "remove_skipped_step rid n prompt" "\<lambda>i p. True"
  for rid n prompt
  by unfold_locales (auto simp: remove_skipped_step_def bindE_eq_Inr dest!: mgr_remove_skipped_owned)

subsection \<open>The operations\<close>

definition hits_ok :: "coordinator \<Rightarrow> nat list list \<Rightarrow> bool" where
  "hits_ok c hits \<longleftrightarrow> (\<forall>i < length (co_managers c). i < length hits \<longrightarrow>
     (\<forall>b \<in> set (hits ! i). b < num_gpu_blocks (co_block_pools c ! pool_index c i)))"

lemma co_get_num_keeps:
  assumes "co_owns ex c" and "co_get_num_blocks_to_allocate rid nt hits enc tot loc main cap c = Inr (n, c')"
  shows "co_keeps ex c c'"
  using assms count.for_managers_owned [OF assms(1)] by (auto simp: co_get_num_blocks_to_allocate_def bindE_eq_Inr)

lemma co_allocate_computed_keeps:
  assumes own: "co_owns ex c" and hits: "hits_ok c hits"
    and run: "co_allocate_new_computed_blocks rid hits loc ext c = Inr c'"
  shows "co_keeps ex c c'"
proof (cases "\<exists>m \<in> set (co_managers c). st_num_cached_block m rid \<noteq> None")
  case True
  then show ?thesis using run own by (auto simp: co_allocate_new_computed_blocks_def co_keeps_refl split: if_split_asm)
next
  case False
  then obtain c1 where a: "for_managers (add_local_step rid hits loc ext) () c = Inr ((), c1)"
    and r: "(if ext > 0 then bindE (for_managers (external_step rid loc ext) () c1) (\<lambda>(_, c2). Inr c2) else Inr c1) = Inr c'"
    using run by (auto simp: co_allocate_new_computed_blocks_def bindE_eq_Inr)
  have A: "co_keeps ex c c1" using add_local.for_managers_owned [OF own _ a] hits by (simp add: hits_ok_def)
  show ?thesis
  proof (cases "ext > 0")
    case True
    then obtain u where "for_managers (external_step rid loc ext) () c1 = Inr (u, c')" using r by (auto simp: bindE_eq_Inr)
    from external.for_managers_owned [OF co_keepsD(1) [OF A] _ this] co_keeps_trans [OF A] show ?thesis by simp
  qed (use r A in simp)
qed

lemma co_allocate_new_keeps:
  assumes "co_owns ex c" and "0 \<le> main" and "co_allocate_new_blocks rid nt main enc c = Inr (bs, c')"
  shows "co_keeps ex c c'"
  using assms allocate_new.for_managers_owned by (auto simp: co_allocate_new_blocks_def)

lemma co_cache_keeps:
  assumes "co_owns ex c" and "co_cache_blocks dg r n c = Inr (r', c')"
  shows "co_keeps ex c c'"
  using assms cache.for_managers_owned by (auto simp: co_cache_blocks_def)

lemma co_remove_skipped_keeps:
  assumes "co_owns ex c" and "co_remove_skipped_blocks rid n prompt c = Inr c'"
  shows "co_keeps ex c c'"
  using assms remove_skipped.for_managers_owned [OF assms(1)] by (auto simp: co_remove_skipped_blocks_def bindE_eq_Inr)

lemma co_common_prefix_keeps:
  assumes "co_owns ex c" and "co_get_num_common_prefix_blocks rid c = Inr (ns, c')"
  shows "co_keeps ex c c'"
  using assms common_prefix.for_managers_owned [OF assms(1)]
  by (auto simp: co_get_num_common_prefix_blocks_def co_keeps_refl split: if_split_asm)

text \<open>Freeing a request never raises and empties its block lists.\<close>

lemma co_free_keeps:
  assumes own: "co_owns ex c"
  shows "\<exists>c'. co_free rid c = Inr c' \<and> co_keeps ex c c'"
proof -
  have "\<exists>t. foldE (on_manager (free_step rid)) [0..<length (co_managers c)] ((), c) = Inr t \<and> (case t of (_, c') \<Rightarrow> co_keeps ex c c')"
  proof (rule foldE_total)
    show "case ((), c) of (_, c') \<Rightarrow> co_keeps ex c c'" using own by (simp add: co_keeps_refl)
    fix i and t :: "unit \<times> coordinator"
    assume i: "i \<in> set [0..<length (co_managers c)]" and t: "case t of (_, c') \<Rightarrow> co_keeps ex c c'"
    obtain u c1 where tt: "t = (u, c1)" by (cases t)
    have k: "co_keeps ex c c1" using t tt by simp
    have i1: "i < length (co_managers c1)" using i co_same_simps(3) [OF co_keepsD(2) [OF k]] by simp
    from mgr_free_owned [OF co_owns_manager [OF co_keepsD(1) [OF k] i1]] obtain p' m' where
      "mgr_free rid (co_block_pools c1 ! pool_index c1 i) (co_managers c1 ! i) = Inr (p', m')" by blast
    then have st: "on_manager (free_step rid) i t = Inr (u, put_manager i p' m' c1)" by (simp add: on_manager_def free_step_def tt)
    from free.on_manager_owned [OF co_keepsD(1) [OF k] i1] st tt have "co_keeps ex c1 (put_manager i p' m' c1)" by simp
    then show "\<exists>t'. on_manager (free_step rid) i t = Inr t' \<and> (case t' of (_, c') \<Rightarrow> co_keeps ex c c')"
      using st co_keeps_trans [OF k] by auto
  qed
  then show ?thesis by (auto simp: co_free_def for_managers_def)
qed

text \<open>A step that takes nothing from the pool and passes references to the caller, such as popping the blocks of a request.\<close>

abbreviation pocc :: "pool_block list \<Rightarrow> nat \<Rightarrow> nat \<Rightarrow> int" where
  "pocc refs k b \<equiv> int (count_list refs (k, b))"

lemma pocc_map: "pocc (map (Pair k) bs) k' b = (if k' = k then occ bs b else 0)"
  by (induction bs) auto

lemma for_managers_pass:
  fixes refs :: "'s \<Rightarrow> pool_block list"
  assumes own: "co_owns ex c" and init: "refs s = []"
    and step: "\<And>ex' p m i s. owns ex' p m \<Longrightarrow> i < length (co_managers c) \<Longrightarrow> \<exists>bs s' m'. step i s p m = Inr (s', p, m') \<and>
      owns (\<lambda>b. ex' b + occ bs b) p m' \<and> st_config m' = st_config m \<and> refs s' = refs s @ map (Pair (pool_index c i)) bs"
  shows "\<exists>s' c'. for_managers step s c = Inr (s', c') \<and> co_owns (\<lambda>k b. ex k b + pocc (refs s') k b) c' \<and> co_same c c'"
proof -
  let ?P = "\<lambda>t. case t of (s, c') \<Rightarrow> co_owns (\<lambda>k b. ex k b + pocc (refs s) k b) c' \<and> co_same c c'"
  have "\<exists>t. foldE (on_manager step) [0..<length (co_managers c)] (s, c) = Inr t \<and> ?P t"
  proof (rule foldE_total)
    show "?P (s, c)" using own init by simp
    fix i t assume i: "i \<in> set [0..<length (co_managers c)]" and t: "?P t"
    obtain s1 c1 where tt: "t = (s1, c1)" by force
    let ?ex = "\<lambda>k b. ex k b + pocc (refs s1) k b"
    have k: "co_owns ?ex c1" "co_same c c1" using t tt by simp_all
    note S = co_same_simps [OF k(2)]
    have i1: "i < length (co_managers c1)" using i S(3) by simp
    obtain bs s2 m' where st: "step i s1 (co_block_pools c1 ! pool_index c1 i) (co_managers c1 ! i) = Inr (s2, co_block_pools c1 ! pool_index c1 i, m')"
      and P: "owns (\<lambda>b. ex_of ?ex c1 i b + occ bs b) (co_block_pools c1 ! pool_index c1 i) m'" "st_config m' = st_config (co_managers c1 ! i)"
      and refs: "refs s2 = refs s1 @ map (Pair (pool_index c i)) bs"
      using step [OF co_owns_manager [OF k(1) i1], of i s1] i by auto
    let ?c = "put_manager i (co_block_pools c1 ! pool_index c1 i) m' c1"
    have "co_owns (\<lambda>k b. ?ex k b + (if k = pool_index c1 i then occ bs b else 0)) ?c"
      by (rule co_owns_put_ex [OF k(1) i1 P(1) pool_same_refl]) simp
    moreover have "(\<lambda>k b. ?ex k b + (if k = pool_index c1 i then occ bs b else 0)) = (\<lambda>k b. ex k b + pocc (refs s2) k b)"
      using S(1) by (intro ext) (simp add: pocc_map refs)
    moreover have "on_manager step i t = Inr (s2, ?c)" by (simp add: on_manager_def tt st)
    ultimately show "\<exists>t'. on_manager step i t = Inr t' \<and> ?P t'"
      using co_same_trans [OF k(2) co_same_put [OF i1 pool_same_refl P(2)]] by simp
  qed
  then show ?thesis by (auto simp: for_managers_def)
qed

lemma co_pop_owned:
  assumes own: "co_owns ex c"
  shows "\<exists>refs c'. co_pop_blocks_for_free rid c = Inr (refs, c') \<and> co_owns (\<lambda>k b. ex k b + pocc refs k b) c' \<and> co_same c c'"
  unfolding co_pop_blocks_for_free_def
proof (rule for_managers_pass [OF own, of "\<lambda>refs. refs"])
  fix ex' p m i s assume m: "owns ex' p m"
  obtain bs m' where pop: "mgr_pop_blocks_for_free rid m = (bs, m')" by force
  note P = mgr_pop_owned [OF m pop]
  show "\<exists>bs s' m'. pop_step c rid i s p m = Inr (s', p, m') \<and> owns (\<lambda>b. ex' b + occ bs b) p m' \<and> st_config m' = st_config m \<and>
      s' = s @ map (Pair (pool_index c i)) bs"
    using P(1,2) by (intro exI [of _ bs]) (simp add: pop_step_def pop)
qed simp

lemma co_new_step_keeps:
  assumes own: "co_owns ex c"
  shows "co_keeps ex c (co_new_step_starts c)"
proof -
  have st: "st_claims (mgr_new_step_starts m) = st_claims m" "st_config (mgr_new_step_starts m) = st_config m"
    "mgr_ok p m \<Longrightarrow> mgr_ok p (mgr_new_step_starts m)" for p m
    by (simp_all add: mgr_new_step_starts_def mamba_new_step_starts_def mgr_ok_def)
  have "held (co_new_step_starts c) k b = held c k b" for k b
    by (simp add: held_def co_new_step_starts_def st cong: conj_cong)
  then show ?thesis using own st by (auto simp: co_keeps_def co_owns_def co_same_def co_new_step_starts_def)
qed

subsection \<open>The initial state\<close>

definition cfg_ok :: "kv_cache_config \<Rightarrow> bool" where
  "cfg_ok cfg \<longleftrightarrow> (\<forall>g \<in> set (cfg_groups cfg). 0 < spec_block_size (group_spec g) \<and>
     (\<forall>mode n k. spec_kind (group_spec g) = MambaSpec mode n k \<longrightarrow> 0 \<le> n))"

lemma mapE_nth:
  assumes "mapE f xs = Inr ys"
  shows "length ys = length xs" and "i < length xs \<Longrightarrow> f (xs ! i) = Inr (ys ! i)"
  using assms
proof (induction xs arbitrary: ys i)
  case (Cons x xs)
  { case 1 then show ?case using Cons.IH(1) by (auto simp: bindE_eq_Inr) }
  { case 2
    then obtain y zs where z: "f x = Inr y" "mapE f xs = Inr zs" "ys = y # zs" by (auto simp: bindE_eq_Inr)
    then show ?case using Cons.IH(2) [OF _ z(2)] 2 by (cases i) simp_all }
qed auto

lemma pool_index_bound: "g \<in> set gs \<Longrightarrow> group_pool_id g \<le> foldr max (map group_pool_id gs) 0"
  by (induction gs) auto

lemma co_owns_cong:
  assumes "co_owns ex c" and "co_config c' = co_config c" and "co_block_pools c' = co_block_pools c"
    and "length (co_managers c') = length (co_managers c)"
    and "\<And>i. i < length (co_managers c) \<Longrightarrow> st_claims (co_managers c' ! i) = st_claims (co_managers c ! i) \<and>
      (\<forall>p. mgr_ok p (co_managers c ! i) \<longrightarrow> mgr_ok p (co_managers c' ! i))"
  shows "co_owns ex c'"
proof -
  have "held c' k b = held c k b" for k b unfolding held_def using assms(2,4,5) by (intro sum.cong) auto
  then show ?thesis using assms by (auto simp: co_owns_def)
qed

lemma mgr_ok_fields [simp]:
  "mgr_ok p (m\<lparr>st_use_eagle := a\<rparr>) = mgr_ok p m" "mgr_ok p (m\<lparr>st_cache_hit_alignment_tokens := n\<rparr>) = mgr_ok p m"
  "st_claims (m\<lparr>st_use_eagle := a\<rparr>) = st_claims m" "st_claims (m\<lparr>st_cache_hit_alignment_tokens := n\<rparr>) = st_claims m"
  by (simp_all add: mgr_ok_def st_claims_def st_ok_def num_speculative_blocks_def mamba_cache_mode_def req_blocks_def)

lemma coordinator_init_owns:
  assumes ok: "cfg_ok cfg"
    and run: "coordinator_init kind cfg mml mif eagle caching events use_int dcp pcp sbs hbs npl = Inr c"
  shows "co_owns (\<lambda>_ _. 0) c \<and> co_config c = cfg \<and> co_kind c = kind"
proof -
  obtain pools ms where P: "mapE (\<lambda>pid. block_pool_init (cfg_num_blocks cfg) caching hbs events (int pid) use_int) [0..<num_pools cfg] = Inr pools"
    and M: "mapE (make_manager cfg mml mif caching dcp pcp sbs pools) (enumerate 0 (cfg_groups cfg)) = Inr ms"
    and c: "co_block_pools c = pools" "co_managers c = ms" "co_config c = cfg" "co_kind c = kind"
    using run by (auto simp: coordinator_init_def Let_def bindE_eq_Inr split: if_split_asm)
  note Pn = mapE_nth [OF P] and Mn = mapE_nth [OF M]
  have pool: "\<exists>xs. pool_rep (pools ! k) xs \<and> (\<forall>b. 0 < b \<and> b < num_gpu_blocks (pools ! k) \<longrightarrow> ref_cnt (blk (pools ! k) b) = 0)"
    if "k < num_pools cfg" for k
  proof -
    have b: "block_pool_init (cfg_num_blocks cfg) caching hbs events (int k) use_int = Inr (pools ! k)" using Pn(2) [of k] that by simp
    then have "0 < cfg_num_blocks cfg" by (auto simp: block_pool_init_def split: if_split_asm)
    from block_pool_init_spec [OF this, of caching hbs events "int k" use_int] b show ?thesis by auto
  qed
  have idx: "group_pool_id (cfg_groups cfg ! i) < num_pools cfg" if "i < length (cfg_groups cfg)" for i
    using pool_index_bound [of "cfg_groups cfg ! i" "cfg_groups cfg"] that by (simp add: num_pools_def)
  have m: "owns (\<lambda>_. 0) (pools ! group_pool_id (cfg_groups cfg ! i)) (ms ! i) \<and> st_claims (ms ! i) = []"
    if i: "i < length (cfg_groups cfg)" for i
  proof -
    let ?g = "cfg_groups cfg ! i"
    obtain xs where xs: "pool_rep (pools ! group_pool_id ?g) xs"
      "\<forall>b. 0 < b \<and> b < num_gpu_blocks (pools ! group_pool_id ?g) \<longrightarrow> ref_cnt (blk (pools ! group_pool_id ?g) b) = 0"
      using pool [OF idx [OF i]] by blast
    have "make_manager cfg mml mif caching dcp pcp sbs pools (i, ?g) = Inr (ms ! i)" using Mn(2) [of i] i by (simp add: nth_enumerate_eq)
    then have g: "get_manager_for_kv_cache_spec (group_spec ?g) mif mml (pools ! group_pool_id ?g) caching (int i)
        (dcp_world_size_for_kv_cache_spec (group_spec ?g) dcp) pcp sbs (needs_kv_cache_zeroing cfg) = Inr (ms ! i)"
      by (simp add: make_manager_def)
    have gi: "?g \<in> set (cfg_groups cfg)" using i by simp
    have bs: "0 < spec_block_size (group_spec ?g)" "\<And>mode n k. spec_kind (group_spec ?g) = MambaSpec mode n k \<Longrightarrow> 0 \<le> n"
      using ok gi unfolding cfg_ok_def by blast+
    show ?thesis
      using st_init_owns(1,3) [OF xs(1) _ _ g bs, of "\<lambda>_. 0"] xs(2) by auto
  qed
  have len: "length ms = length (cfg_groups cfg)" "length pools = num_pools cfg" using Mn(1) Pn(1) by simp_all
  have "held c k b = 0" for k b unfolding held_def using m len c by (intro sum.neutral) auto
  then show ?thesis using pool idx m len by (auto simp: co_owns_def c owns_iff)
qed

lemma set_use_eagle_fields:
  "length (set_use_eagle gs ms) = length ms"
  "i < length ms \<Longrightarrow> \<exists>u. set_use_eagle gs ms ! i = (ms ! i)\<lparr>st_use_eagle := u\<rparr>"
proof -
  have "length (fold (\<lambda>i ms. ms[i := (ms ! i)\<lparr>st_use_eagle := True\<rparr>]) js ms) = length ms \<and>
    (i < length ms \<longrightarrow> (\<exists>u. fold (\<lambda>i ms. ms[i := (ms ! i)\<lparr>st_use_eagle := True\<rparr>]) js ms ! i = (ms ! i)\<lparr>st_use_eagle := u\<rparr>))" for js
  proof (induction js arbitrary: ms)
    case Nil
    show ?case by (auto intro!: exI [of _ "st_use_eagle (ms ! i)"])
  next
    case (Cons j js)
    show ?case using Cons [of "ms[j := (ms ! j)\<lparr>st_use_eagle := True\<rparr>]"] by (cases "i = j") auto
  qed
  then show "length (set_use_eagle gs ms) = length ms" "i < length ms \<Longrightarrow> \<exists>u. set_use_eagle gs ms ! i = (ms ! i)\<lparr>st_use_eagle := u\<rparr>"
    by (auto simp: set_use_eagle_def)
qed

lemma unitary_init_owns:
  assumes "co_owns ex c" and "unitary_init c = Inr c'"
  shows "co_owns ex c'" "co_config c' = co_config c" "co_kind c' = co_kind c"
proof -
  obtain m ms where m: "co_managers c = m # ms" and c': "c' = c\<lparr>co_managers := (co_managers c)[0 := m\<lparr>st_use_eagle := (0 \<in> set (co_eagle_group_ids c))\<rparr>]\<rparr>"
    using assms(2) by (auto simp: unitary_init_def split: list.split_asm if_split_asm)
  show "co_owns ex c'"
    by (rule co_owns_cong [OF assms(1)]) (auto simp: c' m nth_Cons')
  show "co_config c' = co_config c" "co_kind c' = co_kind c" by (simp_all add: c')
qed

lemma hybrid_init_owns:
  assumes own: "co_owns ex c" and run: "hybrid_init dcp pcp c = Inr c'"
  shows "co_owns ex c'" "co_config c' = co_config c" "co_kind c' = co_kind c"
proof -
  obtain b where v: "verify_and_split_kv_cache_groups (settle_alignment b c) = Inr c'"
    using run by (auto simp: hybrid_init_def Let_def split: if_split_asm)
  define c1 where "c1 = settle_alignment b c"
  have c1: "co_config c1 = co_config c" "co_block_pools c1 = co_block_pools c" "co_kind c1 = co_kind c"
    "\<exists>n. co_managers c1 = map (\<lambda>m. m\<lparr>st_cache_hit_alignment_tokens := n\<rparr>) (co_managers c)"
    by (auto simp: c1_def settle_alignment_def Let_def)
  note v = v [folded c1_def]
  have own1: "co_owns ex c1" using c1 by (intro co_owns_cong [OF own]) auto
  obtain gs where c': "co_config c' = co_config c1" "co_kind c' = co_kind c1" "co_block_pools c' = co_block_pools c1"
    "co_managers c' = set_use_eagle gs (co_managers c1)"
    using v by (auto simp: verify_and_split_kv_cache_groups_def Let_def split: list.split_asm)
  show "co_owns ex c'"
  proof (rule co_owns_cong [OF own1 c'(1,3)])
    show "length (co_managers c') = length (co_managers c1)" by (simp add: c' set_use_eagle_fields)
    fix i assume "i < length (co_managers c1)"
    then show "st_claims (co_managers c' ! i) = st_claims (co_managers c1 ! i) \<and>
      (\<forall>p. mgr_ok p (co_managers c1 ! i) \<longrightarrow> mgr_ok p (co_managers c' ! i))"
      using set_use_eagle_fields(2) [of i "co_managers c1" gs] by (auto simp: c')
  qed
  show "co_config c' = co_config c" "co_kind c' = co_kind c" by (simp_all add: c' c1)
qed

lemma get_kv_cache_coordinator_owns:
  assumes "cfg_ok cfg" and "get_kv_cache_coordinator cfg mml mif eagle caching events use_int dcp pcp sbs hbs npl = Inr c"
  shows "co_owns (\<lambda>_ _. 0) c \<and> co_config c = cfg"
proof -
  consider kind cc where "coordinator_init kind cfg mml mif eagle cc events use_int dcp pcp sbs hbs npl = Inr c"
    | kind c1 where "coordinator_init kind cfg mml mif eagle caching events use_int dcp pcp sbs hbs npl = Inr c1"
        "unitary_init c1 = Inr c \<or> hybrid_init dcp pcp c1 = Inr c"
    using assms(2) by (auto simp: get_kv_cache_coordinator_def bindE_eq_Inr split: if_split_asm)
  then show ?thesis
  proof cases
    case 1
    then show ?thesis using coordinator_init_owns [OF assms(1)] by blast
  next
    case 2
    then show ?thesis using coordinator_init_owns [OF assms(1) 2(1)] unitary_init_owns hybrid_init_owns by metis
  qed
qed

end
