(* ===== verification/Lookup.thy ===== *)
theory Lookup
  imports Coordinator
begin

text \<open>
  What the prefix-cache lookup of the coordinator returns. A lookup of one group stays within its limit and names
  blocks of the pool only; the loop that reconciles the groups ends, because every further round starts from a shorter
  candidate, and at the end every group has a hit that reaches exactly the returned length.
\<close>

section \<open>One group\<close>

definition cols_in :: "block_pool \<Rightarrow> int list \<Rightarrow> nat list list \<Rightarrow> nat \<Rightarrow> bool" where
  "cols_in p gids cols n \<longleftrightarrow> cols_len gids cols n \<and> (\<forall>c \<in> set cols. \<forall>b \<in> set c. b < num_gpu_blocks p)"

lemma cols_in_len: "cols_in p gids cols n \<Longrightarrow> cols_len gids cols n"
  by (simp add: cols_in_def)

lemma cols_in_replicate: "b < num_gpu_blocks p \<Longrightarrow> cols_in p gids (replicate (length gids) (replicate n b)) n"
  by (auto simp: cols_in_def cols_len_def)

lemma cols_in_empty: "cols_in p gids (replicate (length gids) []) 0"
  by (auto simp: cols_in_def cols_len_def)

lemma found_row_in:
  assumes "hash_ok p" and "get_cached_block p h gids = Inr c" and "found_row c = Some row"
  shows "length row = length gids \<and> (\<forall>b \<in> set row. b < num_gpu_blocks p)"
proof -
  note F = found_row_cached [OF assms]
  have "row ! j < num_gpu_blocks p" if "j < length gids" for j using F(2) [OF that] by (auto simp: cached_as_def)
  then show ?thesis using F(1) by (auto simp: in_set_conv_nth)
qed

lemma append_row_in:
  assumes "cols_in p gids cols n" and "length row = length gids \<and> (\<forall>b \<in> set row. b < num_gpu_blocks p)"
  shows "cols_in p gids (append_row cols row) (Suc n)"
  using assms append_row_len [of gids cols n row]
  by (auto simp: cols_in_def append_row_def dest: set_zip_leftD set_zip_rightD)

lemma set_row_in:
  assumes "cols_in p gids cols n" and "length row = length gids \<and> (\<forall>b \<in> set row. b < num_gpu_blocks p)"
  shows "cols_in p gids (set_row i cols row) n"
  using assms set_row_len [of gids cols n row i]
  by (fastforce simp: cols_in_def set_row_def dest: set_zip_leftD set_zip_rightD set_update_subset_insert [THEN subsetD])

lemma take_in: "cols_in p gids cols n \<Longrightarrow> cols_in p gids (map (take k) cols) (min n k)"
  by (auto simp: cols_in_def cols_len_def dest: in_set_takeD)

lemma full_scan_in:
  assumes "hash_ok p" and "cols_in p gids cols k" and "full_scan p gids bhl is cols = Inr cols'"
  shows "\<exists>m \<le> length is. cols_in p gids cols' (k + m)"
  using assms(2,3)
proof (induction "is" arbitrary: cols k)
  case (Cons i "is")
  then obtain h c where h: "bhl_get bhl (int i) = Inr h" "get_cached_block p h gids = Inr c" by (auto simp: result_simps)
  show ?case
  proof (cases "found_row c")
    case None
    then show ?thesis using Cons.prems h by (intro exI [of _ 0]) simp
  next
    case (Some row)
    from Cons.IH [OF append_row_in [OF Cons.prems(1) found_row_in [OF assms(1) h(2) Some]]] Cons.prems(2) h Some
    obtain m where "m \<le> length is" "cols_in p gids cols' (Suc k + m)" by auto
    then show ?thesis by (intro exI [of _ "Suc m"]) simp
  qed
qed (auto intro: exI [of _ 0])

lemma swa_scan_in:
  assumes "hash_ok p" and "cols_in p gids cols mx" and "i + nc \<le> mx"
    and "swa_scan p gids bhl bs a eagle need i cols nc = Inr (cols', nc', found)"
  shows "\<exists>n \<le> mx. cols_in p gids cols' n"
  using assms(2-4)
proof (induction i arbitrary: cols nc)
  case (Suc i)
  obtain h c where h: "bhl_get bhl (int i) = Inr h" "get_cached_block p h gids = Inr c"
    using Suc.prems(3) by (auto simp: result_simps)
  show ?case
  proof (cases "found_row c")
    case None
    then show ?thesis using Suc.IH [OF Suc.prems(1), of 0] Suc.prems(2,3) h by simp
  next
    case (Some row)
    note S = set_row_in [OF Suc.prems(1) found_row_in [OF assms(1) h(2) Some], of i]
    consider "nc = 0 \<and> bs \<noteq> a \<and> ((if eagle then int i else int i + 1) * bs) mod a \<noteq> 0"
      | "cols' = map (take (i + Suc nc)) (set_row i cols row)"
      | "swa_scan p gids bhl bs a eagle need i (set_row i cols row) (Suc nc) = Inr (cols', nc', found)"
      using Suc.prems(3) h Some by (auto simp: Let_def split: if_split_asm)
    then show ?thesis
    proof cases
      case 1
      then show ?thesis using Suc.IH [OF Suc.prems(1), of nc] Suc.prems(2,3) h Some by simp
    next
      case 2
      then show ?thesis using take_in [OF S, of "i + Suc nc"] by (metis min.cobounded1)
    next
      case 3
      then show ?thesis using Suc.IH [OF S, of "Suc nc"] Suc.prems(2) by simp
    qed
  qed
qed auto

lemma mamba_fine_scan_in:
  assumes "hash_ok p" and "null_block p < num_gpu_blocks p" and "0 < hs"
    and "mamba_fine_scan p gids hashes sf hs k = Inr (cols, n)"
  shows "(\<exists>l. cols_in p gids cols l) \<and> 0 \<le> n \<and> n \<le> int k * hs"
  using assms(4)
proof (induction k)
  case 0
  then show ?case using cols_in_empty by auto
next
  case (Suc k)
  obtain h c where h: "py_index hashes (int k) = Inr h" "get_cached_block p h gids = Inr c"
    using Suc.prems by (auto simp: result_simps)
  have mono: "int k * hs \<le> int (Suc k) * hs" using assms(3) by (simp add: distrib_right)
  show ?case
  proof (cases "found_row c")
    case None
    then have "mamba_fine_scan p gids hashes sf hs k = Inr (cols, n)" using Suc.prems h by simp
    then show ?thesis using Suc.IH mono by auto
  next
    case (Some row)
    note R = append_row_in [OF cols_in_replicate [OF assms(2)] found_row_in [OF assms(1) h(2) Some]]
    show ?thesis using Suc.prems h Some R assms(3) by (auto simp: algebra_simps)
  qed
qed

lemma mamba_scan_in:
  assumes "hash_ok p" and "null_block p < num_gpu_blocks p" and "0 < bs"
    and "mamba_scan p gids bhl bs a k = Inr (cols, n)"
  shows "(\<exists>l. cols_in p gids cols l) \<and> 0 \<le> n \<and> n \<le> int k * bs"
  using assms(4)
proof (induction k)
  case 0
  then show ?case using cols_in_empty by auto
next
  case (Suc k)
  obtain h c where h: "bhl_get bhl (int k) = Inr h" "get_cached_block p h gids = Inr c"
    using Suc.prems by (auto simp: result_simps)
  have mono: "int k * bs \<le> int (Suc k) * bs" using assms(3) by (simp add: distrib_right)
  show ?case
  proof (cases "mamba_scan p gids bhl bs a k = Inr (cols, n)")
    case True
    then show ?thesis using Suc.IH mono by auto
  next
    case False
    then obtain row where Some: "found_row c = Some row"
      and r: "cols = append_row (replicate (length gids) (replicate k (null_block p))) row" "n = (int k + 1) * bs"
      using Suc.prems h by (auto split: option.split_asm if_split_asm)
    note R = append_row_in [OF cols_in_replicate [OF assms(2)] found_row_in [OF assms(1) h(2) Some]]
    show ?thesis using r R assms(3) by (auto simp: algebra_simps)
  qed
qed

lemma fine_probe_bound:
  assumes "hash_ok p" and "fine_probe p gids hs first k = Inr (Some (i, row))"
  shows "first \<le> i \<and> i < first + int k \<and> length row = length gids \<and> (\<forall>b \<in> set row. b < num_gpu_blocks p)"
  using assms(2)
proof (induction k)
  case (Suc k)
  obtain h c where h: "py_index hs (first + int k) = Inr h" "get_cached_block p h gids = Inr c"
    using Suc.prems by (auto simp: result_simps)
  then show ?case using Suc found_row_in [OF assms(1) h(2)] by (cases "found_row c") auto
qed simp


definition effective_block_size :: "kv_spec \<Rightarrow> int \<Rightarrow> int" where
  "effective_block_size sp dcp = (if dcp > 1 then spec_block_size sp * dcp else spec_block_size sp)"

lemma int_div_mult_le: "0 < (b :: int) \<Longrightarrow> k \<le> a div b \<Longrightarrow> k * b \<le> a"
proof -
  assume b: "0 < b" and k: "k \<le> a div b"
  have "k * b \<le> a div b * b" using b k by (simp add: mult_right_mono)
  also have "\<dots> \<le> a" using b by (simp add: minus_mod_eq_div_mult [symmetric])
  finally show ?thesis .
qed

lemma le_nat_mult: "0 < (b :: int) \<Longrightarrow> c \<le> b \<Longrightarrow> int m * b = 0 \<or> c \<le> int m * b"
  by (cases m) (auto simp: distrib_right add_increasing2)

text \<open>The run of full blocks with the fine-grained tail, before the EAGLE eagle.\<close>

lemma full_fine_tail_spec:
  assumes ok: "hash_ok p" and pos: "0 < bs" "0 < a" and cols: "cols_in p gids cols m" "int m * bs \<le> lim" and fine: "a < bs"
    and run: "full_fine_tail p gids hs bs a lim m cols = Inr (cols', hit)"
  shows "(\<exists>l. cols_in p gids cols' l) \<and> 0 \<le> hit \<and> hit \<le> lim \<and> (hit = 0 \<or> a \<le> hit)"
proof -
  let ?first = "int m * (bs div a)" and ?mx = "min (int m * (bs div a) + bs div a - 1) (min (lim div a) (int (length hs)))"
  have f0: "0 \<le> ?first" using pos by (simp add: pos_imp_zdiv_nonneg_iff)
  obtain r where r: "fine_probe p gids hs ?first (nat (?mx - ?first)) = Inr r"
    and res: "(case r of None \<Rightarrow> Inr (cols, int m * bs) | Some (i, row) \<Rightarrow> Inr (append_row cols row, (i + 1) * a)) = (Inr (cols', hit) :: (nat list list \<times> int) result)"
    using run by (auto simp: full_fine_tail_def Let_def bindE_eq_Inr)
  show ?thesis
  proof (cases r)
    case None
    then show ?thesis using res cols le_nat_mult [OF pos(1) less_imp_le [OF fine], of m] pos by auto
  next
    case (Some x)
    then obtain i row where x: "r = Some (i, row)" by (cases x) auto
    have hit: "cols' = append_row cols row" "hit = (i + 1) * a" using res x by auto
    note P = fine_probe_bound [OF ok r [unfolded x]]
    have "i < ?mx" using P by linarith
    then have "i + 1 \<le> lim div a" by linarith
    then have "hit \<le> lim" using int_div_mult_le [OF pos(2)] hit by simp
    moreover have "a \<le> hit" using P f0 pos(2) hit by (simp add: distrib_right mult_le_cancel_right1)
    ultimately show ?thesis using append_row_in [OF cols(1), of row] P hit pos(2) by auto
  qed
qed

lemma full_find_spec:
  assumes ok: "hash_ok p" and pos: "0 < effective_block_size sp dcp" "0 < a" and lim: "0 \<le> lim"
    and run: "full_find_longest_cache_hit p sp hashes lim gids eagle a dcp = Inr (cols, n)"
  shows "(\<exists>l. cols_in p gids cols l) \<and> 0 \<le> n \<and> n \<le> lim \<and> (eagle \<longrightarrow> n = 0 \<or> n \<le> lim - min a (effective_block_size sp dcp))"
proof -
  define bs where "bs = effective_block_size sp dcp"
  have bs: "0 < bs" "(if dcp > 1 then spec_block_size sp * dcp else spec_block_size sp) = bs"
    using pos by (simp_all add: bs_def effective_block_size_def)
  let ?fine = "a < bs \<and> bs mod a = 0"
  have nn: "\<not> lim div bs < 0" using lim bs(1) by (simp add: pos_imp_zdiv_nonneg_iff not_less)
  obtain bhl full cols0 m cols1 hit where
    scan: "full_scan p gids full [0..<nat (min (lim div bs) (bhl_len full))] (replicate (length gids) []) = Inr cols0"
    and fl: "first_len cols0 = Inr m"
    and tail: "(if ?fine then (case bhl of Raw hs \<Rightarrow> full_fine_tail p gids hs bs a lim m cols0 | View _ _ \<Rightarrow> Inl AssertionError)
                else Inr (cols0, int m * bs)) = Inr (cols1, hit)"
    and res: "(let h1 = (if eagle \<and> hit > 0 then hit - min a bs else hit); h2 = h1 - h1 mod a
               in (map (take (nat (cdiv h2 bs))) cols1, h2)) = (cols, n)"
    using run nn by (fastforce simp: full_find_longest_cache_hit_def Let_def bindE_eq_Inr bs(2) simp del: if_split)
  obtain m' where m': "m' \<le> nat (min (lim div bs) (bhl_len full))" "cols_in p gids cols0 m'"
    using full_scan_in [OF ok cols_in_empty scan] by auto
  have m: "m = m'" using first_len_cols [OF fl cols_in_len [OF m'(2)]] by simp
  have mlim: "int m * bs \<le> lim" using m m'(1) nn by (intro int_div_mult_le [OF bs(1)]) auto
  have hit: "(\<exists>l. cols_in p gids cols1 l) \<and> 0 \<le> hit \<and> hit \<le> lim \<and> (hit = 0 \<or> min a bs \<le> hit)"
  proof (cases ?fine)
    case True
    then obtain hs where "bhl = Raw hs" using tail by (cases bhl) auto
    then show ?thesis using full_fine_tail_spec [OF ok bs(1) pos(2) m'(2) [folded m] mlim] tail True by auto
  next
    case False
    then have "hit = int m * bs" "cols1 = cols0" using tail by (auto split: if_split_asm)
    then show ?thesis using m'(2) m mlim bs(1) le_nat_mult [OF bs(1) min.cobounded2, of m a] by auto
  qed
  define h1 where "h1 = (if eagle \<and> hit > 0 then hit - min a bs else hit)"
  have h1: "0 \<le> h1" "h1 \<le> lim" "eagle \<longrightarrow> h1 = 0 \<or> h1 \<le> lim - min a bs" using hit bs(1) pos(2) by (auto simp: h1_def)
  have n: "n = h1 - h1 mod a" and cols: "cols = map (take (nat (cdiv n bs))) cols1" using res by (auto simp: h1_def Let_def)
  have "0 \<le> h1 mod a" "h1 mod a \<le> h1" using h1(1) pos(2) by (simp_all add: zmod_le_nonneg_dividend)
  then have "0 \<le> n" "n \<le> h1" using n by linarith+
  then show ?thesis using h1 hit take_in cols unfolding bs_def [symmetric] by (auto; force)
qed


lemma swa_find_spec:
  assumes ok: "hash_ok p" "null_block p < num_gpu_blocks p" and pos: "0 < spec_block_size sp" and lim: "0 \<le> lim"
    and run: "swa_find_longest_cache_hit p sp window hashes lim gids eagle a dcp pcp = Inr (cols, n)"
  shows "(\<exists>l. cols_in p gids cols l) \<and> 0 \<le> n \<and> n \<le> lim \<and> (eagle \<longrightarrow> n = 0 \<or> n \<le> lim - spec_block_size sp)"
proof -
  let ?bs = "spec_block_size sp" and ?mx = "nat (lim div spec_block_size sp)"
  have g: "dcp = 1" "pcp = 1" "a mod ?bs = 0"
    using run by (auto simp: swa_find_longest_cache_hit_def split: if_split_asm)
  obtain bhl cols0 nc found l where
    scan: "swa_scan p gids bhl ?bs a eagle (contiguous_blocks_for_hit window ?bs eagle) ?mx
       (replicate (length gids) (replicate ?mx (null_block p))) 0 = Inr (cols0, nc, found)"
    and fl: "first_len (if found then cols0 else map (take (pop_until_aligned ?bs a nc)) cols0) = Inr l"
    and res0: "cols = map (take (if eagle \<and> l > 0 then pop_until_aligned ?bs a (l - 1) else l))
        (if found then cols0 else map (take (pop_until_aligned ?bs a nc)) cols0)"
      "n = int (if eagle \<and> l > 0 then pop_until_aligned ?bs a (l - 1) else l) * ?bs"
    using run g by (fastforce simp: swa_find_longest_cache_hit_def Let_def bindE_eq_Inr simp del: if_split)
  define n2 where "n2 = (if eagle \<and> l > 0 then pop_until_aligned ?bs a (l - 1) else l)"
  define cols1 where "cols1 = (if found then cols0 else map (take (pop_until_aligned ?bs a nc)) cols0)"
  note res = res0 [folded n2_def cols1_def] and fl = fl [folded cols1_def] and n2 = n2_def and c1 = cols1_def
  from swa_scan_in [OF ok(1) cols_in_replicate [OF ok(2)] _ scan] obtain k where k: "k \<le> ?mx" "cols_in p gids cols0 k" by auto
  obtain k' where k': "k' \<le> k" "cols_in p gids cols1 k'" using c1 k(2) take_in [OF k(2)] by (cases found) (auto, metis min.cobounded1)
  have l: "l = k'" using first_len_cols [OF fl cols_in_len [OF k'(2)]] by simp
  have n2l: "n2 \<le> l \<and> (eagle \<longrightarrow> n2 = 0 \<or> Suc n2 \<le> l)" using n2 pop_until_aligned_spec(1) [of ?bs a "l - 1"] by (auto split: if_split_asm)
  have mx: "int ?mx = lim div ?bs" using lim pos by (simp add: pos_imp_zdiv_nonneg_iff)
  have le: "int j * ?bs \<le> lim" if "j \<le> l" for j
    using that l k(1) k'(1) mx by (intro int_div_mult_le [OF pos]) linarith
  show ?thesis using take_in [OF k'(2), of n2] res n2l le [of n2] le [of "Suc n2"] pos by (auto simp: distrib_right)
qed

lemma chunked_find_spec:
  assumes ok: "hash_ok p" "null_block p < num_gpu_blocks p" and pos: "0 < spec_block_size sp" "0 < chunk" and lim: "0 \<le> lim"
    and run: "chunked_find_longest_cache_hit p sp chunk hashes lim gids eagle a dcp pcp = Inr (cols, n)"
  shows "(\<exists>l. cols_in p gids cols l) \<and> 0 \<le> n \<and> n \<le> lim \<and> \<not> eagle"
proof -
  let ?bs = "spec_block_size sp"
  have g: "\<not> eagle" "dcp = 1" "pcp = 1" "?bs = a"
    using run by (auto simp: chunked_find_longest_cache_hit_def split: if_split_asm)
  define start where "start = (if lim > 0 then lim div chunk * chunk else 0) div ?bs"
  obtain bhl l where
    scan: "full_scan p gids bhl [nat start..<nat (lim div ?bs)] (replicate (length gids) (replicate (nat start) (null_block p))) = Inr cols"
    and fl: "first_len cols = Inr l" and res: "n = int l * ?bs" and e: "\<not> eagle"
    using run g by (fastforce simp: chunked_find_longest_cache_hit_def Let_def bindE_eq_Inr start_def simp del: if_split)
  obtain m where m: "m \<le> length [nat start..<nat (lim div ?bs)]" "cols_in p gids cols (nat start + m)"
    using full_scan_in [OF ok(1) cols_in_replicate [OF ok(2)] scan] by auto
  have l: "l = nat start + m" using first_len_cols [OF fl cols_in_len [OF m(2)]] by simp
  have "start \<le> lim div ?bs"
    unfolding start_def using lim pos by (intro zdiv_mono1) (auto intro: int_div_mult_le)
  moreover have "0 \<le> lim div ?bs" using lim pos by (simp add: pos_imp_zdiv_nonneg_iff)
  ultimately have "int l \<le> lim div ?bs" using m(1) l by auto
  then show ?thesis using int_div_mult_le [OF pos(1)] res m(2) pos e by auto
qed

lemma mamba_find_spec:
  assumes ok: "hash_ok p" "null_block p < num_gpu_blocks p" and pos: "0 < spec_block_size sp" "0 < a" and lim: "0 \<le> lim"
    and run: "mamba_find_longest_cache_hit p sp hashes lim gids a dcp pcp = Inr (cols, n)"
  shows "(\<exists>l. cols_in p gids cols l) \<and> 0 \<le> n \<and> n \<le> lim"
proof -
  let ?bs = "spec_block_size sp"
  have g: "dcp = 1" "pcp = 1" using run by (auto simp: mamba_find_longest_cache_hit_def split: if_split_asm)
  obtain bhl where b: "(if a < ?bs \<and> ?bs mod a = 0
      then (case bhl of View _ _ \<Rightarrow> Inl AssertionError
            | Raw hs \<Rightarrow> mamba_fine_scan p gids hs (?bs div a) a (nat (min (lim div a) (int (length hs)))))
      else mamba_scan p gids bhl ?bs a (nat (lim div ?bs))) = Inr (cols, n)"
    using run g by (fastforce simp: mamba_find_longest_cache_hit_def Let_def bindE_eq_Inr simp del: if_split)
  show ?thesis
  proof (cases "a < ?bs \<and> ?bs mod a = 0")
    case True
    then obtain hs where f: "mamba_fine_scan p gids hs (?bs div a) a (nat (min (lim div a) (int (length hs)))) = Inr (cols, n)"
      using b by (cases bhl) auto
    have "int (nat (min (lim div a) (int (length hs)))) * a \<le> lim"
      using lim pos(2) by (intro int_div_mult_le [OF pos(2)]) (auto simp: pos_imp_zdiv_nonneg_iff)
    then show ?thesis using mamba_fine_scan_in [OF ok pos(2) f] by auto
  next
    case False
    then have f: "mamba_scan p gids bhl ?bs a (nat (lim div ?bs)) = Inr (cols, n)" using b by (auto split: if_split_asm)
    have "int (nat (lim div ?bs)) * ?bs \<le> lim"
      using lim pos(1) by (intro int_div_mult_le [OF pos(1)]) (auto simp: pos_imp_zdiv_nonneg_iff)
    then show ?thesis using mamba_scan_in [OF ok pos(1) f] by auto
  qed
qed


text \<open>The number of tokens that the drop for EAGLE takes away at least.\<close>

definition drop_unit :: "kv_spec \<Rightarrow> int \<Rightarrow> int \<Rightarrow> int" where
  "drop_unit sp a dcp =
     (if is_full_attention (spec_kind sp) then min a (effective_block_size sp dcp) else spec_block_size sp)"

definition spec_ok :: "kv_spec \<Rightarrow> bool" where
  "spec_ok sp \<longleftrightarrow> 0 < spec_block_size sp \<and> (\<forall>chunk. spec_kind sp = ChunkedLocalAttentionSpec chunk \<longrightarrow> 0 < chunk)"

lemma find_hit_spec:
  assumes ok: "hash_ok p" "null_block p < num_gpu_blocks p" and sp: "spec_ok sp" "0 < a" and lim: "0 \<le> lim"
    and run: "find_longest_cache_hit p sp hashes lim gids eagle a dcp pcp = Inr (cols, n)"
  shows "(\<exists>l. cols_in p gids cols l) \<and> 0 \<le> n \<and> n \<le> lim \<and>
    (eagle \<and> \<not> is_mamba (spec_kind sp) \<longrightarrow> n = 0 \<or> n \<le> lim - drop_unit sp a dcp)"
proof -
  have bs: "0 < spec_block_size sp" "0 < effective_block_size sp dcp" using sp by (simp_all add: spec_ok_def effective_block_size_def)
  have chunk: "0 < chunk" if "spec_kind sp = ChunkedLocalAttentionSpec chunk" for chunk using sp that by (simp add: spec_ok_def)
  note F = full_find_spec [OF ok(1) bs(2) sp(2) lim] and S = swa_find_spec [OF ok bs(1) lim]
    and C = chunked_find_spec [OF ok bs(1) chunk lim] and M = mamba_find_spec [OF ok bs(1) sp(2) lim]
  show ?thesis
  proof (cases "\<exists>chunk. spec_kind sp = ChunkedLocalAttentionSpec chunk")
    case True
    then obtain chunk where k: "spec_kind sp = ChunkedLocalAttentionSpec chunk" by blast
    have "chunked_find_longest_cache_hit p sp chunk hashes lim gids eagle a dcp pcp = Inr (cols, n)"
      using run by (simp add: find_longest_cache_hit_def k)
    from C [OF k this] show ?thesis by simp
  next
    case False
    then show ?thesis
      using run F S M cols_in_empty [of p gids] lim
      by (cases "spec_kind sp")
        (simp_all add: find_longest_cache_hit_def is_full_attention_def is_mamba_def drop_unit_def, blast+)
  qed
qed


section \<open>One round over the groups\<close>

text \<open>
  What the construction of the coordinator guarantees to the lookup: the groups looked up together share pool, block
  size and manager class, no KV cache group is in two of them, and hits are aligned to whole blocks unless
  fine-grained hits are enabled.
\<close>

definition first_mgr :: "coordinator \<Rightarrow> spec_group \<Rightarrow> stm" where
  "first_mgr c g = co_managers c ! hd (sg_group_ids g)"

definition group_ok :: "coordinator \<Rightarrow> spec_group \<Rightarrow> bool" where
  "group_ok c g \<longleftrightarrow>
     sg_group_ids g \<noteq> [] \<and> (\<forall>i \<in> set (sg_group_ids g). i < length (co_managers c) \<and> pool_index c i = sg_pool_id g) \<and>
     spec_ok (sg_spec g) \<and>
     st_block_size (first_mgr c g) =
       (if full_group g then effective_block_size (sg_spec g) (st_dcp_world_size (first_mgr c g)) else spec_block_size (sg_spec g)) \<and>
     st_block_size (first_mgr c g) \<le> co_scheduler_block_size c"

definition lookup_ok :: "coordinator \<Rightarrow> bool" where
  "lookup_ok c \<longleftrightarrow>
     co_attention_groups c \<noteq> [] \<and> (\<forall>g \<in> set (co_attention_groups c). group_ok c g) \<and>
     distinct (concat (map sg_group_ids (co_attention_groups c))) \<and>
     0 < co_hash_block_size c \<and> 0 < co_scheduler_block_size c"

abbreviation find_group :: "coordinator \<Rightarrow> bytes list \<Rightarrow> spec_group \<Rightarrow> int \<Rightarrow> bool \<Rightarrow> (nat list list \<times> int) result" where
  "find_group c hashes g lim eagle \<equiv>
     find_longest_cache_hit (co_block_pools c ! sg_pool_id g) (sg_spec g) (Raw hashes) lim (map int (sg_group_ids g)) eagle
       (cache_hit_alignment_tokens c) (st_dcp_world_size (first_mgr c g)) (st_pcp_world_size (first_mgr c g))"

lemma alignment_pos: "lookup_ok c \<Longrightarrow> 0 < cache_hit_alignment_tokens c"
  by (simp add: lookup_ok_def cache_hit_alignment_tokens_def)

lemma co_owns_pool:
  assumes "co_owns ex c" and "k < length (co_block_pools c)"
  shows "hash_ok (co_block_pools c ! k)" and "null_block (co_block_pools c ! k) < num_gpu_blocks (co_block_pools c ! k)"
  using assms by (auto simp: co_owns_def pool_rep_def pool_core_def pool_shape_def)

lemma group_pool:
  assumes "co_owns ex c" and "group_ok c g"
  shows "sg_pool_id g < length (co_block_pools c)"
proof -
  have "hd (sg_group_ids g) \<in> set (sg_group_ids g)" using assms(2) by (simp add: group_ok_def)
  then have "hd (sg_group_ids g) < length (co_managers c)" "pool_index c (hd (sg_group_ids g)) = sg_pool_id g"
    using assms(2) by (auto simp: group_ok_def)
  then show ?thesis using assms(1) by (auto simp: co_owns_def)
qed

lemma find_group_spec:
  assumes "co_owns ex c" and "lookup_ok c" and g: "group_ok c g" and "0 \<le> lim" and "find_group c hashes g lim eagle = Inr (cols, n)"
  shows "length cols = length (sg_group_ids g)" "0 \<le> n" "n \<le> lim"
    "\<And>j b. j < length cols \<Longrightarrow> b \<in> set (cols ! j) \<Longrightarrow> b < num_gpu_blocks (co_block_pools c ! sg_pool_id g)"
    "eagle \<Longrightarrow> \<not> is_mamba (spec_kind (sg_spec g)) \<Longrightarrow>
       n = 0 \<or> n \<le> lim - drop_unit (sg_spec g) (cache_hit_alignment_tokens c) (st_dcp_world_size (first_mgr c g))"
proof -
  have sp: "spec_ok (sg_spec g)" using g by (simp add: group_ok_def)
  note F = find_hit_spec [OF co_owns_pool [OF assms(1) group_pool [OF assms(1) g]] sp alignment_pos [OF assms(2)] assms(4,5)]
  show "0 \<le> n" "n \<le> lim"
    "eagle \<Longrightarrow> \<not> is_mamba (spec_kind (sg_spec g)) \<Longrightarrow>
       n = 0 \<or> n \<le> lim - drop_unit (sg_spec g) (cache_hit_alignment_tokens c) (st_dcp_world_size (first_mgr c g))"
    using F by auto
  from F obtain l where "cols_in (co_block_pools c ! sg_pool_id g) (map int (sg_group_ids g)) cols l" by blast
  then show "length cols = length (sg_group_ids g)"
    "\<And>j b. j < length cols \<Longrightarrow> b \<in> set (cols ! j) \<Longrightarrow> b < num_gpu_blocks (co_block_pools c ! sg_pool_id g)"
    by (auto simp: cols_in_def cols_len_def)
qed

text \<open>The margin that the lookup adds before the drop for EAGLE never exceeds what the drop takes away.\<close>

lemma eagle_margin_le:
  assumes "lookup_ok c" and "group_ok c g" and "\<not> is_mamba (spec_kind (sg_spec g))"
  shows "eagle_margin c g (st_block_size (first_mgr c g)) \<le>
    drop_unit (sg_spec g) (cache_hit_alignment_tokens c) (st_dcp_world_size (first_mgr c g))"
  using assms
  by (auto simp: eagle_margin_def drop_unit_def cache_hit_alignment_tokens_def group_ok_def supports_fine_grained_hash_lookup_def)

lemma record_hit_spec:
  assumes "distinct gids" and "length cols = length gids" and "\<forall>i \<in> set gids. i < length (hs_blocks st)"
    and "length (hs_lengths st) = length (hs_blocks st)"
  shows "hs_curr (record_hit gids cols n st) = hs_curr st" "hs_longest (record_hit gids cols n st) = hs_longest st"
    "hs_eagle_verified (record_hit gids cols n st) = hs_eagle_verified st"
    "length (hs_blocks (record_hit gids cols n st)) = length (hs_blocks st)"
    "length (hs_lengths (record_hit gids cols n st)) = length (hs_blocks st)"
    "\<And>i. i \<notin> set gids \<Longrightarrow> hs_blocks (record_hit gids cols n st) ! i = hs_blocks st ! i"
    "\<And>i. i \<notin> set gids \<Longrightarrow> hs_lengths (record_hit gids cols n st) ! i = hs_lengths st ! i"
    "\<And>j. j < length gids \<Longrightarrow> hs_blocks (record_hit gids cols n st) ! (gids ! j) = Some (cols ! j)"
    "\<And>j. j < length gids \<Longrightarrow> hs_lengths (record_hit gids cols n st) ! (gids ! j) = n"
proof -
  let ?r = "record_hit gids cols n st"
  have "hs_curr ?r = hs_curr st \<and> hs_longest ?r = hs_longest st \<and> hs_eagle_verified ?r = hs_eagle_verified st \<and>
    length (hs_blocks ?r) = length (hs_blocks st) \<and> length (hs_lengths ?r) = length (hs_blocks st) \<and>
    (\<forall>i. i \<notin> set gids \<longrightarrow> hs_blocks ?r ! i = hs_blocks st ! i \<and> hs_lengths ?r ! i = hs_lengths st ! i) \<and>
    (\<forall>j < length gids. hs_blocks ?r ! (gids ! j) = Some (cols ! j) \<and> hs_lengths ?r ! (gids ! j) = n)"
    using assms
  proof (induction gids arbitrary: cols st)
    case (Cons g gids)
    obtain d cols' where c: "cols = d # cols'" using Cons.prems(2) by (cases cols) auto
    let ?st = "st\<lparr>hs_blocks := (hs_blocks st)[g := Some d], hs_lengths := (hs_lengths st)[g := n]\<rparr>"
    have r: "record_hit (g # gids) cols n st = record_hit gids cols' n ?st" by (simp add: record_hit_def c)
    note I = Cons.IH [of cols' ?st]
    show ?case unfolding r using I Cons.prems c by (auto simp: nth_Cons split: nat.split)
  qed (simp add: record_hit_def)
  then show "hs_curr ?r = hs_curr st" "hs_longest ?r = hs_longest st" "hs_eagle_verified ?r = hs_eagle_verified st"
    "length (hs_blocks ?r) = length (hs_blocks st)" "length (hs_lengths ?r) = length (hs_blocks st)"
    "\<And>i. i \<notin> set gids \<Longrightarrow> hs_blocks ?r ! i = hs_blocks st ! i" "\<And>i. i \<notin> set gids \<Longrightarrow> hs_lengths ?r ! i = hs_lengths st ! i"
    "\<And>j. j < length gids \<Longrightarrow> hs_blocks ?r ! (gids ! j) = Some (cols ! j)" "\<And>j. j < length gids \<Longrightarrow> hs_lengths ?r ! (gids ! j) = n"
    by auto
qed


text \<open>The recorded hit of a group comes from one lookup, of length \<^verbatim>\<open>n\<close>.\<close>

definition found_hit :: "coordinator \<Rightarrow> bytes list \<Rightarrow> hit_state \<Rightarrow> spec_group \<Rightarrow> int \<Rightarrow> bool" where
  "found_hit c hashes st g n \<longleftrightarrow>
     (\<exists>lim eagle cols. 0 \<le> lim \<and> find_group c hashes g lim eagle = Inr (cols, n) \<and>
        (\<forall>j < length (sg_group_ids g).
           hs_blocks st ! (sg_group_ids g ! j) = Some (cols ! j) \<and> hs_lengths st ! (sg_group_ids g ! j) = n))"

definition hs_inv :: "coordinator \<Rightarrow> bytes list \<Rightarrow> hit_state \<Rightarrow> bool" where
  "hs_inv c hashes st \<longleftrightarrow>
     length (hs_blocks st) = length (co_managers c) \<and> length (hs_lengths st) = length (hs_blocks st) \<and>
     (\<forall>i < length (hs_blocks st). hs_blocks st ! i = None \<or>
        (\<exists>g \<in> set (co_attention_groups c). i \<in> set (sg_group_ids g) \<and> (\<exists>n. found_hit c hashes st g n \<and> n \<le> hs_longest st)))"

lemma distinct_concat_disjoint:
  "distinct (concat (map f xs)) \<Longrightarrow> x \<in> set xs \<Longrightarrow> y \<in> set xs \<Longrightarrow> x \<noteq> y \<Longrightarrow> set (f x) \<inter> set (f y) = {}"
  by (induction xs) auto

lemma distinct_concat_mem: "distinct (concat (map f xs)) \<Longrightarrow> x \<in> set xs \<Longrightarrow> distinct (f x)"
  by (induction xs) auto

lemma found_hit_cong:
  assumes "\<And>i. i \<in> set (sg_group_ids g) \<Longrightarrow> hs_blocks st' ! i = hs_blocks st ! i \<and> hs_lengths st' ! i = hs_lengths st ! i"
    and "found_hit c hashes st g n"
  shows "found_hit c hashes st' g n"
  using assms unfolding found_hit_def by (metis nth_mem)

lemma found_hit_nonneg:
  assumes "co_owns ex c" and "lookup_ok c" and "g \<in> set (co_attention_groups c)" and "found_hit c hashes st g n"
  shows "0 \<le> n"
proof -
  have g: "group_ok c g" using assms(2,3) by (simp add: lookup_ok_def)
  from assms(4) show ?thesis using find_group_spec(2) [OF assms(1,2) g] by (auto simp: found_hit_def)
qed

text \<open>The effect of one lookup of the round on the variables of the loop.\<close>

definition lookup_step :: "coordinator \<Rightarrow> bytes list \<Rightarrow> spec_group \<Rightarrow> hit_state \<Rightarrow> hit_state \<Rightarrow> bool" where
  "lookup_step c hashes g st st' \<longleftrightarrow>
     hs_inv c hashes st' \<and> 0 \<le> hs_curr st' \<and> hs_curr st' \<le> hs_curr st \<and> hs_longest st \<le> hs_longest st' \<and>
     (\<exists>n. found_hit c hashes st' g n \<and> n \<le> hs_longest st' \<and> hs_curr st' \<le> n \<and>
        (full_group g \<and> hs_blocks st ! hd (sg_group_ids g) \<noteq> None \<or> n = hs_curr st')) \<and>
     (\<forall>g' n. g' \<in> set (co_attention_groups c) \<longrightarrow> g' \<noteq> g \<longrightarrow> found_hit c hashes st g' n \<longrightarrow> found_hit c hashes st' g' n)"

lemma group_ids:
  assumes "lookup_ok c" and "g \<in> set (co_attention_groups c)"
  shows "sg_group_ids g \<noteq> []" "\<And>i. i \<in> set (sg_group_ids g) \<Longrightarrow> i < length (co_managers c)" "distinct (sg_group_ids g)"
    "hd (sg_group_ids g) \<in> set (sg_group_ids g)"
    "\<And>g' i. g' \<in> set (co_attention_groups c) \<Longrightarrow> i \<in> set (sg_group_ids g') \<Longrightarrow> i \<in> set (sg_group_ids g) \<Longrightarrow> g' = g"
proof -
  have gk: "group_ok c g" and dis: "distinct (concat (map sg_group_ids (co_attention_groups c)))" using assms by (auto simp: lookup_ok_def)
  show "sg_group_ids g \<noteq> []" "\<And>i. i \<in> set (sg_group_ids g) \<Longrightarrow> i < length (co_managers c)" "distinct (sg_group_ids g)"
    "hd (sg_group_ids g) \<in> set (sg_group_ids g)"
    using gk distinct_concat_mem [OF dis assms(2)] by (auto simp: group_ok_def)
  show "\<And>g' i. g' \<in> set (co_attention_groups c) \<Longrightarrow> i \<in> set (sg_group_ids g') \<Longrightarrow> i \<in> set (sg_group_ids g) \<Longrightarrow> g' = g"
    using distinct_concat_disjoint [OF dis _ assms(2)] by blast
qed

lemma lookup_group_cached:
  assumes own: "co_owns ex c" and ok: "lookup_ok c" and g: "g \<in> set (co_attention_groups c)" and inv: "hs_inv c hashes st"
    and c0: "0 \<le> hs_curr st" and f: "full_group g" "hs_blocks st ! hd (sg_group_ids g) \<noteq> None"
  shows "lookup_step c hashes g st (st\<lparr>hs_curr := min (hs_curr st) (hs_lengths st ! hd (sg_group_ids g))\<rparr>)"
proof -
  let ?ids = "sg_group_ids g" and ?st = "st\<lparr>hs_curr := min (hs_curr st) (hs_lengths st ! hd (sg_group_ids g))\<rparr>"
  note ids = group_ids [OF ok g]
  have eq: "found_hit c hashes ?st g' n = found_hit c hashes st g' n" for g' n by (simp add: found_hit_def)
  have "hd ?ids < length (hs_blocks st)" using ids(2) [OF ids(4)] inv by (simp add: hs_inv_def)
  then obtain g' n where g': "g' \<in> set (co_attention_groups c)" "hd ?ids \<in> set (sg_group_ids g')" "found_hit c hashes st g' n" "n \<le> hs_longest st"
    using inv f(2) unfolding hs_inv_def by metis
  have gg: "g' = g" using ids(5) [OF g'(1,2) ids(4)] .
  have "hs_lengths st ! hd ?ids = n"
    using g'(3) ids(1) unfolding gg found_hit_def by (metis hd_conv_nth length_greater_0_conv)
  moreover have "0 \<le> n" using found_hit_nonneg [OF own ok g'(1,3)] .
  moreover have "hs_inv c hashes ?st" using inv by (simp add: hs_inv_def eq)
  ultimately show ?thesis using c0 g'(3,4) f unfolding lookup_step_def eq gg by auto
qed

text \<open>A fresh lookup never returns more than the candidate, so the candidate only shrinks.\<close>

lemma lookup_group_fresh:
  assumes own: "co_owns ex c" and ok: "lookup_ok c" and g: "g \<in> set (co_attention_groups c)"
    and c0: "0 \<le> hs_curr st" "hs_curr st \<le> max_len" and run: "lookup_group c hashes max_len (idx, g) st = Inr st'"
    and fresh: "\<not> (full_group g \<and> hs_blocks st ! hd (sg_group_ids g) \<noteq> None)"
  obtains lim eagle cols n v where "0 \<le> lim" "find_group c hashes g lim eagle = Inr (cols, n)" "length cols = length (sg_group_ids g)"
    "0 \<le> n" "n \<le> hs_curr st"
    "st' = (let s1 = record_hit (sg_group_ids g) cols n (st\<lparr>hs_eagle_verified := v, hs_curr := n\<rparr>) in s1\<lparr>hs_longest := max (hs_longest s1) n\<rparr>)"
proof -
  let ?m = "first_mgr c g"
  have gk: "group_ok c g" using ok g by (auto simp: lookup_ok_def)
  define eagle where "eagle = (sg_use_eagle g \<and> idx \<notin> set (hs_eagle_verified st))"
  define lim where "lim = (if eagle \<and> \<not> is_mamba (spec_kind (sg_spec g))
    then min (hs_curr st + eagle_margin c g (st_block_size ?m)) max_len else hs_curr st)"
  define v where "v n = (if eagle then List.insert idx (hs_eagle_verified st) else if n < hs_curr st then [] else hs_eagle_verified st)" for n
  have "bindE (find_group c hashes g lim eagle) (\<lambda>(cols, n).
      let s1 = record_hit (sg_group_ids g) cols n (st\<lparr>hs_eagle_verified := v n, hs_curr := n\<rparr>) in Inr (s1\<lparr>hs_longest := max (hs_longest s1) n\<rparr>)) = Inr st'"
    using run unfolding lookup_group_def Let_def prod.case if_not_P [OF fresh] lim_def v_def eagle_def first_mgr_def .
  then obtain cols n where fg: "find_group c hashes g lim eagle = Inr (cols, n)"
    and st': "st' = (let s1 = record_hit (sg_group_ids g) cols n (st\<lparr>hs_eagle_verified := v n, hs_curr := n\<rparr>) in s1\<lparr>hs_longest := max (hs_longest s1) n\<rparr>)"
    by (auto simp: bindE_eq_Inr Let_def)
  have "0 < st_block_size ?m" using gk by (auto simp: group_ok_def spec_ok_def effective_block_size_def split: if_split_asm)
  then have mg: "0 \<le> eagle_margin c g (st_block_size ?m)" using ok by (simp add: eagle_margin_def lookup_ok_def)
  have lim0: "0 \<le> lim" using c0 mg by (auto simp: lim_def)
  note F = find_group_spec [OF own ok gk lim0 fg]
  have n: "n \<le> hs_curr st"
    using F(3) F(5) eagle_margin_le [OF ok gk] c0 by (auto simp: lim_def split: if_split_asm)
  show thesis using that [OF lim0 fg F(1,2) n st'] .
qed

lemma lookup_group_step:
  assumes own: "co_owns ex c" and ok: "lookup_ok c" and g: "g \<in> set (co_attention_groups c)" and inv: "hs_inv c hashes st"
    and c0: "0 \<le> hs_curr st" "hs_curr st \<le> max_len" and run: "lookup_group c hashes max_len (idx, g) st = Inr st'"
  shows "lookup_step c hashes g st st'"
proof (cases "full_group g \<and> hs_blocks st ! hd (sg_group_ids g) \<noteq> None")
  case True
  then show ?thesis using lookup_group_cached [OF own ok g inv c0(1)] run by (simp add: lookup_group_def Let_def)
next
  case False
  let ?ids = "sg_group_ids g"
  note ids = group_ids [OF ok g]
  obtain lim eagle cols n v where lim0: "0 \<le> lim" and fg: "find_group c hashes g lim eagle = Inr (cols, n)"
    and cols: "length cols = length ?ids" and n: "0 \<le> n" "n \<le> hs_curr st"
    and st': "st' = (let s1 = record_hit ?ids cols n (st\<lparr>hs_eagle_verified := v, hs_curr := n\<rparr>) in s1\<lparr>hs_longest := max (hs_longest s1) n\<rparr>)"
    using lookup_group_fresh [OF own ok g c0 run False] .
  have len: "length (hs_blocks st) = length (co_managers c)" "length (hs_lengths st) = length (hs_blocks st)" using inv by (simp_all add: hs_inv_def)
  note R = record_hit_spec [OF ids(3) cols, where st = "st\<lparr>hs_eagle_verified := v, hs_curr := n\<rparr>" and n = n]
  have R': "hs_curr st' = n" "hs_longest st' = max (hs_longest st) n" "length (hs_blocks st') = length (hs_blocks st)"
    "length (hs_lengths st') = length (hs_blocks st)"
    "\<And>i. i \<notin> set ?ids \<Longrightarrow> hs_blocks st' ! i = hs_blocks st ! i \<and> hs_lengths st' ! i = hs_lengths st ! i"
    "\<And>j. j < length ?ids \<Longrightarrow> hs_blocks st' ! (?ids ! j) = Some (cols ! j) \<and> hs_lengths st' ! (?ids ! j) = n"
    using R ids(2) len by (simp_all add: st' Let_def)
  have fh: "found_hit c hashes st' g n" using fg lim0 R'(6) unfolding found_hit_def by blast
  have oth: "found_hit c hashes st' g' k" if "g' \<in> set (co_attention_groups c)" "g' \<noteq> g" "found_hit c hashes st g' k" for g' k
    using ids(5) [OF that(1)] that(2) R'(5) by (intro found_hit_cong [OF _ that(3)]) blast
  have "hs_blocks st' ! i = None \<or> (\<exists>g \<in> set (co_attention_groups c). i \<in> set (sg_group_ids g) \<and>
      (\<exists>n. found_hit c hashes st' g n \<and> n \<le> hs_longest st'))" if i: "i < length (hs_blocks st')" for i
  proof (cases "i \<in> set ?ids \<or> hs_blocks st' ! i = None")
    case True
    then show ?thesis using g fh R'(2) by (metis max.cobounded2)
  next
    case False
    then obtain g' k where k: "g' \<in> set (co_attention_groups c)" "i \<in> set (sg_group_ids g')" "found_hit c hashes st g' k" "k \<le> hs_longest st"
      using inv i R'(3,5) unfolding hs_inv_def by metis
    then have "found_hit c hashes st' g' k" using oth False by metis
    then show ?thesis using k R'(2) by (metis max.coboundedI1)
  qed
  then have "hs_inv c hashes st'" using R'(3,4) len by (simp add: hs_inv_def)
  then show ?thesis using fh oth n R'(1,2) False by (auto simp: lookup_step_def)
qed


section \<open>The loop\<close>

definition reached :: "coordinator \<Rightarrow> bytes list \<Rightarrow> int \<Rightarrow> hit_state \<Rightarrow> spec_group \<Rightarrow> bool" where
  "reached c hashes L st g \<longleftrightarrow>
     (\<exists>n. found_hit c hashes st g n \<and> n \<le> hs_longest st \<and> hs_curr st \<le> n \<and> (\<not> full_group g \<longrightarrow> n \<le> L))"

lemma round_spec:
  assumes own: "co_owns ex c" and ok: "lookup_ok c"
    and "foldE (lookup_group c hashes max_len) (enumerate k gs) st = Inr st'" and "set gs \<subseteq> set (co_attention_groups c)"
    and "hs_inv c hashes st" and "0 \<le> hs_curr st" and "hs_curr st \<le> L" and "L \<le> max_len"
    and "\<forall>g \<in> set pre. reached c hashes L st g" and "set pre \<subseteq> set (co_attention_groups c)"
  shows "hs_inv c hashes st' \<and> 0 \<le> hs_curr st' \<and> hs_curr st' \<le> hs_curr st \<and> (\<forall>g \<in> set pre \<union> set gs. reached c hashes L st' g) \<and>
    (gs \<noteq> [] \<and> \<not> full_group (last gs) \<longrightarrow> found_hit c hashes st' (last gs) (hs_curr st'))"
  using assms(3-)
proof (induction gs arbitrary: k st pre)
  case (Cons g gs)
  obtain s1 where s1: "lookup_group c hashes max_len (k, g) st = Inr s1"
    and rest: "foldE (lookup_group c hashes max_len) (enumerate (Suc k) gs) s1 = Inr st'"
    using Cons.prems(1) by (auto simp: bindE_eq_Inr)
  have g: "g \<in> set (co_attention_groups c)" using Cons.prems(2) by simp
  have "lookup_step c hashes g st s1"
    using lookup_group_step [OF own ok g Cons.prems(3,4) _ s1] Cons.prems(5,6) by simp
  then obtain n where st: "hs_inv c hashes s1" "0 \<le> hs_curr s1" "hs_curr s1 \<le> hs_curr st" "hs_longest st \<le> hs_longest s1"
    "found_hit c hashes s1 g n" "n \<le> hs_longest s1" "hs_curr s1 \<le> n" "full_group g \<or> n = hs_curr s1"
    "\<And>g' n. g' \<in> set (co_attention_groups c) \<Longrightarrow> g' \<noteq> g \<Longrightarrow> found_hit c hashes st g' n \<Longrightarrow> found_hit c hashes s1 g' n"
    unfolding lookup_step_def by blast
  have gr: "reached c hashes L s1 g" using st Cons.prems(5) unfolding reached_def by auto
  have "reached c hashes L s1 g'" if "g' \<in> set pre" for g'
  proof (cases "g' = g")
    case False
    obtain n' where "found_hit c hashes st g' n'" "n' \<le> hs_longest st" "hs_curr st \<le> n'" "\<not> full_group g' \<longrightarrow> n' \<le> L"
      using Cons.prems(7) \<open>g' \<in> set pre\<close> unfolding reached_def by blast
    then show ?thesis using st(3,4) st(9) [OF _ False] Cons.prems(8) that unfolding reached_def by (meson order_trans subsetD)
  qed (use gr in simp)
  then have pre: "\<forall>g' \<in> set (g # pre). reached c hashes L s1 g'" using gr by simp
  have IH: "hs_inv c hashes st' \<and> 0 \<le> hs_curr st' \<and> hs_curr st' \<le> hs_curr s1 \<and>
    (\<forall>g' \<in> set (g # pre) \<union> set gs. reached c hashes L st' g') \<and>
    (gs \<noteq> [] \<and> \<not> full_group (last gs) \<longrightarrow> found_hit c hashes st' (last gs) (hs_curr st'))"
    using Cons.IH [OF rest _ st(1,2) _ Cons.prems(6) pre] Cons.prems(2,5,8) st(3) by auto
  have "found_hit c hashes st' g (hs_curr st')" if "gs = []" "\<not> full_group g"
    using rest st(5,8) that by simp
  then show ?case using IH st(3) by auto
qed simp

text \<open>All groups agree on a hit of \<^verbatim>\<open>L\<close> tokens: a full-attention hit may be longer, every other one ends there.\<close>

definition agree :: "coordinator \<Rightarrow> bytes list \<Rightarrow> int \<Rightarrow> hit_state \<Rightarrow> bool" where
  "agree c hashes L st \<longleftrightarrow> (\<forall>g \<in> set (co_attention_groups c). \<exists>n. found_hit c hashes st g n \<and> L \<le> n \<and> n \<le> hs_longest st \<and>
     (\<not> full_group g \<longrightarrow> n = L))"

lemma hybrid_round_agree:
  assumes own: "co_owns ex c" and ok: "lookup_ok c" and inv: "hs_inv c hashes st" and L: "0 \<le> L" "L \<le> max_len"
    and run: "foldE (lookup_group c hashes max_len) (enumerate 0 (co_attention_groups c)) (st\<lparr>hs_curr := L\<rparr>) = Inr st'"
  shows "hs_inv c hashes st'" "0 \<le> hs_curr st'" "hs_curr st' \<le> L" "L \<le> hs_curr st' \<or> is_simple_hybrid c \<Longrightarrow> agree c hashes (hs_curr st') st'"
proof -
  have "hs_inv c hashes (st\<lparr>hs_curr := L\<rparr>)" using inv by (simp add: hs_inv_def found_hit_def)
  then have R: "hs_inv c hashes st' \<and> 0 \<le> hs_curr st' \<and> hs_curr st' \<le> L \<and> (\<forall>g \<in> set (co_attention_groups c). reached c hashes L st' g) \<and>
    (\<not> full_group (last (co_attention_groups c)) \<longrightarrow> found_hit c hashes st' (last (co_attention_groups c)) (hs_curr st'))"
    using round_spec [OF own ok run, of L "[]"] L ok by (auto simp: lookup_ok_def)
  then show "hs_inv c hashes st'" "0 \<le> hs_curr st'" "hs_curr st' \<le> L" by simp_all
  assume e: "L \<le> hs_curr st' \<or> is_simple_hybrid c"
  have "\<exists>n. found_hit c hashes st' g n \<and> hs_curr st' \<le> n \<and> n \<le> hs_longest st' \<and> (\<not> full_group g \<longrightarrow> n = hs_curr st')"
    if g: "g \<in> set (co_attention_groups c)" for g
  proof -
    obtain n where n: "found_hit c hashes st' g n" "hs_curr st' \<le> n" "n \<le> hs_longest st'" "\<not> full_group g \<longrightarrow> n \<le> L"
      using R g unfolding reached_def by blast
    show ?thesis
    proof (cases "L \<le> hs_curr st' \<or> full_group g")
      case True
      then show ?thesis using n R by (intro exI [of _ n]) auto
    next
      case False
      then obtain a b where "co_attention_groups c = [a, b]" "full_group a"
        using e by (auto simp: is_simple_hybrid_def length_Suc_conv numeral_2_eq_2)
      then have "g = last (co_attention_groups c)" using g False by auto
      then have "found_hit c hashes st' g (hs_curr st')" using R False by simp
      then show ?thesis using n by (intro exI [of _ "hs_curr st'"]) auto
    qed
  qed
  then show "agree c hashes (hs_curr st') st'" by (simp add: agree_def)
qed

lemma hybrid_loop_spec:
  assumes own: "co_owns ex c" and ok: "lookup_ok c" and "hs_inv c hashes st" and "0 \<le> L" and "L \<le> max_len"
  shows "\<exists>r. hybrid_loop c hashes max_len L st = Some r \<and>
    (\<forall>hit st'. r = Inr (hit, st') \<longrightarrow> 0 \<le> hit \<and> hit \<le> L \<and> hs_inv c hashes st' \<and> agree c hashes hit st')"
  using assms(3-)
proof (induction "nat L" arbitrary: L st rule: less_induct)
  case less
  note unf = hybrid_loop.simps [of c hashes max_len L st]
  show ?case
  proof (cases "foldE (lookup_group c hashes max_len) (enumerate 0 (co_attention_groups c)) (st\<lparr>hs_curr := L\<rparr>)")
    case (Inl e)
    then show ?thesis using unf by simp
  next
    case (Inr st')
    note R = hybrid_round_agree [OF own ok less.prems Inr]
    consider "L \<le> hs_curr st'" | "hs_curr st' < L" "is_simple_hybrid c" | "hs_curr st' < L" "\<not> is_simple_hybrid c" by linarith
    then show ?thesis
    proof cases
      case 1
      then have "hs_curr st' = L" using R(3) by simp
      then show ?thesis using unf Inr R 1 less.prems by simp
    next
      case 2
      then show ?thesis using unf Inr R less.prems by simp
    next
      case 3
      then have "hybrid_loop c hashes max_len L st = hybrid_loop c hashes max_len (hs_curr st') st'" using unf Inr by simp
      moreover have "nat (hs_curr st') < nat L" using 3 R(2) by simp
      ultimately show ?thesis using less.hyps [of "hs_curr st'" st'] R(1-3) less.prems(3) by force
    qed
  qed
qed


section \<open>The result\<close>

definition cut :: "coordinator \<Rightarrow> int \<Rightarrow> spec_group \<Rightarrow> nat list \<Rightarrow> nat list" where
  "cut c hit g bs = (if full_group g then take (nat (cdiv hit (st_block_size (first_mgr c g)))) bs else bs)"

abbreviation cut_at :: "(nat list \<Rightarrow> nat list) \<Rightarrow> int \<Rightarrow> nat \<Rightarrow> hit_state \<Rightarrow> hit_state" where
  "cut_at f hit i st \<equiv> case hs_blocks st ! i of None \<Rightarrow> st
     | Some bs \<Rightarrow> st\<lparr>hs_blocks := (hs_blocks st)[i := Some (f bs)], hs_lengths := (hs_lengths st)[i := hit]\<rparr>"

lemma truncate_loop:
  assumes "distinct is"
  shows "hs_longest (fold (cut_at f hit) is st) = hs_longest st \<and>
    length (hs_blocks (fold (cut_at f hit) is st)) = length (hs_blocks st) \<and>
    (\<forall>j < length (hs_blocks st). hs_blocks (fold (cut_at f hit) is st) ! j =
       (if j \<in> set is then map_option f (hs_blocks st ! j) else hs_blocks st ! j))"
  using assms
proof (induction "is" arbitrary: st)
  case (Cons i "is")
  show ?case
  proof (cases "hs_blocks st ! i")
    case None
    then show ?thesis using Cons.IH [of st] Cons.prems by auto
  next
    case (Some bs)
    show ?thesis
      using Cons.IH [of "st\<lparr>hs_blocks := (hs_blocks st)[i := Some (f bs)], hs_lengths := (hs_lengths st)[i := hit]\<rparr>"] Cons.prems Some
      by (auto simp: nth_list_update) (metis nth_list_update_neq)
  qed
qed simp

lemma truncate_group_spec:
  assumes "distinct (sg_group_ids g)"
  shows "hs_longest (truncate_group c hit g st) = hs_longest st"
    "length (hs_blocks (truncate_group c hit g st)) = length (hs_blocks st)"
    "\<And>i. i < length (hs_blocks st) \<Longrightarrow> hs_blocks (truncate_group c hit g st) ! i =
       (if i \<in> set (sg_group_ids g) then map_option (cut c hit g) (hs_blocks st ! i) else hs_blocks st ! i)"
proof -
  let ?f = "take (nat (cdiv hit (st_block_size (first_mgr c g))))"
  have t: "truncate_group c hit g st = (if full_group g then fold (cut_at ?f hit) (sg_group_ids g) st else st)"
    unfolding truncate_group_def Let_def first_mgr_def by simp
  have m: "map_option (cut c hit g) x = (if full_group g then map_option ?f x else x)" for x by (cases x) (simp_all add: cut_def)
  note T = truncate_loop [OF assms, where f = ?f and hit = hit and st = st]
  show "hs_longest (truncate_group c hit g st) = hs_longest st"
    "length (hs_blocks (truncate_group c hit g st)) = length (hs_blocks st)" using T by (simp_all add: t)
  show "\<And>i. i < length (hs_blocks st) \<Longrightarrow> hs_blocks (truncate_group c hit g st) ! i =
       (if i \<in> set (sg_group_ids g) then map_option (cut c hit g) (hs_blocks st ! i) else hs_blocks st ! i)"
    using T by (simp add: t m)
qed

lemma truncate_groups_spec:
  assumes "distinct (concat (map sg_group_ids gs))"
  shows "hs_longest (fold (truncate_group c hit) gs st) = hs_longest st \<and>
    length (hs_blocks (fold (truncate_group c hit) gs st)) = length (hs_blocks st) \<and>
    (\<forall>i < length (hs_blocks st).
       (\<forall>g \<in> set gs. i \<in> set (sg_group_ids g) \<longrightarrow> hs_blocks (fold (truncate_group c hit) gs st) ! i = map_option (cut c hit g) (hs_blocks st ! i)) \<and>
       ((\<forall>g \<in> set gs. i \<notin> set (sg_group_ids g)) \<longrightarrow> hs_blocks (fold (truncate_group c hit) gs st) ! i = hs_blocks st ! i))"
  using assms
proof (induction gs arbitrary: st)
  case (Cons g gs)
  have d: "distinct (sg_group_ids g)" "distinct (concat (map sg_group_ids gs))" using Cons.prems by auto
  have dis: "i \<notin> set (sg_group_ids g')" if "i \<in> set (sg_group_ids g)" "g' \<in> set gs" for i g' using Cons.prems that by auto
  note T = truncate_group_spec [OF d(1), where c = c and hit = hit and st = st] and I = Cons.IH [OF d(2), of "truncate_group c hit g st"]
  show ?case using I T dis by (auto split: if_split_asm; metis)
qed simp

lemma hs_inv_init: "co_owns ex c \<Longrightarrow> hs_inv c hashes (hit_state_init c)"
  by (simp add: hs_inv_def hit_state_init_def Let_def co_owns_def)

text \<open>The result of a lookup for group \<^verbatim>\<open>g\<close>: the blocks of one lookup of the group that reaches \<^verbatim>\<open>hit\<close>, cut there.\<close>

definition group_hit :: "coordinator \<Rightarrow> bytes list \<Rightarrow> int \<Rightarrow> nat list list \<Rightarrow> spec_group \<Rightarrow> bool" where
  "group_hit c hashes hit blocks g \<longleftrightarrow>
     (\<exists>lim eagle cols n. 0 \<le> lim \<and> find_group c hashes g lim eagle = Inr (cols, n) \<and> hit \<le> n \<and> (\<not> full_group g \<longrightarrow> n = hit) \<and>
        (\<forall>j < length (sg_group_ids g). blocks ! (sg_group_ids g ! j) = cut c hit g (cols ! j)))"

lemma hybrid_find_spec:
  assumes own: "co_owns ex c" and ok: "lookup_ok c" and "0 \<le> max_len"
  shows "\<exists>r. hybrid_find_longest_cache_hit c hashes max_len = Some r \<and> (\<forall>blocks hit u. r = Inr (blocks, hit, u) \<longrightarrow>
    length blocks = length (co_managers c) \<and> 0 \<le> hit \<and> hit \<le> max_len \<and> 0 \<le> u \<and>
    (\<forall>g \<in> set (co_attention_groups c). group_hit c hashes hit blocks g) \<and>
    (\<forall>i < length blocks. (\<forall>g \<in> set (co_attention_groups c). i \<notin> set (sg_group_ids g)) \<longrightarrow> blocks ! i = []))"
proof -
  obtain r where r: "hybrid_loop c hashes max_len max_len (hit_state_init c) = Some r"
    and R: "\<And>hit st'. r = Inr (hit, st') \<Longrightarrow> 0 \<le> hit \<and> hit \<le> max_len \<and> hs_inv c hashes st' \<and> agree c hashes hit st'"
    using hybrid_loop_spec [OF own ok hs_inv_init [OF own] assms(3) order_refl, of hashes] by blast
  have dis: "distinct (concat (map sg_group_ids (co_attention_groups c)))" using ok by (simp add: lookup_ok_def)
  show ?thesis
  proof (cases r)
    case (Inl e)
    then show ?thesis using r by (simp add: hybrid_find_longest_cache_hit_def)
  next
    case (Inr x)
    then obtain hit st where x: "r = Inr (hit, st)" by (cases x) auto
    note R = R [OF x]
    define st' where "st' = fold (truncate_group c hit) (co_attention_groups c) st"
    define blocks where "blocks = map (\<lambda>b. case b of None \<Rightarrow> [] | Some bs \<Rightarrow> bs) (hs_blocks st')"
    note T = truncate_groups_spec [OF dis, of c hit st, folded st'_def]
    have len: "length blocks = length (co_managers c)" "length (hs_blocks st) = length (co_managers c)"
      using T R by (simp_all add: blocks_def hs_inv_def)
    have gh: "group_hit c hashes hit blocks g" if g: "g \<in> set (co_attention_groups c)" for g
    proof -
      obtain n where n: "found_hit c hashes st g n" "hit \<le> n" "\<not> full_group g \<longrightarrow> n = hit" using R g unfolding agree_def by blast
      then obtain lim eagle cols where f: "0 \<le> lim" "find_group c hashes g lim eagle = Inr (cols, n)"
        "\<forall>j < length (sg_group_ids g). hs_blocks st ! (sg_group_ids g ! j) = Some (cols ! j)" unfolding found_hit_def by blast
      have "blocks ! (sg_group_ids g ! j) = cut c hit g (cols ! j)" if j: "j < length (sg_group_ids g)" for j
      proof -
        have i: "sg_group_ids g ! j \<in> set (sg_group_ids g)" "sg_group_ids g ! j < length (hs_blocks st)"
          using j group_ids(2) [OF ok g] len by auto
        then have "hs_blocks st' ! (sg_group_ids g ! j) = Some (cut c hit g (cols ! j))" using T g f(3) j by auto
        then show ?thesis using i T by (simp add: blocks_def)
      qed
      then show ?thesis using f n unfolding group_hit_def by blast
    qed
    have none: "blocks ! i = []" if "i < length blocks" "\<forall>g \<in> set (co_attention_groups c). i \<notin> set (sg_group_ids g)" for i
    proof -
      have "hs_blocks st ! i = None" using R that len unfolding hs_inv_def by metis
      then show ?thesis using T that len by (simp add: blocks_def)
    qed
    obtain g where "g \<in> set (co_attention_groups c)" using ok by (cases "co_attention_groups c") (auto simp: lookup_ok_def)
    then have u: "0 \<le> hs_longest st' - hit" using R T unfolding agree_def by force
    have "hybrid_find_longest_cache_hit c hashes max_len = Some (Inr (blocks, hit, hs_longest st' - hit))"
      by (simp add: hybrid_find_longest_cache_hit_def r x Let_def st'_def blocks_def)
    then show ?thesis using len gh none u R by auto
  qed
qed

lemma group_hit_in:
  assumes own: "co_owns ex c" and ok: "lookup_ok c" and g: "g \<in> set (co_attention_groups c)" and hit: "group_hit c hashes hit blocks g"
    and i: "i \<in> set (sg_group_ids g)" and b: "b \<in> set (blocks ! i)"
  shows "b < num_gpu_blocks (co_block_pools c ! pool_index c i)"
proof -
  have gk: "group_ok c g" using ok g by (auto simp: lookup_ok_def)
  obtain lim eagle cols n where f: "0 \<le> lim" "find_group c hashes g lim eagle = Inr (cols, n)"
    "\<forall>j < length (sg_group_ids g). blocks ! (sg_group_ids g ! j) = cut c hit g (cols ! j)" using hit unfolding group_hit_def by blast
  obtain j where j: "j < length (sg_group_ids g)" "sg_group_ids g ! j = i" using i by (auto simp: in_set_conv_nth)
  have "blocks ! i = cut c hit g (cols ! j)" using f(3) j by metis
  then have "b \<in> set (cols ! j)" using b by (auto simp: cut_def dest: in_set_takeD split: if_split_asm)
  moreover have "pool_index c i = sg_pool_id g" using gk i by (simp add: group_ok_def)
  ultimately show ?thesis using find_group_spec(1,4) [OF own ok gk f(1,2)] j by simp
qed


section \<open>Construction\<close>

definition lookup_cfg :: "kv_cache_config \<Rightarrow> int \<Rightarrow> int \<Rightarrow> int \<Rightarrow> bool" where
  "lookup_cfg cfg dcp sbs hbs \<longleftrightarrow> 0 < hbs \<and> 0 < sbs \<and>
     (\<forall>g \<in> set (cfg_groups cfg). spec_ok (group_spec g) \<and>
        effective_block_size (group_spec g) (dcp_world_size_for_kv_cache_spec (group_spec g) dcp) \<le> sbs)"

definition split_ok :: "(nat \<times> kv_group) list \<Rightarrow> spec_group list \<Rightarrow> bool" where
  "split_ok seen ss \<longleftrightarrow> distinct (concat (map sg_group_ids ss)) \<and>
     (\<forall>s \<in> set ss. sg_group_ids s \<noteq> [] \<and>
        (\<forall>i \<in> set (sg_group_ids s). \<exists>g. (i, g) \<in> set seen \<and> group_spec g = sg_spec s \<and> group_pool_id g = sg_pool_id s))"

lemma split_ok_ids: "split_ok seen ss \<Longrightarrow> s \<in> set ss \<Longrightarrow> i \<in> set (sg_group_ids s) \<Longrightarrow> i \<in> fst ` set seen"
  by (force simp: split_ok_def)

lemma join_group_ok:
  assumes "split_ok seen ss" and "i \<notin> fst ` set seen"
  shows "split_ok (seen @ [(i, g)]) (join_group i g e ss) \<and>
    set (concat (map sg_group_ids (join_group i g e ss))) = insert i (set (concat (map sg_group_ids ss)))"
  using assms
proof (induction ss)
  case Nil
  then show ?case by (auto simp: split_ok_def)
next
  case (Cons s ss)
  have s: "split_ok seen ss" "i \<notin> set (sg_group_ids s)" "\<forall>s' \<in> set ss. i \<notin> set (sg_group_ids s')"
    using Cons.prems split_ok_ids [OF Cons.prems(1)] by (auto simp: split_ok_def)
  show ?case
  proof (cases "sg_spec s = group_spec g \<and> sg_pool_id s = group_pool_id g")
    case True
    then show ?thesis using Cons.prems(1) s by (auto simp: split_ok_def) blast
  next
    case False
    then show ?thesis using Cons.IH [OF s(1) Cons.prems(2)] Cons.prems(1) s by (auto simp: split_ok_def)
  qed
qed

lemma split_fold_ok:
  assumes "distinct (map fst (seen @ xs))" and "split_ok seen ss"
  shows "split_ok (seen @ xs) (fold (\<lambda>(i, g) ss. if participates_in_prefix_caching (spec_kind (group_spec g))
    then join_group i g (i \<in> set eagle) ss else ss) xs ss)"
  using assms
proof (induction xs arbitrary: seen ss)
  case (Cons x xs)
  obtain i g where x: "x = (i, g)" by (cases x)
  let ?ss = "if participates_in_prefix_caching (spec_kind (group_spec g)) then join_group i g (i \<in> set eagle) ss else ss"
  have i: "i \<notin> fst ` set seen" using Cons.prems(1) x by auto
  have "split_ok (seen @ [x]) ss" using Cons.prems(2) by (auto simp: split_ok_def)
  then have "split_ok (seen @ [x]) ?ss" using join_group_ok [OF Cons.prems(2) i] x by simp
  then show ?case using Cons.IH [of "seen @ [x]" ?ss] Cons.prems(1) x by simp
qed simp

lemma split_groups_ok: "split_ok (enumerate 0 gs) (split_groups eagle gs)"
  using split_fold_ok [of "[]" "enumerate 0 gs" "[]" eagle] by (simp add: split_groups_def split_ok_def)

lemma join_group_specs: "sg_spec ` set (join_group i g e ss) = insert (group_spec g) (sg_spec ` set ss)"
  by (induction ss) auto

lemma split_groups_specs:
  assumes "g \<in> set gs" and part: "participates_in_prefix_caching (spec_kind (group_spec g))"
  shows "\<exists>s \<in> set (split_groups eagle gs). sg_spec s = group_spec g"
proof -
  let ?F = "\<lambda>(i, g) ss. if participates_in_prefix_caching (spec_kind (group_spec g)) then join_group i g (i \<in> set eagle) ss else ss"
  have keep: "group_spec g \<in> sg_spec ` set ss \<Longrightarrow> group_spec g \<in> sg_spec ` set (fold ?F xs ss)" for xs ss
  proof (induction xs arbitrary: ss)
    case (Cons x xs)
    have "group_spec g \<in> sg_spec ` set (?F x ss)" using Cons.prems by (auto simp: join_group_specs split: prod.split)
    from Cons.IH [OF this] show ?case by simp
  qed simp
  obtain i where "i < length gs" "gs ! i = g" using assms(1) by (auto simp: in_set_conv_nth)
  then have "(i, g) \<in> set (enumerate 0 gs)" by (auto simp: in_set_enumerate_eq)
  then obtain xs ys where e: "enumerate 0 gs = xs @ (i, g) # ys" by (meson split_list)
  have "group_spec g \<in> sg_spec ` set (?F (i, g) (fold ?F xs []))" using part by (simp add: join_group_specs)
  from keep [OF this, of ys] have "group_spec g \<in> sg_spec ` set (split_groups eagle gs)" unfolding split_groups_def e by simp
  then show ?thesis by auto
qed

text \<open>A full attention group comes first.\<close>

lemma split_full_first:
  assumes "verify_and_split_kv_cache_groups c = Inr c'" and "g \<in> set (cfg_groups (co_config c))" and "is_full_attention (spec_kind (group_spec g))"
  shows "co_attention_groups c' \<noteq> [] \<and> co_full_attention_group_id c' \<noteq> None \<and> co_config c' = co_config c \<and> co_kind c' = co_kind c"
proof -
  let ?f = "split_groups (co_eagle_group_ids c) (cfg_groups (co_config c))"
  have "participates_in_prefix_caching (spec_kind (group_spec g))"
    using assms(3) by (cases "spec_kind (group_spec g)") (simp_all add: is_full_attention_def participates_in_prefix_caching_def)
  then have "filter full_group ?f \<noteq> []" using split_groups_specs [OF assms(2)] assms(3) by (fastforce simp: filter_empty_conv)
  then obtain s ss where f: "filter full_group ?f = s # ss" by (meson neq_Nil_conv)
  moreover have "full_group s" using f by (metis filter_eq_ConsD)
  ultimately show ?thesis using assms(1) by (auto simp: verify_and_split_kv_cache_groups_def Let_def)
qed

lemma split_ok_perm:
  assumes "split_ok seen ss" and "mset ss' = mset ss"
  shows "split_ok seen ss'"
proof -
  have "mset (concat (map sg_group_ids ss')) = mset (concat (map sg_group_ids ss))"
    using assms(2) by (simp add: mset_concat) (metis mset_map sum_mset_sum_list)
  then have "distinct (concat (map sg_group_ids ss')) = distinct (concat (map sg_group_ids ss))" by (rule mset_eq_imp_distinct_iff)
  then show ?thesis using assms mset_eq_setD [OF assms(2)] by (simp add: split_ok_def)
qed

text \<open>The manager of a group has the block size and the context-parallel size of the group.\<close>

lemma coordinator_init_manager:
  assumes "coordinator_init kind cfg mml mif eagle caching events use_int dcp pcp sbs hbs npl = Inr c" and "i < length (cfg_groups cfg)"
  shows "\<exists>p adm. co_managers c ! i = st_init (group_spec (cfg_groups cfg ! i)) p caching (int i) sbs
    (dcp_world_size_for_kv_cache_spec (group_spec (cfg_groups cfg ! i)) dcp) pcp (needs_kv_cache_zeroing cfg) adm"
proof -
  obtain pools ms where M: "mapE (make_manager cfg mml mif caching dcp pcp sbs pools) (enumerate 0 (cfg_groups cfg)) = Inr ms"
    and c: "co_managers c = ms"
    using assms(1) by (auto simp: coordinator_init_def Let_def bindE_eq_Inr split: if_split_asm)
  have "make_manager cfg mml mif caching dcp pcp sbs pools (i, cfg_groups cfg ! i) = Inr (ms ! i)"
    using mapE_nth(2) [OF M, of i] assms(2) by (simp add: nth_enumerate_eq)
  then have "ms ! i = st_init (group_spec (cfg_groups cfg ! i)) (pools ! group_pool_id (cfg_groups cfg ! i)) caching (int i) sbs
    (dcp_world_size_for_kv_cache_spec (group_spec (cfg_groups cfg ! i)) dcp) pcp (needs_kv_cache_zeroing cfg)
    (max_admission_blocks_per_request (group_spec (cfg_groups cfg ! i)) mif mml)"
    unfolding make_manager_def get_manager_for_kv_cache_spec_def by (auto split: spec_kind.split_asm)
  then show ?thesis unfolding c by blast
qed

lemma st_init_block_size:
  "st_block_size (st_init sp p caching gid sbs (dcp_world_size_for_kv_cache_spec sp dcp) pcp z adm) =
     effective_block_size sp (dcp_world_size_for_kv_cache_spec sp dcp)"
  "st_dcp_world_size (st_init sp p caching gid sbs d pcp z adm) = d"
  "\<not> is_full_attention (spec_kind sp) \<Longrightarrow> effective_block_size sp (dcp_world_size_for_kv_cache_spec sp dcp) = spec_block_size sp"
  by (auto simp: st_init_def effective_block_size_def dcp_world_size_for_kv_cache_spec_def is_mamba_def is_full_attention_def
      split: spec_kind.split)


lemma mset_filter_compl: "mset (filter P xs @ filter (\<lambda>x. \<not> P x) xs) = mset xs"
  by (induction xs) auto

lemma hybrid_init_lookup_ok:
  assumes ci: "coordinator_init kind cfg mml mif eagle caching events use_int dcp pcp sbs hbs npl = Inr c0"
    and hi: "hybrid_init dcp pcp c0 = Inr c" and ok: "lookup_cfg cfg dcp sbs hbs"
  shows "lookup_ok c"
proof -
  let ?gs = "cfg_groups cfg"
  obtain b where v: "verify_and_split_kv_cache_groups (settle_alignment b c0) = Inr c"
    using hi by (auto simp: hybrid_init_def Let_def split: if_split_asm)
  have c0: "co_config c0 = cfg" "co_hash_block_size c0 = hbs" "co_scheduler_block_size c0 = sbs" "length (co_managers c0) = length ?gs"
    using ci by (auto simp: coordinator_init_def Let_def bindE_eq_Inr split: if_split_asm dest: mapE_nth(1))
  define gs where "gs = filter full_group (split_groups (co_eagle_group_ids c0) ?gs) @ filter (\<lambda>s. \<not> full_group s) (split_groups (co_eagle_group_ids c0) ?gs)"
  have c: "co_config c = cfg" "co_hash_block_size c = hbs" "co_scheduler_block_size c = sbs"
    "co_managers c = set_use_eagle gs (map (\<lambda>m. m\<lparr>st_cache_hit_alignment_tokens := cache_hit_alignment_tokens (c0\<lparr>co_enable_partial_hash_hits := b\<rparr>)\<rparr>) (co_managers c0))"
    "co_attention_groups c = gs" "gs \<noteq> []"
    using v c0 by (auto simp: verify_and_split_kv_cache_groups_def settle_alignment_def Let_def gs_def [symmetric] split: list.split_asm)
  have sp: "split_ok (enumerate 0 ?gs) gs" unfolding gs_def by (rule split_ok_perm [OF split_groups_ok mset_filter_compl])
  have m: "st_block_size (co_managers c ! i) = effective_block_size (group_spec (?gs ! i)) (dcp_world_size_for_kv_cache_spec (group_spec (?gs ! i)) dcp)"
    "st_dcp_world_size (co_managers c ! i) = dcp_world_size_for_kv_cache_spec (group_spec (?gs ! i)) dcp" if i: "i < length ?gs" for i
  proof -
    let ?ms = "map (\<lambda>m. m\<lparr>st_cache_hit_alignment_tokens := cache_hit_alignment_tokens (c0\<lparr>co_enable_partial_hash_hits := b\<rparr>)\<rparr>) (co_managers c0)"
    obtain p adm where "co_managers c0 ! i = st_init (group_spec (?gs ! i)) p caching (int i) sbs
      (dcp_world_size_for_kv_cache_spec (group_spec (?gs ! i)) dcp) pcp (needs_kv_cache_zeroing cfg) adm"
      using coordinator_init_manager [OF ci i] by blast
    moreover obtain u where "co_managers c ! i = (?ms ! i)\<lparr>st_use_eagle := u\<rparr>"
      using set_use_eagle_fields(2) [of i ?ms gs] i c0(4) by (auto simp: c(4))
    ultimately show "st_block_size (co_managers c ! i) = effective_block_size (group_spec (?gs ! i)) (dcp_world_size_for_kv_cache_spec (group_spec (?gs ! i)) dcp)"
      "st_dcp_world_size (co_managers c ! i) = dcp_world_size_for_kv_cache_spec (group_spec (?gs ! i)) dcp"
      using i c0(4) by (simp_all add: st_init_block_size)
  qed
  have "group_ok c g" if g: "g \<in> set gs" for g
  proof -
    have ids: "sg_group_ids g \<noteq> []" "\<And>i. i \<in> set (sg_group_ids g) \<Longrightarrow> i < length ?gs \<and> group_spec (?gs ! i) = sg_spec g \<and> group_pool_id (?gs ! i) = sg_pool_id g"
      using sp g by (fastforce simp: split_ok_def in_set_enumerate_eq)+
    note h = ids(2) [OF hd_in_set [OF ids(1)]]
    have len: "length (co_managers c) = length ?gs" using c0(4) by (simp add: c set_use_eagle_fields)
    have "spec_ok (sg_spec g) \<and> effective_block_size (sg_spec g) (dcp_world_size_for_kv_cache_spec (sg_spec g) dcp) \<le> sbs"
      using ok h unfolding lookup_cfg_def by (metis nth_mem)
    then show ?thesis using ids h m [of "hd (sg_group_ids g)"] len st_init_block_size(3) [of "sg_spec g" dcp]
      by (auto simp: group_ok_def first_mgr_def c(1,3))
  qed
  then show ?thesis using c sp ok by (auto simp: lookup_ok_def lookup_cfg_def split_ok_def)
qed


section \<open>All coordinators\<close>

definition co_lookup_ok :: "coordinator \<Rightarrow> bool" where
  "co_lookup_ok c =
     (case co_kind c of
        NoPrefixCache \<Rightarrow> True
      | Unitary \<Rightarrow> length (co_managers c) = 1 \<and> pool_index c 0 = 0 \<and> spec_ok (group_spec (cfg_groups (co_config c) ! 0)) \<and>
          0 < st_block_size (co_managers c ! 0)
      | Hybrid \<Rightarrow> lookup_ok c)"

lemma co_lookup_ok_same:
  assumes "co_same c c'" and "co_lookup_ok c"
  shows "co_lookup_ok c'"
proof -
  note S = co_same_simps [OF assms(1)]
  have c': "c' = c\<lparr>co_block_pools := co_block_pools c', co_managers := co_managers c'\<rparr>" using assms(1) by (simp add: co_same_def)
  have f: "co_attention_groups c' = co_attention_groups c" "co_hash_block_size c' = co_hash_block_size c"
    "co_scheduler_block_size c' = co_scheduler_block_size c" by (subst c', simp)+
  have m: "st_block_size (co_managers c' ! i) = st_block_size (co_managers c ! i)"
    "st_dcp_world_size (co_managers c' ! i) = st_dcp_world_size (co_managers c ! i)" if "i < length (co_managers c)" for i
    using S(6) [OF that] by (simp_all add: st_config_def)
  have g: "group_ok c' g" if "group_ok c g" for g
  proof -
    have "hd (sg_group_ids g) < length (co_managers c)" using that by (auto simp: group_ok_def)
    then show ?thesis using that m S by (auto simp: group_ok_def first_mgr_def f)
  qed
  have m0: "st_block_size (co_managers c' ! 0) = st_block_size (co_managers c ! 0)" if "length (co_managers c) = 1"
    using m(1) [of 0] that by simp
  show ?thesis
    using assms(2) S m0 g by (auto simp: co_lookup_ok_def lookup_ok_def f split: coordinator_kind.split_asm)
qed

lemma get_kv_cache_coordinator_lookup_ok:
  assumes ok: "cfg_ok cfg" "lookup_cfg cfg dcp sbs hbs" and pool: "\<forall>g \<in> set (cfg_groups cfg). length (cfg_groups cfg) = 1 \<longrightarrow> group_pool_id g = 0"
    and run: "get_kv_cache_coordinator cfg mml mif eagle caching events use_int dcp pcp sbs hbs npl = Inr c"
  shows "co_lookup_ok c"
proof -
  consider "\<not> caching" | "caching" "length (cfg_groups cfg) = 1" | "caching" "length (cfg_groups cfg) \<noteq> 1" by blast
  then show ?thesis
  proof cases
    case 1
    then have "co_kind c = NoPrefixCache" using coordinator_init_owns [OF ok(1)] run by (auto simp: get_kv_cache_coordinator_def)
    then show ?thesis by (simp add: co_lookup_ok_def)
  next
    case 2
    then obtain c0 where c0: "coordinator_init Unitary cfg mml mif eagle caching events use_int dcp pcp sbs hbs npl = Inr c0"
      "unitary_init c0 = Inr c" using run by (auto simp: get_kv_cache_coordinator_def bindE_eq_Inr)
    note I = coordinator_init_owns [OF ok(1) c0(1)] and U = unitary_init_owns [OF _ c0(2)]
    have k: "co_kind c = Unitary" "co_config c = cfg" "co_owns (\<lambda>_ _. 0) c" using I U by auto
    obtain g where g: "cfg_groups cfg = [g]" using 2(2) by (auto simp: length_Suc_conv)
    have len: "length (co_managers c) = 1" using k g by (simp add: co_owns_def)
    then have "mgr_ok (co_block_pools c ! pool_index c 0) (co_managers c ! 0)" using k(3) by (simp add: co_owns_def)
    then have "0 < st_block_size (co_managers c ! 0)" by (simp add: mgr_ok_def st_ok_def)
    then show ?thesis using len k pool g ok(2) by (simp add: co_lookup_ok_def lookup_cfg_def)
  next
    case 3
    then obtain c0 where c0: "coordinator_init Hybrid cfg mml mif eagle caching events use_int dcp pcp sbs hbs npl = Inr c0"
      "hybrid_init dcp pcp c0 = Inr c" using run by (auto simp: get_kv_cache_coordinator_def bindE_eq_Inr)
    have "co_kind c = Hybrid" using coordinator_init_owns [OF ok(1) c0(1)] hybrid_init_owns [OF _ c0(2)] by auto
    then show ?thesis using hybrid_init_lookup_ok [OF c0 ok(2)] by (simp add: co_lookup_ok_def)
  qed
qed

lemma get_kv_cache_coordinator_pools:
  assumes "get_kv_cache_coordinator cfg mml mif eagle caching events use_int dcp pcp sbs hbs npl = Inr c"
  shows "length (co_block_pools c) = num_pools cfg"
proof -
  have i: "length (co_block_pools c0) = num_pools cfg"
    if "coordinator_init kind cfg mml mif eagle ca events use_int dcp pcp sbs hbs npl = Inr c0" for kind ca c0
    using that by (auto simp: coordinator_init_def Let_def bindE_eq_Inr split: if_split_asm dest: mapE_nth(1))
  have u: "co_block_pools c1 = co_block_pools c0" if "unitary_init c0 = Inr c1" for c0 c1
    using that by (auto simp: unitary_init_def split: list.split_asm if_split_asm)
  have h: "co_block_pools c1 = co_block_pools c0" if "hybrid_init dcp pcp c0 = Inr c1" for c0 c1
    using that by (auto simp: hybrid_init_def verify_and_split_kv_cache_groups_def settle_alignment_def Let_def split: list.split_asm if_split_asm)
  show ?thesis using assms i u h by (auto simp: get_kv_cache_coordinator_def bindE_eq_Inr split: if_split_asm)
qed

lemma co_find_spec:
  assumes own: "co_owns ex c" and ok: "co_lookup_ok c" and len: "0 \<le> max_len"
  shows "\<exists>r. co_find_longest_cache_hit c hashes max_len = Some r \<and> (\<forall>blocks hit u. r = Inr (blocks, hit, u) \<longrightarrow>
    length blocks = length (co_managers c) \<and> hits_ok c blocks \<and> 0 \<le> hit \<and> hit \<le> max_len \<and> 0 \<le> u)"
proof (cases "co_kind c")
  case NoPrefixCache
  then show ?thesis using len by (simp add: co_find_longest_cache_hit_def hits_ok_def)
next
  case Unitary
  let ?m = "co_managers c ! 0"
  have u: "length (co_managers c) = 1" "pool_index c 0 = 0" "spec_ok (group_spec (cfg_groups (co_config c) ! 0))" "0 < st_block_size ?m"
    using ok Unitary by (simp_all add: co_lookup_ok_def)
  have "pool_index c 0 < length (co_block_pools c)" using own u(1) unfolding co_owns_def by (metis less_one)
  then have "0 < length (co_block_pools c)" using u(2) by simp
  note P = co_owns_pool [OF own this]
  have "length blocks = 1 \<and> hits_ok c blocks \<and> 0 \<le> n \<and> n \<le> max_len"
    if f: "find_longest_cache_hit (co_block_pools c ! 0) (group_spec (cfg_groups (co_config c) ! 0)) (Raw hashes) max_len
      [0] e (st_block_size ?m) d q = Inr (blocks, n)" for blocks n e d q
    using find_hit_spec [OF P u(3,4) len f] u(1,2) by (auto simp: hits_ok_def cols_in_def cols_len_def length_Suc_conv)
  then show ?thesis using u(1) Unitary
    by (auto simp: co_find_longest_cache_hit_def unitary_find_longest_cache_hit_def Let_def bindE_eq_Inr)
next
  case Hybrid
  then have l: "lookup_ok c" using ok by (simp add: co_lookup_ok_def)
  from hybrid_find_spec [OF own l len] obtain r where r: "hybrid_find_longest_cache_hit c hashes max_len = Some r"
    and R: "\<And>blocks hit u. r = Inr (blocks, hit, u) \<Longrightarrow> length blocks = length (co_managers c) \<and> 0 \<le> hit \<and> hit \<le> max_len \<and> 0 \<le> u \<and>
      (\<forall>g \<in> set (co_attention_groups c). group_hit c hashes hit blocks g) \<and>
      (\<forall>i < length blocks. (\<forall>g \<in> set (co_attention_groups c). i \<notin> set (sg_group_ids g)) \<longrightarrow> blocks ! i = [])" by blast
  have "hits_ok c blocks" if "r = Inr (blocks, hit, u)" for blocks hit u
    unfolding hits_ok_def using R [OF that] group_hit_in [OF own l] by (metis empty_iff empty_set)
  then show ?thesis using r R Hybrid by (auto simp: co_find_longest_cache_hit_def)
qed


section \<open>Properties\<close>

definition demo_cfg :: kv_cache_config where
  "demo_cfg = \<lparr>cfg_num_blocks = 4, cfg_groups =
     [\<lparr>group_spec = \<lparr>spec_kind = FullAttentionSpec, spec_block_size = 2, spec_rest = 0\<rparr>, is_eagle_group = False, group_pool_id = 0\<rparr>,
      \<lparr>group_spec = \<lparr>spec_kind = SlidingWindowSpec 3 0, spec_block_size = 2, spec_rest = 0\<rparr>, is_eagle_group = False, group_pool_id = 0\<rparr>],
     cfg_retention_interval = None, has_mixed_precision_kv_cache = False\<rparr>"

lemma demo_coordinator_exists: "\<exists>c. get_kv_cache_coordinator demo_cfg 16 16 False True False False 1 1 2 2 0 = Inr c"
proof -
  have "case get_kv_cache_coordinator demo_cfg 16 16 False True False False 1 1 2 2 0 of Inl _ \<Rightarrow> False | Inr _ \<Rightarrow> True"
    by code_simp
  then show ?thesis by (auto split: sum.split_asm)
qed

end
