(* ===== verification/KV_Manager.thy ===== *)
theory KV_Manager
  imports Lookup
begin

text \<open>
  \<^verbatim>\<open>v1/core/kv_cache_manager.py\<close>: the interface between the scheduler and the coordinator. The watermark is a
  float in the code; the constructor gets the outcome of its sign test and the number of blocks it stands for. The
  metadata of the groups for events and \<^verbatim>\<open>request.kv_cache_report_mode == "full"\<close> are arguments too.
\<close>

section \<open>State\<close>

text \<open>
  \<^verbatim>\<open>KVCacheBlocks\<close>. The code asks whether a value \<^emph>\<open>is\<close> the preconstructed empty object, so that object has its own
  constructor.
\<close>

datatype kv_cache_blocks = EmptyKVCacheBlocks | KVCacheBlocks "nat list list"

record prefix_cache_stats =
  ps_reset :: bool
  ps_requests :: int
  ps_queries :: int
  ps_hits :: int
  ps_preempted_requests :: int
  ps_preempted_queries :: int
  ps_preempted_hits :: int

definition empty_stats :: prefix_cache_stats where
  "empty_stats = \<lparr>ps_reset = False, ps_requests = 0, ps_queries = 0, ps_hits = 0,
     ps_preempted_requests = 0, ps_preempted_queries = 0, ps_preempted_hits = 0\<rparr>"

definition stats_record :: "int \<Rightarrow> int \<Rightarrow> bool \<Rightarrow> prefix_cache_stats \<Rightarrow> prefix_cache_stats" where
  "stats_record num_toks num_hits preempted s =
     (if preempted
      then s\<lparr>ps_preempted_requests := ps_preempted_requests s + 1, ps_preempted_queries := ps_preempted_queries s + num_toks,
             ps_preempted_hits := ps_preempted_hits s + num_hits\<rparr>
      else s\<lparr>ps_requests := ps_requests s + 1, ps_queries := ps_queries s + num_toks, ps_hits := ps_hits s + num_hits\<rparr>)"

record kv_manager =
  kvm_max_model_len :: int
  kvm_enable_caching :: bool
  kvm_enable_kv_cache_events :: bool
  kvm_log_stats :: bool
  kvm_prefix_cache_stats :: "prefix_cache_stats option"
  kvm_coordinator :: coordinator
  kvm_watermark_blocks :: int
  kvm_event_metadata :: "(string \<times> int option) list"
  kvm_partial_tail_pins :: "string \<rightharpoonup> pool_block list"

abbreviation kvm_groups :: "kv_manager \<Rightarrow> kv_group list" where
  "kvm_groups k \<equiv> cfg_groups (co_config (kvm_coordinator k))"

definition kv_manager_init ::
  "kv_cache_config \<Rightarrow> int \<Rightarrow> int \<Rightarrow> int \<Rightarrow> int option \<Rightarrow> bool \<Rightarrow> bool \<Rightarrow> int \<Rightarrow> bool \<Rightarrow> bool \<Rightarrow> bool \<Rightarrow> int \<Rightarrow> int \<Rightarrow>
   bool \<Rightarrow> int \<Rightarrow> (string \<times> int option) list \<Rightarrow> kv_manager result" where
  "kv_manager_init cfg max_model_len sched_bs hbs max_in_flight caching use_eagle num_prefill_lookahead log_stats events
     use_int dcp pcp watermark_nonneg watermark_blocks metadata =
     bindE (get_kv_cache_coordinator cfg max_model_len (case max_in_flight of None \<Rightarrow> max_model_len | Some n \<Rightarrow> n) use_eagle
              caching events use_int dcp pcp sched_bs hbs num_prefill_lookahead) (\<lambda>c.
       if \<not> watermark_nonneg then Inl AssertionError
       else Inr \<lparr>kvm_max_model_len = max_model_len, kvm_enable_caching = caching, kvm_enable_kv_cache_events = events,
                 kvm_log_stats = log_stats, kvm_prefix_cache_stats = (if log_stats then Some empty_stats else None),
                 kvm_coordinator = c, kvm_watermark_blocks = watermark_blocks, kvm_event_metadata = metadata,
                 kvm_partial_tail_pins = Map.empty\<rparr>)"

definition kvm_blocks :: "kv_manager \<Rightarrow> kv_cache_blocks \<Rightarrow> nat list list" where
  "kvm_blocks k b = (case b of EmptyKVCacheBlocks \<Rightarrow> replicate (length (kvm_groups k)) [] | KVCacheBlocks bs \<Rightarrow> bs)"

definition create_kv_cache_blocks :: "nat list list \<Rightarrow> kv_cache_blocks" where
  "create_kv_cache_blocks bs = (if \<exists>b \<in> set bs. b \<noteq> [] then KVCacheBlocks bs else EmptyKVCacheBlocks)"

section \<open>The pools behind the coordinator\<close>

text \<open>\<^verbatim>\<open>self.block_pool\<close> is the only pool, or a collection when there are several.\<close>

definition co_num_free_blocks :: "coordinator \<Rightarrow> int" where
  "co_num_free_blocks c =
     (if length (co_block_pools c) = 1 then get_num_free_blocks (co_block_pools c ! 0)
      else collection_num_free_blocks (co_block_pools c))"

definition co_free_blocks :: "pool_block list \<Rightarrow> coordinator \<Rightarrow> coordinator result" where
  "co_free_blocks refs c =
     (if length (co_block_pools c) = 1
      then bindE (free_blocks (map snd refs) (co_block_pools c ! 0)) (\<lambda>p. Inr (c\<lparr>co_block_pools := [p]\<rparr>))
      else bindE (collection_free_blocks refs (co_block_pools c)) (\<lambda>ps. Inr (c\<lparr>co_block_pools := ps\<rparr>)))"

definition kvm_evict_blocks :: "int list \<Rightarrow> kv_manager \<Rightarrow> kv_manager result" where
  "kvm_evict_blocks ids k =
     (let c = kvm_coordinator k
      in bindE (collection_evict_blocks ids (co_block_pools c)) (\<lambda>ps.
           Inr (k\<lparr>kvm_coordinator := c\<lparr>co_block_pools := ps\<rparr>\<rparr>)))"

definition kvm_reset_prefix_cache :: "kv_manager \<Rightarrow> (bool \<times> kv_manager) result" where
  "kvm_reset_prefix_cache k =
     (let c = kvm_coordinator k;
          (ok, ps) = (if length (co_block_pools c) = 1
                      then (let (ok, p) = reset_prefix_cache (co_block_pools c ! 0) in (ok, [p]))
                      else collection_reset_prefix_cache (co_block_pools c));
          k1 = k\<lparr>kvm_coordinator := c\<lparr>co_block_pools := ps\<rparr>\<rparr>
      in if \<not> ok then Inr (False, k1)
         else if kvm_log_stats k
         then (case kvm_prefix_cache_stats k of
                 None \<Rightarrow> Inl AssertionError
               | Some s \<Rightarrow> Inr (True, k1\<lparr>kvm_prefix_cache_stats := Some (s\<lparr>ps_reset := True\<rparr>)\<rparr>))
         else Inr (True, k1))"

section \<open>Statistics\<close>

definition make_prefix_cache_stats :: "kv_manager \<Rightarrow> prefix_cache_stats option \<times> kv_manager" where
  "make_prefix_cache_stats k =
     (if \<not> kvm_log_stats k then (None, k)
      else (kvm_prefix_cache_stats k, k\<lparr>kvm_prefix_cache_stats := Some empty_stats\<rparr>))"

definition prefix_cache_lookup_enabled :: "kv_manager \<Rightarrow> request \<Rightarrow> bool" where
  "prefix_cache_lookup_enabled k r \<longleftrightarrow> kvm_enable_caching k \<and> \<not> skip_reading_prefix_cache r"

definition record_prefix_cache_stats :: "request \<Rightarrow> int \<Rightarrow> kv_manager \<Rightarrow> kv_manager result" where
  "record_prefix_cache_stats r num_hits k =
     (if \<not> kvm_log_stats k \<or> \<not> prefix_cache_lookup_enabled k r then Inr k
      else (case kvm_prefix_cache_stats k of
              None \<Rightarrow> Inl AssertionError
            | Some s \<Rightarrow>
                Inr (k\<lparr>kvm_prefix_cache_stats := Some (stats_record (num_tokens r) num_hits (num_preemptions r > 0) s)\<rparr>)))"

section \<open>Lookup\<close>

definition emit_group_events ::
  "(bytes list \<Rightarrow> bytes) \<Rightarrow> nat \<times> nat list \<Rightarrow> request \<times> coordinator \<Rightarrow> (request \<times> coordinator) result" where
  "emit_group_events embeds_digest ib rc =
     (let (i, bs) = ib; (r, c) = rc
      in if bs = [] then Inr (r, c)
         else
           bindE (emit_cached_block_events embeds_digest r (length bs) (spec_block_size (group_spec (cfg_groups (co_config c) ! i)))
                    (int i) (co_block_pools c ! pool_index c i)) (\<lambda>(r', p).
             Inr (r', c\<lparr>co_block_pools := (co_block_pools c)[pool_index c i := p]\<rparr>)))"

definition get_computed_blocks ::
  "(bytes list \<Rightarrow> bytes) \<Rightarrow> bool \<Rightarrow> request \<Rightarrow> kv_manager \<Rightarrow> (kv_cache_blocks \<times> int \<times> int \<times> request \<times> kv_manager) result option" where
  "get_computed_blocks embeds_digest report_full r k =
     (if \<not> prefix_cache_lookup_enabled k r then Some (Inr (EmptyKVCacheBlocks, 0, 0, r, k))
      else
        map_option (\<lambda>res. bindE res (\<lambda>(blocks, n, num_uncached).
          bindE (if n > 0 \<and> kvm_enable_kv_cache_events k \<and> report_full
                 then foldE (emit_group_events embeds_digest) (enumerate 0 blocks) (r, kvm_coordinator k)
                 else Inr (r, kvm_coordinator k)) (\<lambda>(r', c').
            Inr (create_kv_cache_blocks blocks, n, if num_uncached \<noteq> 0 then n + num_uncached else 0, r',
                 k\<lparr>kvm_coordinator := c'\<rparr>))))
        (co_find_longest_cache_hit (kvm_coordinator k) (block_hashes r) (num_tokens r - 1)))"

definition get_computed_blocks_for_connector ::
  "(bytes list \<Rightarrow> bytes) \<Rightarrow> bool \<Rightarrow> request \<Rightarrow> kv_manager \<Rightarrow>
   (kv_cache_blocks \<times> int \<times> int \<times> bool \<times> request \<times> kv_manager) result option" where
  "get_computed_blocks_for_connector embeds_digest report_full r k =
     (let c = kvm_coordinator k;
          fallback = map_option (\<lambda>res. bindE res (\<lambda>(bs, n, b, r', k'). Inr (bs, n, b, False, r', k')))
                       (get_computed_blocks embeds_digest report_full r k)
      in case (if has_mamba_layers (co_config c) \<and> co_kind c = Hybrid then co_full_attention_group_id c else None) of
           None \<Rightarrow> fallback
         | Some fa \<Rightarrow>
             if \<not> prefix_cache_lookup_enabled k r then Some (Inr (EmptyKVCacheBlocks, 0, 0, False, r, k))
             else
               (case find_longest_cache_hit_per_group c (block_hashes r) (num_tokens r - 1) of
                  Inl e \<Rightarrow> Some (Inl e)
                | Inr (computed, hits) \<Rightarrow>
                    if \<exists>h \<in> set hits. h > hits ! fa then fallback
                    else Some (Inr (create_kv_cache_blocks computed, hits ! fa, 0, Min (set hits) < hits ! fa, r, k))))"

section \<open>Allocation\<close>

definition watermark_for :: "request \<Rightarrow> bool \<Rightarrow> kv_manager \<Rightarrow> int" where
  "watermark_for r has_scheduled_reqs k =
     (if has_scheduled_reqs \<and> (status r = WAITING \<or> status r = PREEMPTED) then kvm_watermark_blocks k else 0)"

text \<open>The gate of \<^verbatim>\<open>full_sequence_must_fit\<close>: whether the whole sequence fits.\<close>

definition full_sequence_fits ::
  "request \<Rightarrow> nat list list \<Rightarrow> int \<Rightarrow> int \<Rightarrow> int \<Rightarrow> int \<Rightarrow> kv_manager \<Rightarrow> (bool \<times> coordinator) result" where
  "full_sequence_fits r hits num_encoder_tokens total_computed num_local watermark k =
     (let n = min (num_tokens r) (kvm_max_model_len k)
      in bindE (co_get_num_blocks_to_allocate (request_id r) n hits num_encoder_tokens total_computed num_local n True
                  (kvm_coordinator k)) (\<lambda>(need, c). Inr (need + watermark \<le> co_num_free_blocks c, c)))"

text \<open>The allocation proper, once the blocks are known to be there.\<close>

definition commit_slots ::
  "(bytes list \<Rightarrow> bytes) \<Rightarrow> request \<Rightarrow> kv_cache_blocks \<Rightarrow> int \<Rightarrow> int \<Rightarrow> int \<Rightarrow> int \<Rightarrow> int \<Rightarrow> bool \<Rightarrow> kv_manager \<Rightarrow> coordinator \<Rightarrow>
   (kv_cache_blocks \<times> request \<times> coordinator) result" where
  "commit_slots embeds_digest r new_computed num_local num_external need_slot main num_encoder_tokens delay_cache_blocks k c =
     bindE (if new_computed \<noteq> EmptyKVCacheBlocks \<or> num_external > 0
            then co_allocate_new_computed_blocks (request_id r) (kvm_blocks k new_computed) num_local num_external c
            else Inr c) (\<lambda>c1.
     bindE (co_allocate_new_blocks (request_id r) need_slot main num_encoder_tokens c1) (\<lambda>(new_blocks, c2).
       if \<not> kvm_enable_caching k \<or> delay_cache_blocks then Inr (create_kv_cache_blocks new_blocks, r, c2)
       else
         bindE (co_cache_blocks embeds_digest r (min main (num_tokens r)) c2) (\<lambda>(r', c3).
           Inr (create_kv_cache_blocks new_blocks, r', c3))))"

definition allocate_slots ::
  "(bytes list \<Rightarrow> bytes) \<Rightarrow> request \<Rightarrow> int \<Rightarrow> int \<Rightarrow> kv_cache_blocks \<Rightarrow> int \<Rightarrow> int \<Rightarrow> bool \<Rightarrow> int \<Rightarrow> bool \<Rightarrow> int \<Rightarrow> bool \<Rightarrow>
   kv_manager \<Rightarrow> (kv_cache_blocks option \<times> request \<times> kv_manager) result" where
  "allocate_slots embeds_digest r num_new_tokens num_new_computed new_computed num_lookahead num_external delay_cache_blocks
     num_encoder_tokens full_sequence_must_fit reserved_blocks has_scheduled_reqs k =
     (if num_new_tokens = 0 \<and> num_external = 0 then Inl ValueError
      else
        (let hits = kvm_blocks k new_computed;
             num_local = num_computed_tokens r + num_new_computed;
             total_computed = min (num_local + num_external) (kvm_max_model_len k);
             watermark = watermark_for r has_scheduled_reqs k
         in bindE (if full_sequence_must_fit
                   then full_sequence_fits r hits num_encoder_tokens total_computed num_local watermark k
                   else Inr (True, kvm_coordinator k)) (\<lambda>(fits, c0).
              if \<not> fits then Inr (None, r, k\<lparr>kvm_coordinator := c0\<rparr>)
              else
                (let main = total_computed + num_new_tokens;
                     need_slot = min (main + num_lookahead) (kvm_max_model_len k)
                 in bindE (co_remove_skipped_blocks (request_id r) (max 0 (total_computed - num_in_flight_tokens r))
                             (Some (num_prompt_tokens r)) c0) (\<lambda>c1.
                    bindE (co_get_num_blocks_to_allocate (request_id r) need_slot hits num_encoder_tokens
                             (num_local + num_external) num_local main False c1) (\<lambda>(need, c2).
                      if need + watermark > co_num_free_blocks c2 - reserved_blocks then Inr (None, r, k\<lparr>kvm_coordinator := c2\<rparr>)
                      else
                        bindE (commit_slots embeds_digest r new_computed num_local num_external need_slot main
                                 num_encoder_tokens delay_cache_blocks k c2) (\<lambda>(blocks, r', c3).
                          Inr (Some blocks, r', k\<lparr>kvm_coordinator := c3\<rparr>))))))))"

section \<open>Release\<close>

definition kvm_free :: "string \<Rightarrow> kv_manager \<Rightarrow> kv_manager result" where
  "kvm_free rid k =
     (let k1 = k\<lparr>kvm_partial_tail_pins := (kvm_partial_tail_pins k)(rid := None)\<rparr>
      in bindE (case kvm_partial_tail_pins k rid of
                  None \<Rightarrow> Inr (kvm_coordinator k)
                | Some pins \<Rightarrow> if pins = [] then Inr (kvm_coordinator k) else co_free_blocks pins (kvm_coordinator k)) (\<lambda>c.
         bindE (co_free rid c) (\<lambda>c'. Inr (k1\<lparr>kvm_coordinator := c'\<rparr>))))"

definition kvm_remove_skipped_blocks :: "string \<Rightarrow> int \<Rightarrow> int option \<Rightarrow> kv_manager \<Rightarrow> kv_manager result" where
  "kvm_remove_skipped_blocks rid processed num_prompt k =
     bindE (co_remove_skipped_blocks rid processed num_prompt (kvm_coordinator k)) (\<lambda>c. Inr (k\<lparr>kvm_coordinator := c\<rparr>))"

definition kvm_pop_blocks_for_free :: "string \<Rightarrow> kv_manager \<Rightarrow> (pool_block list \<times> kv_manager) result" where
  "kvm_pop_blocks_for_free rid k =
     bindE (co_pop_blocks_for_free rid (kvm_coordinator k)) (\<lambda>(refs, c). Inr (refs, k\<lparr>kvm_coordinator := c\<rparr>))"

definition kvm_cache_blocks :: "(bytes list \<Rightarrow> bytes) \<Rightarrow> request \<Rightarrow> int \<Rightarrow> kv_manager \<Rightarrow> (request \<times> kv_manager) result" where
  "kvm_cache_blocks embeds_digest r num_computed k =
     (if kvm_enable_caching k
      then bindE (co_cache_blocks embeds_digest r num_computed (kvm_coordinator k)) (\<lambda>(r', c). Inr (r', k\<lparr>kvm_coordinator := c\<rparr>))
      else Inr (r, k))"

definition kvm_new_step_starts :: "kv_manager \<Rightarrow> kv_manager" where
  "kvm_new_step_starts k = k\<lparr>kvm_coordinator := co_new_step_starts (kvm_coordinator k)\<rparr>"

definition kvm_get_num_common_prefix_blocks :: "string \<Rightarrow> kv_manager \<Rightarrow> (int list \<times> kv_manager) result" where
  "kvm_get_num_common_prefix_blocks rid k =
     bindE (co_get_num_common_prefix_blocks rid (kvm_coordinator k)) (\<lambda>(ns, c). Inr (ns, k\<lparr>kvm_coordinator := c\<rparr>))"

section \<open>Views of the blocks of a request\<close>

definition kvb_add :: "kv_manager \<Rightarrow> kv_cache_blocks \<Rightarrow> kv_cache_blocks \<Rightarrow> kv_cache_blocks" where
  "kvb_add k a b = KVCacheBlocks (map (\<lambda>(x, y). x @ y) (zip (kvm_blocks k a) (kvm_blocks k b)))"

text \<open>Block \<^verbatim>\<open>b\<close> of group \<^verbatim>\<open>i\<close>.\<close>

definition group_block :: "kv_manager \<Rightarrow> nat \<Rightarrow> nat \<Rightarrow> kv_cache_block" where
  "group_block k i b = blk (co_block_pools (kvm_coordinator k) ! pool_index (kvm_coordinator k) i) b"

definition kvb_get_block_ids :: "kv_manager \<Rightarrow> bool \<Rightarrow> kv_cache_blocks \<Rightarrow> int list list option" where
  "kvb_get_block_ids k allow_none b =
     (if allow_none \<and> (\<forall>bs \<in> set (kvm_blocks k b). bs = []) then None
      else Some (map (\<lambda>(i, bs). map (block_id \<circ> group_block k i) bs) (enumerate 0 (kvm_blocks k b))))"

definition kvb_get_unhashed_block_ids :: "kv_manager \<Rightarrow> kv_cache_blocks \<Rightarrow> int list result" where
  "kvb_get_unhashed_block_ids k b =
     (if length (kvm_blocks k b) \<noteq> 1 then Inl AssertionError
      else Inr (map block_id (filter (\<lambda>x. block_hash x = None) (map (group_block k 0) (kvm_blocks k b ! 0)))))"

definition kvb_get_unhashed_block_ids_all_groups :: "kv_manager \<Rightarrow> kv_cache_blocks \<Rightarrow> int list list" where
  "kvb_get_unhashed_block_ids_all_groups k b =
     map (\<lambda>(i, bs). map block_id (filter (\<lambda>x. block_hash x = None \<and> \<not> is_null x) (map (group_block k i) bs)))
       (enumerate 0 (kvm_blocks k b))"

definition kvb_new_empty :: "kv_manager \<Rightarrow> kv_cache_blocks \<Rightarrow> kv_cache_blocks" where
  "kvb_new_empty k b = KVCacheBlocks (replicate (length (kvm_blocks k b)) [])"

definition kvm_get_blocks :: "string \<Rightarrow> kv_manager \<Rightarrow> kv_cache_blocks" where
  "kvm_get_blocks rid k = create_kv_cache_blocks (co_get_blocks rid (kvm_coordinator k))"

definition kvm_get_block_ids :: "string \<Rightarrow> kv_manager \<Rightarrow> int list list" where
  "kvm_get_block_ids rid k = the (kvb_get_block_ids k False (kvm_get_blocks rid k))"

definition get_block_ids_for_computed_tokens :: "string \<Rightarrow> int \<Rightarrow> kv_manager \<Rightarrow> int list list" where
  "get_block_ids_for_computed_tokens rid num_computed k =
     map (\<lambda>(g, ids).
            if \<not> is_attention (spec_kind (group_spec g)) \<or> spec_kind (group_spec g) = CrossAttentionSpec then ids
            else py_slice ids 0 (cdiv num_computed (spec_block_size (group_spec g))))
       (zip (kvm_groups k) (kvm_get_block_ids rid k))"

definition estimate_cached_tokens :: "string \<Rightarrow> kv_manager \<Rightarrow> int" where
  "estimate_cached_tokens rid k =
     (let cached = fold (\<lambda>(i, g, bs) acc.
            if spec_kind (group_spec g) = CrossAttentionSpec then acc
            else
              (let n = fold (\<lambda>b n. max n (case block_hash_num_tokens (group_block k i b) of None \<Rightarrow> 0 | Some x \<Rightarrow> x)) bs 0
               in case acc of None \<Rightarrow> Some n | Some a \<Rightarrow> Some (min a n)))
            (enumerate 0 (zip (kvm_groups k) (kvm_blocks k (kvm_get_blocks rid k)))) None
      in case cached of None \<Rightarrow> 0 | Some n \<Rightarrow> n)"

text \<open>\<^verbatim>\<open>zip(..., strict=True)\<close> raises after the last common position.\<close>

definition truncate_group_blocks :: "int \<Rightarrow> nat list \<times> stm \<times> kv_group \<Rightarrow> nat list result" where
  "truncate_group_blocks num_computed x =
     (let (bs, m, g) = x
      in if \<not> participates_in_prefix_caching (spec_kind (group_spec g))
         then (if bs = [] then Inr [] else Inl AssertionError)
         else if num_computed mod st_block_size m \<noteq> 0 then Inl AssertionError
         else
           (let n = num_computed div st_block_size m
            in if is_mamba (spec_kind (group_spec g)) then Inr (py_slice bs 0 (min n (int (length bs))))
               else if n \<le> int (length bs) then Inr (py_slice bs 0 n) else Inl AssertionError))"

definition truncate_computed_blocks :: "kv_cache_blocks \<Rightarrow> int \<Rightarrow> kv_manager \<Rightarrow> kv_cache_blocks result" where
  "truncate_computed_blocks b num_computed k =
     (let bs = kvm_blocks k b; ms = co_managers (kvm_coordinator k); gs = kvm_groups k
      in bindE (mapE (truncate_group_blocks num_computed) (zip bs (zip ms gs))) (\<lambda>truncated.
           if length bs = length ms \<and> length ms = length gs then Inr (create_kv_cache_blocks truncated)
           else Inl ValueError))"

section \<open>Draining the queues of the managers\<close>

text \<open>An id for the worker: plain with one pool, \<^verbatim>\<open>KVCacheBlockRef\<close> with several.\<close>

datatype block_ref = BlockId int | KVCacheBlockRef int int

definition to_ref :: "coordinator \<Rightarrow> block_pool \<Rightarrow> int \<Rightarrow> block_ref" where
  "to_ref c p i = (if num_pools (co_config c) = 1 then BlockId i else KVCacheBlockRef i (pool_pool_id p))"

definition take_ids_step :: "coordinator \<Rightarrow> block_ref list manager_step" where
  "take_ids_step c i acc p m = (let (ids, m') = take_new_block_ids m in Inr (acc @ map (to_ref c p) ids, p, m'))"

definition kvm_take_new_block_ids :: "kv_manager \<Rightarrow> (block_ref list \<times> kv_manager) result" where
  "kvm_take_new_block_ids k =
     bindE (for_managers (take_ids_step (kvm_coordinator k)) [] (kvm_coordinator k)) (\<lambda>(ids, c).
       Inr (ids, k\<lparr>kvm_coordinator := c\<rparr>))"

definition zeroing_step :: "coordinator \<Rightarrow> string \<Rightarrow> int \<Rightarrow> int \<Rightarrow> block_ref list manager_step" where
  "zeroing_step c rid start_token end_token i acc p m =
     (if \<not> st_record_new_block_ids m then Inr (acc, p, m)
      else
        (let m' = open_req rid m;
             bs = py_slice (req_blocks rid m') (start_token div st_block_size m) (cdiv end_token (st_block_size m))
         in Inr (acc @ map (\<lambda>b. to_ref c p (block_id (blk p b))) bs, p, m')))"

definition get_zeroing_block_ids_in_range :: "string \<Rightarrow> int \<Rightarrow> int \<Rightarrow> kv_manager \<Rightarrow> (block_ref list \<times> kv_manager) result" where
  "get_zeroing_block_ids_in_range rid start_token end_token k =
     bindE (for_managers (zeroing_step (kvm_coordinator k) rid start_token end_token) [] (kvm_coordinator k)) (\<lambda>(ids, c).
       Inr (ids, k\<lparr>kvm_coordinator := c\<rparr>))"

definition record_zeroing_step :: "string \<Rightarrow> int \<Rightarrow> unit manager_step" where
  "record_zeroing_step rid start_token i u p m =
     (if \<not> st_record_new_block_ids m then Inr (u, p, m)
      else if start_token mod st_block_size m \<noteq> 0 then Inl AssertionError
      else
        (let m' = open_req rid m; bs = req_blocks rid m'
         in Inr (u, p, record_new_block_ids (py_slice bs (start_token div st_block_size m) (int (length bs))) p m')))"

definition record_blocks_for_zeroing :: "string \<Rightarrow> int \<Rightarrow> kv_manager \<Rightarrow> kv_manager result" where
  "record_blocks_for_zeroing rid start_token k =
     bindE (for_managers (record_zeroing_step rid start_token) () (kvm_coordinator k)) (\<lambda>(_, c). Inr (k\<lparr>kvm_coordinator := c\<rparr>))"

text \<open>The source and destination of a copy, and the two endpoints the caller now holds.\<close>

definition take_copies_step :: "coordinator \<Rightarrow> (pool_block \<times> nat) list manager_step" where
  "take_copies_step c i acc p m =
     (let (copies, m') = take_pending_cow_copies m
      in Inr (acc @ map (\<lambda>(src, dst). ((pool_index c i, src), dst)) copies, p, m'))"

definition take_kv_cache_block_copies :: "kv_manager \<Rightarrow> ((int \<times> int \<times> int) list \<times> pool_block list \<times> kv_manager) result" where
  "take_kv_cache_block_copies k =
     (let c = kvm_coordinator k; pool = (\<lambda>i. co_block_pools c ! i)
      in bindE (for_managers (take_copies_step c) [] c) (\<lambda>(pending, c').
           Inr (map (\<lambda>((i, src), dst). (block_id (blk (pool i) src), block_id (blk (pool i) dst), pool_id (blk (pool i) src))) pending,
                concat (map (\<lambda>((i, src), dst). [(i, src), (i, dst)]) pending), k\<lparr>kvm_coordinator := c'\<rparr>)))"

type_synonym offloads = "(string \<times> (int \<times> int \<times> int) list) list"

definition add_offload :: "block_pool \<Rightarrow> string \<times> int \<times> nat \<times> int \<Rightarrow> offloads \<Rightarrow> offloads" where
  "add_offload p x acc =
     (let (rid, gid, b, boundary) = x; old = (case map_of acc rid of None \<Rightarrow> [] | Some os \<Rightarrow> os)
      in AList.update rid (old @ [(gid, block_id (blk p b), boundary)]) acc)"

definition take_offloads_step :: "offloads manager_step" where
  "take_offloads_step i acc p m =
     (let (os, m') = take_pending_boundary_state_offloads m in Inr (fold (add_offload p) os acc, p, m'))"

definition take_boundary_state_offloads :: "kv_manager \<Rightarrow> (offloads \<times> kv_manager) result" where
  "take_boundary_state_offloads k =
     bindE (for_managers take_offloads_step [] (kvm_coordinator k)) (\<lambda>(os, c). Inr (os, k\<lparr>kvm_coordinator := c\<rparr>))"

text \<open>\<^verbatim>\<open>take_events\<close>: a stored block is annotated with the kind and the window of its group.\<close>

definition annotate_event :: "(string \<times> int option) list \<Rightarrow> kv_event \<Rightarrow> kv_event \<times> (string \<times> int option) option" where
  "annotate_event metadata e =
     (e, case e of
           BlockStored s \<Rightarrow>
             if bs_group_idx s < 0 \<or> bs_group_idx s \<ge> int (length metadata) then None
             else Some (metadata ! nat (bs_group_idx s))
         | _ \<Rightarrow> None)"

definition kvm_take_events :: "kv_manager \<Rightarrow> (kv_event \<times> (string \<times> int option) option) list \<times> kv_manager" where
  "kvm_take_events k =
     (let c = kvm_coordinator k;
          (events, ps) = (if length (co_block_pools c) = 1
                          then (let (es, p) = take_events (co_block_pools c ! 0) in (es, [p]))
                          else collection_take_events (co_block_pools c))
      in (map (annotate_event (kvm_event_metadata k)) events, k\<lparr>kvm_coordinator := c\<lparr>co_block_pools := ps\<rparr>\<rparr>))"


section \<open>Operations that change pools only\<close>

definition pool_keeps :: "block_pool \<Rightarrow> block_pool \<Rightarrow> bool" where
  "pool_keeps p p' \<longleftrightarrow> pool_same p p' \<and> ((\<exists>xs. pool_rep p xs) \<longrightarrow> (\<exists>xs. pool_rep p' xs)) \<and> (\<forall>b. ref_cnt (blk p' b) = ref_cnt (blk p b))"

lemma pool_keeps_refl [simp]: "pool_keeps p p"
  by (simp add: pool_keeps_def)

lemma pool_keeps_trans: "pool_keeps p q \<Longrightarrow> pool_keeps q r \<Longrightarrow> pool_keeps p r"
  using pool_same_trans by (auto simp: pool_keeps_def)

lemma kept_pool_keeps: "kept p p' \<Longrightarrow> pool_keeps p p'"
  using kept_pool_rep by (auto simp: pool_keeps_def kept_def)

lemma pool_keeps_events [simp]: "pool_keeps p (p'\<lparr>kv_event_queue := es\<rparr>) = pool_keeps p p'"
proof -
  have "pool_rep (p'\<lparr>kv_event_queue := es\<rparr>) xs = pool_rep p' xs" for xs
    by (simp add: pool_rep_def pool_core_def pool_shape_def hash_ok_def refs_ok_def all_block_hashes_def)
  then show ?thesis by (simp add: pool_keeps_def pool_same_def)
qed

lemma co_keeps_pools:
  assumes own: "co_owns ex c" and len: "length ps = length (co_block_pools c)"
    and keep: "\<And>k. k < length ps \<Longrightarrow> pool_keeps (co_block_pools c ! k) (ps ! k)"
  shows "co_keeps ex c (c\<lparr>co_block_pools := ps\<rparr>)"
proof -
  have "held (c\<lparr>co_block_pools := ps\<rparr>) k b = held c k b" for k b by (simp add: held_def)
  moreover have "mgr_ok (ps ! k) m" if "k < length ps" "mgr_ok (co_block_pools c ! k) m" for k m
    using mgr_ok_same keep [OF that(1)] that(2) by (auto simp: pool_keeps_def)
  moreover have "num_gpu_blocks (ps ! k) = num_gpu_blocks (co_block_pools c ! k)" if "k < length ps" for k
    using keep [OF that] by (simp add: pool_keeps_def pool_same_n)
  ultimately show ?thesis
    using own len keep by (auto simp: co_keeps_def co_owns_def co_same_def pool_keeps_def)
qed

lemma evict_blocks_kept:
  assumes "evict_blocks ids p = Inr p'" and "hash_ok p"
  shows "kept p p'"
proof (rule foldE_invariant [OF assms(1) [unfolded evict_blocks_def], of "kept p"])
  show "kept p p" using assms(2) by (rule kept_refl)
  fix i q q' assume k: "kept p q"
    and "(if \<not> i < int (num_gpu_blocks q) then Inl AssertionError
          else bindE (py_index [0..<num_gpu_blocks q] i) (\<lambda>b. Inr (snd (maybe_evict_cached_block b q)))) = Inr q'"
  then obtain b where b: "py_index [0..<num_gpu_blocks q] i = Inr b" and q': "q' = snd (maybe_evict_cached_block b q)"
    by (auto simp: bindE_eq_Inr split: if_split_asm)
  have "b < num_gpu_blocks q" using b by (auto simp: py_index_def split: if_split_asm)
  with q' have "drops b q q'" using evict_spec(1) [of q b _ q'] kept_hash_ok [OF k] by (metis prod.collapse)
  then show "kept p q'" using kept_trans [OF k] drops_kept by blast
qed

lemma reset_prefix_cache_keeps: "pool_rep p xs \<Longrightarrow> reset_prefix_cache p = (ok, p') \<Longrightarrow> pool_keeps p p'"
  using reset_prefix_cache_spec(1-3) unfolding pool_keeps_def by blast

lemma reset_all_keeps:
  assumes "reset_all ps = (ok, ps')" and "\<forall>p \<in> set ps. \<exists>xs. pool_rep p xs"
  shows "length ps' = length ps \<and> (\<forall>k < length ps. pool_keeps (ps ! k) (ps' ! k))"
  using assms
proof (induction ps arbitrary: ok ps')
  case (Cons p ps)
  obtain ok1 p' where p': "reset_prefix_cache p = (ok1, p')" by force
  then have K: "pool_keeps p p'" using reset_prefix_cache_keeps Cons.prems(2) by force
  obtain oks ps1 where ps1: "reset_all ps = (oks, ps1)" by force
  from Cons.IH [OF ps1] Cons.prems(2) have I: "length ps1 = length ps \<and> (\<forall>k < length ps. pool_keeps (ps ! k) (ps1 ! k))" by simp
  show ?case using Cons.prems(1) p' ps1 K I by (auto simp: nth_Cons split: if_split_asm nat.split)
qed simp

lemma emit_cached_block_events_keeps:
  "emit_cached_block_events dg r n bs gid p = Inr (r', p') \<Longrightarrow> pool_keeps p p'"
  by (auto simp: emit_cached_block_events_def bindE_eq_Inr split: if_split_asm)

lemma take_events_keeps: "pool_keeps p (snd (take_events p))"
  by (simp add: take_events_def)

lemma owned_pools: "co_owns ex c \<Longrightarrow> \<forall>p \<in> set (co_block_pools c). \<exists>xs. pool_rep p xs"
  by (auto simp: co_owns_def in_set_conv_nth)

section \<open>The invariant\<close>

definition kvm_owns :: "(nat \<Rightarrow> nat \<Rightarrow> int) \<Rightarrow> kv_manager \<Rightarrow> bool" where
  "kvm_owns ex k \<longleftrightarrow> co_owns ex (kvm_coordinator k) \<and> co_lookup_ok (kvm_coordinator k) \<and> kvm_partial_tail_pins k = Map.empty \<and>
     length (co_block_pools (kvm_coordinator k)) = num_pools (co_config (kvm_coordinator k))"

lemma kvm_owns_step:
  assumes "kvm_owns ex k" and "co_owns ex' c'" and "co_same (kvm_coordinator k) c'"
  shows "kvm_owns ex' (k\<lparr>kvm_coordinator := c'\<rparr>)"
  using assms co_lookup_ok_same co_same_simps(1,4) [OF assms(3)] by (auto simp: kvm_owns_def)

lemma kvm_owns_keeps: "kvm_owns ex k \<Longrightarrow> co_keeps ex (kvm_coordinator k) c' \<Longrightarrow> kvm_owns ex (k\<lparr>kvm_coordinator := c'\<rparr>)"
  using kvm_owns_step by (auto simp: co_keeps_def)

lemma kvm_owns_stats [simp]: "kvm_owns ex (k\<lparr>kvm_prefix_cache_stats := s\<rparr>) = kvm_owns ex k"
  by (simp add: kvm_owns_def)

lemma kvm_ownsD: "kvm_owns ex k \<Longrightarrow> co_owns ex (kvm_coordinator k)"
  by (simp add: kvm_owns_def)

lemma kvm_evict_owns:
  assumes "kvm_owns ex k" and "kvm_evict_blocks ids k = Inr k'"
  shows "kvm_owns ex k'"
proof -
  let ?c = "kvm_coordinator k"
  obtain ps where ps: "mapE (evict_blocks ids) (co_block_pools ?c) = Inr ps" and k': "k' = k\<lparr>kvm_coordinator := ?c\<lparr>co_block_pools := ps\<rparr>\<rparr>"
    using assms(2) by (auto simp: kvm_evict_blocks_def collection_evict_blocks_def Let_def bindE_eq_Inr)
  note M = mapE_nth [OF ps] and own = kvm_ownsD [OF assms(1)]
  have "pool_keeps (co_block_pools ?c ! i) (ps ! i)" if "i < length ps" for i
    using evict_blocks_kept [OF M(2) co_owns_pool(1) [OF own]] kept_pool_keeps that M(1) by simp
  then show ?thesis unfolding k' using co_keeps_pools [OF own M(1)] kvm_owns_keeps [OF assms(1)] by blast
qed

lemma kvm_reset_owns:
  assumes "kvm_owns ex k" and "kvm_reset_prefix_cache k = Inr (ok, k')"
  shows "kvm_owns ex k'"
proof -
  let ?c = "kvm_coordinator k"
  note own = kvm_ownsD [OF assms(1)]
  obtain ok1 ps where ps: "(if length (co_block_pools ?c) = 1
      then (let (ok, p) = reset_prefix_cache (co_block_pools ?c ! 0) in (ok, [p])) else collection_reset_prefix_cache (co_block_pools ?c)) = (ok1, ps)" by force
  have "length ps = length (co_block_pools ?c) \<and> (\<forall>i < length (co_block_pools ?c). pool_keeps (co_block_pools ?c ! i) (ps ! i))"
  proof (cases "length (co_block_pools ?c) = 1")
    case True
    then obtain p where "co_block_pools ?c = [p]" by (auto simp: length_Suc_conv)
    then show ?thesis using ps reset_prefix_cache_keeps [of p] owned_pools [OF own] by (auto split: prod.split_asm)
  next
    case False
    then show ?thesis using ps reset_all_keeps [OF _ owned_pools [OF own]] by (auto simp: collection_reset_prefix_cache_def split: if_split_asm)
  qed
  then have "kvm_owns ex (k\<lparr>kvm_coordinator := ?c\<lparr>co_block_pools := ps\<rparr>\<rparr>)"
    using co_keeps_pools [OF own, of ps] kvm_owns_keeps [OF assms(1)] by simp
  moreover have "\<exists>s. k' = k\<lparr>kvm_coordinator := ?c\<lparr>co_block_pools := ps\<rparr>, kvm_prefix_cache_stats := s\<rparr>"
    using assms(2) ps by (cases k) (auto simp: kvm_reset_prefix_cache_def Let_def split: if_split_asm option.split_asm)
  ultimately show ?thesis by auto
qed

lemma kvm_take_events_owns:
  assumes "kvm_owns ex k"
  shows "kvm_owns ex (snd (kvm_take_events k))"
proof -
  let ?c = "kvm_coordinator k"
  note own = kvm_ownsD [OF assms]
  define ps where "ps = map (snd \<circ> take_events) (co_block_pools ?c)"
  have "snd (kvm_take_events k) = k\<lparr>kvm_coordinator := ?c\<lparr>co_block_pools := ps\<rparr>\<rparr>"
    by (cases "length (co_block_pools ?c) = 1")
      (auto simp: kvm_take_events_def collection_take_events_def Let_def ps_def length_Suc_conv split: prod.split)
  then show ?thesis using co_keeps_pools [OF own, of ps] kvm_owns_keeps [OF assms] take_events_keeps by (simp add: ps_def)
qed


section \<open>Allocation and release keep the invariant\<close>

definition kvm_hits_ok :: "kv_manager \<Rightarrow> kv_cache_blocks \<Rightarrow> bool" where
  "kvm_hits_ok k b \<longleftrightarrow> hits_ok (kvm_coordinator k) (kvm_blocks k b)"

lemma hits_ok_same:
  assumes "co_owns ex c" and "co_same c c'" and "hits_ok c hits"
  shows "hits_ok c' hits"
proof -
  note S = co_same_simps [OF assms(2)]
  have "num_gpu_blocks (co_block_pools c' ! pool_index c i) = num_gpu_blocks (co_block_pools c ! pool_index c i)" if "i < length (co_managers c)" for i
    using S(5) [of "pool_index c i"] assms(1) that by (auto simp: co_owns_def pool_same_n)
  then show ?thesis using assms(3) S by (auto simp: hits_ok_def)
qed

lemma commit_slots_keeps:
  assumes own: "co_owns ex c" and hits: "hits_ok c (kvm_blocks k b)" and main: "0 \<le> main"
    and run: "commit_slots dg r b num_local ext need main enc delay k c = Inr (nb, r', c')"
  shows "co_keeps ex c c'"
proof -
  obtain c1 c2 bs where
    a: "(if b \<noteq> EmptyKVCacheBlocks \<or> ext > 0 then co_allocate_new_computed_blocks (request_id r) (kvm_blocks k b) num_local ext c else Inr c) = Inr c1"
    and n: "co_allocate_new_blocks (request_id r) need main enc c1 = Inr (bs, c2)"
    and e: "(if \<not> kvm_enable_caching k \<or> delay then Inr (create_kv_cache_blocks bs, r, c2)
      else bindE (co_cache_blocks dg r (min main (num_tokens r)) c2) (\<lambda>(r', c3). Inr (create_kv_cache_blocks bs, r', c3))) = Inr (nb, r', c')"
    using run by (auto simp: commit_slots_def bindE_eq_Inr simp del: if_split)
  have A: "co_keeps ex c c1" using a co_allocate_computed_keeps [OF own hits] own by (auto simp: co_keeps_refl split: if_split_asm)
  have N: "co_keeps ex c1 c2" using co_allocate_new_keeps [OF co_keepsD(1) [OF A] main n] .
  have "co_keeps ex c2 c'"
    using e co_cache_keeps [OF co_keepsD(1) [OF N]] co_keepsD(1) [OF N] by (auto simp: bindE_eq_Inr co_keeps_refl split: if_split_asm)
  then show ?thesis using co_keeps_trans A N by blast
qed

lemma allocate_slots_owns:
  assumes own: "kvm_owns ex k" and hits: "kvm_hits_ok k b"
    and nn: "0 \<le> num_computed_tokens r + new_comp + ext" "0 \<le> kvm_max_model_len k" "0 \<le> num_new"
    and run: "allocate_slots dg r num_new new_comp b lookahead ext delay enc must_fit reserved scheduled k = Inr (res, r', k')"
  shows "kvm_owns ex k'"
proof -
  let ?c = "kvm_coordinator k" and ?hits = "kvm_blocks k b" and ?loc = "num_computed_tokens r + new_comp"
  let ?tot = "min (?loc + ext) (kvm_max_model_len k)"
  let ?wm = "watermark_for r scheduled k" and ?main = "?tot + num_new"
  obtain fits c0 where g: "(if must_fit then full_sequence_fits r ?hits enc ?tot ?loc ?wm k else Inr (True, ?c)) = Inr (fits, c0)"
    and rest: "(if \<not> fits then Inr (None, r, k\<lparr>kvm_coordinator := c0\<rparr>)
      else bindE (co_remove_skipped_blocks (request_id r) (max 0 (?tot - num_in_flight_tokens r)) (Some (num_prompt_tokens r)) c0) (\<lambda>c1.
           bindE (co_get_num_blocks_to_allocate (request_id r) (min (?main + lookahead) (kvm_max_model_len k)) ?hits enc (?loc + ext) ?loc ?main False c1) (\<lambda>(need, c2).
             if need + ?wm > co_num_free_blocks c2 - reserved then Inr (None, r, k\<lparr>kvm_coordinator := c2\<rparr>)
             else bindE (commit_slots dg r b ?loc ext (min (?main + lookahead) (kvm_max_model_len k)) ?main enc delay k c2) (\<lambda>(blocks, r', c3).
               Inr (Some blocks, r', k\<lparr>kvm_coordinator := c3\<rparr>))))) = Inr (res, r', k')"
    using run by (auto simp: allocate_slots_def Let_def bindE_eq_Inr simp del: if_split split: if_split_asm)
  note O = kvm_ownsD [OF own]
  have K0: "co_keeps ex ?c c0"
    using g co_get_num_keeps [OF O] O by (auto simp: full_sequence_fits_def Let_def bindE_eq_Inr co_keeps_refl split: if_split_asm)
  show ?thesis
  proof (cases fits)
    case False
    then show ?thesis using rest kvm_owns_keeps [OF own K0] by auto
  next
    case True
    then obtain c1 need c2 where r1: "co_remove_skipped_blocks (request_id r) (max 0 (?tot - num_in_flight_tokens r)) (Some (num_prompt_tokens r)) c0 = Inr c1"
      and r2: "co_get_num_blocks_to_allocate (request_id r) (min (?main + lookahead) (kvm_max_model_len k)) ?hits enc (?loc + ext) ?loc ?main False c1 = Inr (need, c2)"
      and r3: "(if need + ?wm > co_num_free_blocks c2 - reserved then Inr (None, r, k\<lparr>kvm_coordinator := c2\<rparr>)
        else bindE (commit_slots dg r b ?loc ext (min (?main + lookahead) (kvm_max_model_len k)) ?main enc delay k c2) (\<lambda>(blocks, r', c3).
          Inr (Some blocks, r', k\<lparr>kvm_coordinator := c3\<rparr>))) = Inr (res, r', k')"
      using rest by (auto simp: bindE_eq_Inr simp del: if_split)
    have K1: "co_keeps ex c0 c1" using co_remove_skipped_keeps [OF co_keepsD(1) [OF K0] r1] .
    have K2: "co_keeps ex ?c c2" using co_get_num_keeps [OF co_keepsD(1) [OF K1] r2] co_keeps_trans K0 K1 by blast
    have H: "hits_ok c2 ?hits" using hits_ok_same [OF O co_keepsD(2) [OF K2]] hits by (simp add: kvm_hits_ok_def)
    have main: "0 \<le> ?main" using nn by simp
    show ?thesis
      using r3 kvm_owns_keeps [OF own K2] kvm_owns_keeps [OF own co_keeps_trans [OF K2 commit_slots_keeps [OF co_keepsD(1) [OF K2] H main]]]
      by (auto simp: bindE_eq_Inr split: if_split_asm)
  qed
qed


subsection \<open>Lookup\<close>

lemma emit_group_events_keeps:
  assumes "co_owns ex c" and "i < length (co_managers c)" and "emit_group_events dg (i, bs) (r, c) = Inr (r', c')"
  shows "co_keeps ex c c'"
proof (cases "bs = []")
  case True
  then show ?thesis using assms by (simp add: emit_group_events_def co_keeps_refl)
next
  case False
  then obtain p where p: "pool_keeps (co_block_pools c ! pool_index c i) p" and c': "c' = c\<lparr>co_block_pools := (co_block_pools c)[pool_index c i := p]\<rparr>"
    using assms(3) by (auto simp: emit_group_events_def bindE_eq_Inr dest!: emit_cached_block_events_keeps)
  have "pool_keeps (co_block_pools c ! k) ((co_block_pools c)[pool_index c i := p] ! k)" if "k < length (co_block_pools c)" for k
    using p that by (cases "k = pool_index c i") simp_all
  then show ?thesis unfolding c' by (intro co_keeps_pools [OF assms(1)]) simp_all
qed

lemma emit_all_events_keeps:
  assumes own: "co_owns ex c" and len: "length blocks = length (co_managers c)"
    and run: "foldE (emit_group_events dg) (enumerate 0 blocks) (r, c) = Inr (r', c')"
  shows "co_keeps ex c c'"
proof -
  have "case (r', c') of (_, c') \<Rightarrow> co_keeps ex c c'"
  proof (rule foldE_invariant [OF run])
    show "case (r, c) of (_, c') \<Rightarrow> co_keeps ex c c'" using own by (simp add: co_keeps_refl)
    fix x t t' assume x: "x \<in> set (enumerate 0 blocks)" and t: "case t of (_, c') \<Rightarrow> co_keeps ex c c'" and st: "emit_group_events dg x t = Inr t'"
    obtain i bs r1 c1 r2 c2 where tt: "x = (i, bs)" "t = (r1, c1)" "t' = (r2, c2)" by (metis prod.exhaust)
    have k: "co_keeps ex c c1" using t tt by simp
    have "i < length (co_managers c1)" using x tt len co_same_simps(3) [OF co_keepsD(2) [OF k]] by (auto simp: in_set_enumerate_eq)
    from emit_group_events_keeps [OF co_keepsD(1) [OF k] this] st tt co_keeps_trans [OF k]
    show "case t' of (_, c') \<Rightarrow> co_keeps ex c c'" by simp
  qed
  then show ?thesis by simp
qed

text \<open>A lookup returns, and what it returns can be passed to \<^verbatim>\<open>allocate_slots\<close>.\<close>

lemma get_computed_blocks_spec:
  assumes own: "kvm_owns ex k" and n: "0 < num_tokens r"
  shows "\<exists>res. get_computed_blocks dg full r k = Some res \<and> (\<forall>b hit boundary r' k'. res = Inr (b, hit, boundary, r', k') \<longrightarrow>
    kvm_owns ex k' \<and> kvm_hits_ok k' b \<and> length (kvm_blocks k' b) = length (kvm_groups k') \<and> 0 \<le> hit \<and> hit < num_tokens r \<and>
    (boundary = 0 \<or> hit < boundary))"
proof (cases "prefix_cache_lookup_enabled k r")
  case False
  then show ?thesis using own n by (simp add: get_computed_blocks_def kvm_hits_ok_def hits_ok_def kvm_blocks_def)
next
  case True
  let ?c = "kvm_coordinator k"
  have O: "co_owns ex ?c" "co_lookup_ok ?c" using own by (simp_all add: kvm_owns_def)
  obtain res where res: "co_find_longest_cache_hit ?c (block_hashes r) (num_tokens r - 1) = Some res"
    and R: "\<And>blocks hit u. res = Inr (blocks, hit, u) \<Longrightarrow> length blocks = length (co_managers ?c) \<and> hits_ok ?c blocks \<and> 0 \<le> hit \<and> hit \<le> num_tokens r - 1 \<and> 0 \<le> u"
    using co_find_spec [OF O, of "num_tokens r - 1" "block_hashes r"] n by auto
  have "kvm_owns ex k' \<and> kvm_hits_ok k' b \<and> length (kvm_blocks k' b) = length (kvm_groups k') \<and> 0 \<le> hit \<and> hit < num_tokens r \<and>
      (boundary = 0 \<or> hit < boundary)"
    if g: "get_computed_blocks dg full r k = Some (Inr (b, hit, boundary, r', k'))" for b hit boundary r' k'
  proof -
    obtain blocks u c' where f: "res = Inr (blocks, hit, u)" and b: "b = create_kv_cache_blocks blocks" "boundary = (if u \<noteq> 0 then hit + u else 0)"
      and e: "(if hit > 0 \<and> kvm_enable_kv_cache_events k \<and> full then foldE (emit_group_events dg) (enumerate 0 blocks) (r, ?c) else Inr (r, ?c)) = Inr (r', c')"
      and k': "k' = k\<lparr>kvm_coordinator := c'\<rparr>"
      using g True res by (auto simp: get_computed_blocks_def bindE_eq_Inr simp del: if_split)
    note R = R [OF f]
    have K: "co_keeps ex ?c c'" using e emit_all_events_keeps [OF O(1)] R O(1) by (auto simp: co_keeps_refl split: if_split_asm)
    have "hits_ok c' blocks" using hits_ok_same [OF O(1) co_keepsD(2) [OF K]] R by blast
    then have "kvm_hits_ok k' b" by (auto simp: kvm_hits_ok_def kvm_blocks_def create_kv_cache_blocks_def b k' hits_ok_def split: kv_cache_blocks.split)
    moreover have "length (kvm_blocks k' b) = length (kvm_groups k')"
      using R O(1) co_same_simps(1) [OF co_keepsD(2) [OF K]] by (simp add: b k' kvm_blocks_def create_kv_cache_blocks_def co_owns_def)
    ultimately show ?thesis using kvm_owns_keeps [OF own K] R b k' by auto
  qed
  then show ?thesis using True res by (simp add: get_computed_blocks_def)
qed


subsection \<open>Release\<close>

lemma co_pool_keeps_free:
  assumes own: "co_owns ex c" and i: "i < length (co_block_pools c)"
    and bs: "\<forall>b \<in> set bs. b < num_gpu_blocks (co_block_pools c ! i)" and le: "\<forall>b. occ bs b \<le> ex i b"
  shows "\<exists>p'. free_blocks bs (co_block_pools c ! i) = Inr p' \<and> pool_same (co_block_pools c ! i) p' \<and> (\<exists>ys. pool_rep p' ys) \<and>
    (\<forall>b. ref_cnt (blk p' b) = ref_cnt (blk (co_block_pools c ! i) b) - occ bs b)"
proof -
  let ?p = "co_block_pools c ! i"
  obtain xs where rep: "pool_rep ?p xs" and refs: "\<forall>b. 0 < b \<and> b < num_gpu_blocks ?p \<longrightarrow> ref_cnt (blk ?p b) = ex i b + held c i b"
    using own i by (auto simp: co_owns_def)
  have "occ bs b \<le> ref_cnt (blk ?p b)" if "b \<in> set bs" "0 < b" for b
  proof -
    have "0 \<le> held c i b" by (simp add: held_def sum_nonneg)
    moreover have "occ bs b \<le> ex i b" using le by blast
    ultimately show ?thesis using refs bs that by simp
  qed
  from free_blocks_spec [OF rep bs this] show ?thesis by blast
qed

text \<open>A caller gives back references it holds.\<close>

lemma co_release:
  assumes own: "co_owns ex c" and len: "length ps = length (co_block_pools c)"
    and ps: "\<And>i. i < length (co_block_pools c) \<Longrightarrow> pool_same (co_block_pools c ! i) (ps ! i) \<and> (\<exists>ys. pool_rep (ps ! i) ys) \<and>
      (\<forall>b. ref_cnt (blk (ps ! i) b) = ref_cnt (blk (co_block_pools c ! i) b) - d i b)"
    and le: "\<And>i b. d i b \<le> ex i b"
  shows "co_owns (\<lambda>i b. ex i b - d i b) (c\<lparr>co_block_pools := ps\<rparr>) \<and> co_same c (c\<lparr>co_block_pools := ps\<rparr>)"
proof -
  have "held (c\<lparr>co_block_pools := ps\<rparr>) k b = held c k b" for k b by (simp add: held_def)
  moreover have "mgr_ok (ps ! i) m" if "i < length (co_block_pools c)" "mgr_ok (co_block_pools c ! i) m" for i m
    using mgr_ok_same ps [OF that(1)] that(2) by blast
  moreover have "num_gpu_blocks (ps ! i) = num_gpu_blocks (co_block_pools c ! i)" if "i < length (co_block_pools c)" for i
    using ps [OF that] pool_same_n by blast
  ultimately show ?thesis using own len ps le by (auto simp: co_owns_def co_same_def)
qed

lemma mapE_total: "(\<And>x. x \<in> set xs \<Longrightarrow> \<exists>y. f x = Inr y) \<Longrightarrow> \<exists>ys. mapE f xs = Inr ys"
proof (induction xs)
  case (Cons x xs)
  then obtain y ys where "f x = Inr y" "mapE f xs = Inr ys" by (metis list.set_intros)
  then show ?case by simp
qed simp

lemma occ_by_pool: "occ (map snd (filter (\<lambda>r. fst r = i) refs)) b = pocc refs i b"
  by (induction refs) auto

definition refs_in :: "coordinator \<Rightarrow> pool_block list \<Rightarrow> bool" where
  "refs_in c refs \<longleftrightarrow> (\<forall>(i, b) \<in> set refs. i < length (co_block_pools c) \<and> b < num_gpu_blocks (co_block_pools c ! i))"

lemma co_free_blocks_owned:
  assumes own: "co_owns ex c" and refs: "refs_in c refs" and le: "\<And>i b. pocc refs i b \<le> ex i b"
  shows "\<exists>c'. co_free_blocks refs c = Inr c' \<and> co_owns (\<lambda>i b. ex i b - pocc refs i b) c' \<and> co_same c c'"
proof -
  let ?part = "\<lambda>i. map snd (filter (\<lambda>r. fst r = i) refs)" and ?ps = "co_block_pools c"
  have F: "\<exists>p'. free_blocks (?part i) (?ps ! i) = Inr p' \<and> pool_same (?ps ! i) p' \<and> (\<exists>ys. pool_rep p' ys) \<and>
      (\<forall>b. ref_cnt (blk p' b) = ref_cnt (blk (?ps ! i) b) - pocc refs i b)" if "i < length ?ps" for i
  proof -
    have "\<forall>b \<in> set (?part i). b < num_gpu_blocks (?ps ! i)" "\<forall>b. occ (?part i) b \<le> ex i b"
      using refs le by (auto simp: refs_in_def occ_by_pool)
    from co_pool_keeps_free [OF own that this] show ?thesis by (simp only: occ_by_pool)
  qed
  show ?thesis
  proof (cases "length ?ps = 1")
    case True
    have "filter (\<lambda>r. fst r = 0) refs = refs" using refs True by (intro filter_True) (auto simp: refs_in_def)
    then obtain p' where p': "free_blocks (map snd refs) (?ps ! 0) = Inr p'" "pool_same (?ps ! 0) p' \<and> (\<exists>ys. pool_rep p' ys) \<and>
      (\<forall>b. ref_cnt (blk p' b) = ref_cnt (blk (?ps ! 0) b) - pocc refs 0 b)" using F [of 0] True by auto
    then show ?thesis using co_release [OF own, of "[p']" "pocc refs"] True le by (auto simp: co_free_blocks_def)
  next
    case False
    let ?f = "\<lambda>(p, bs). if bs \<noteq> [] then free_blocks bs p else Inr p" and ?xs = "zip ?ps (map ?part [0..<length ?ps])"
    have G: "\<exists>p'. ?f (?xs ! i) = Inr p' \<and> pool_same (?ps ! i) p' \<and> (\<exists>ys. pool_rep p' ys) \<and>
      (\<forall>b. ref_cnt (blk p' b) = ref_cnt (blk (?ps ! i) b) - pocc refs i b)" if i: "i < length ?ps" for i
    proof (cases "?part i = []")
      case True
      then have "pocc refs i b = 0" for b using occ_by_pool [of i refs b] by simp
      then show ?thesis using True i owned_pools [OF own] by simp
    qed (use F [OF i] i in simp)
    have "\<exists>y. ?f x = Inr y" if "x \<in> set ?xs" for x
    proof -
      obtain i where "i < length ?ps" "x = ?xs ! i" using \<open>x \<in> set ?xs\<close> unfolding in_set_conv_nth by auto
      then show ?thesis using G by blast
    qed
    then obtain ps where ps: "mapE ?f ?xs = Inr ps" using mapE_total by blast
    note M = mapE_nth [OF ps]
    have "by_pool ?ps refs = Inr (map ?part [0..<length ?ps])" using refs by (auto simp: by_pool_def refs_in_def)
    then have "collection_free_blocks refs ?ps = Inr ps" using ps by (simp add: collection_free_blocks_def for_pools_def)
    moreover have "pool_same (?ps ! i) (ps ! i) \<and> (\<exists>ys. pool_rep (ps ! i) ys) \<and>
      (\<forall>b. ref_cnt (blk (ps ! i) b) = ref_cnt (blk (?ps ! i) b) - pocc refs i b)" if "i < length ?ps" for i
      using G [OF that] M(2) [of i] that by auto
    ultimately show ?thesis using co_release [OF own, of ps "pocc refs"] M(1) False le by (auto simp: co_free_blocks_def)
  qed
qed


text \<open>The remaining operations.\<close>

lemma kvm_free_owns:
  assumes "kvm_owns ex k"
  shows "\<exists>k'. kvm_free rid k = Inr k' \<and> kvm_owns ex k'"
proof -
  obtain c' where c': "co_free rid (kvm_coordinator k) = Inr c'" "co_keeps ex (kvm_coordinator k) c'"
    using co_free_keeps [OF kvm_ownsD [OF assms]] by blast
  have p: "kvm_partial_tail_pins k = Map.empty" using assms by (simp add: kvm_owns_def)
  have "kvm_free rid k = Inr (k\<lparr>kvm_partial_tail_pins := Map.empty, kvm_coordinator := c'\<rparr>)"
    using c'(1) by (simp add: kvm_free_def p)
  moreover have "k\<lparr>kvm_partial_tail_pins := Map.empty, kvm_coordinator := c'\<rparr> = k\<lparr>kvm_coordinator := c'\<rparr>" using p by (cases k) simp
  ultimately show ?thesis using kvm_owns_keeps [OF assms c'(2)] by simp
qed

lemma kvm_pop_owns:
  assumes "kvm_owns ex k"
  shows "\<exists>refs k'. kvm_pop_blocks_for_free rid k = Inr (refs, k') \<and> kvm_owns (\<lambda>i b. ex i b + pocc refs i b) k'"
  using co_pop_owned [OF kvm_ownsD [OF assms], of rid] kvm_owns_step [OF assms] by (force simp: kvm_pop_blocks_for_free_def)

lemma kvm_remove_skipped_owns:
  "kvm_owns ex k \<Longrightarrow> kvm_remove_skipped_blocks rid n prompt k = Inr k' \<Longrightarrow> kvm_owns ex k'"
  using co_remove_skipped_keeps kvm_owns_keeps kvm_ownsD by (auto simp: kvm_remove_skipped_blocks_def bindE_eq_Inr)

lemma kvm_cache_blocks_owns:
  "kvm_owns ex k \<Longrightarrow> kvm_cache_blocks dg r n k = Inr (r', k') \<Longrightarrow> kvm_owns ex k'"
  using co_cache_keeps kvm_owns_keeps kvm_ownsD by (auto simp: kvm_cache_blocks_def bindE_eq_Inr split: if_split_asm)

lemma kvm_new_step_owns: "kvm_owns ex k \<Longrightarrow> kvm_owns ex (kvm_new_step_starts k)"
  using co_new_step_keeps kvm_owns_keeps kvm_ownsD by (auto simp: kvm_new_step_starts_def)

lemma kvm_common_prefix_owns: "kvm_owns ex k \<Longrightarrow> kvm_get_num_common_prefix_blocks rid k = Inr (ns, k') \<Longrightarrow> kvm_owns ex k'"
  using co_common_prefix_keeps kvm_owns_keeps kvm_ownsD by (auto simp: kvm_get_num_common_prefix_blocks_def bindE_eq_Inr)

lemma keeps_open: "owns ex p m \<Longrightarrow> keeps_owned ex p m p (open_req rid m)"
  by (simp add: keeps_owned_def)

lemma keeps_record: "owns ex p m \<Longrightarrow> keeps_owned ex p m p (record_new_block_ids bs p (open_req rid m))"
  using keeps_open [of ex p m rid] by (simp add: record_new_block_ids_def keeps_owned_def st_config_def)

interpretation take_ids: owned_step "take_ids_step c" "\<lambda>i p. True"
  for c
  by unfold_locales (auto simp: take_ids_step_def take_new_block_ids_def keeps_owned_def st_config_def)

interpretation zeroing: owned_step "zeroing_step c rid a b" "\<lambda>i p. True"
  for c rid a b
  by unfold_locales (auto simp: zeroing_step_def Let_def keeps_open keeps_owned_refl split: if_split_asm)

interpretation record_zeroing: owned_step "record_zeroing_step rid a" "\<lambda>i p. True"
  for rid a
  by unfold_locales (auto simp: record_zeroing_step_def Let_def keeps_record keeps_owned_refl split: if_split_asm)

interpretation take_offloads: owned_step "take_offloads_step" "\<lambda>i p. True"
  by unfold_locales (auto simp: take_offloads_step_def take_pending_boundary_state_offloads_def keeps_owned_def st_config_def)

lemma kvm_drains_own:
  assumes "kvm_owns ex k"
  shows "kvm_take_new_block_ids k = Inr (ids, k') \<Longrightarrow> kvm_owns ex k'"
    "get_zeroing_block_ids_in_range rid a b k = Inr (ids, k') \<Longrightarrow> kvm_owns ex k'"
    "record_blocks_for_zeroing rid a k = Inr k' \<Longrightarrow> kvm_owns ex k'"
    "take_boundary_state_offloads k = Inr (os, k') \<Longrightarrow> kvm_owns ex k'"
  using kvm_owns_keeps [OF assms] take_ids.for_managers_owned [OF kvm_ownsD [OF assms]]
    zeroing.for_managers_owned [OF kvm_ownsD [OF assms]] record_zeroing.for_managers_owned [OF kvm_ownsD [OF assms]]
    take_offloads.for_managers_owned [OF kvm_ownsD [OF assms]]
  by (auto simp: kvm_take_new_block_ids_def get_zeroing_block_ids_in_range_def record_blocks_for_zeroing_def
      take_boundary_state_offloads_def bindE_eq_Inr)

text \<open>Draining the pending copies passes the references of both ends to the caller.\<close>

lemma kvm_take_copies_owns:
  assumes "kvm_owns ex k"
  shows "\<exists>copies retained k'. take_kv_cache_block_copies k = Inr (copies, retained, k') \<and> kvm_owns (\<lambda>i b. ex i b + pocc retained i b) k'"
proof -
  let ?c = "kvm_coordinator k" and ?refs = "\<lambda>pending :: (pool_block \<times> nat) list. concat (map (\<lambda>((i, src), dst). [(i, src), (i, dst)]) pending)"
  have "\<exists>pending c'. for_managers (take_copies_step ?c) [] ?c = Inr (pending, c') \<and>
    co_owns (\<lambda>i b. ex i b + pocc (?refs pending) i b) c' \<and> co_same ?c c'"
  proof (rule for_managers_pass [OF kvm_ownsD [OF assms]])
    fix ex' p m i s assume m: "owns ex' p m"
    let ?bs = "concat (map (\<lambda>(s, d). [s, d]) (st_pending_cow_copies m))" and ?m = "m\<lparr>st_pending_cow_copies := []\<rparr>"
    have "occ (st_claims m) b = occ (st_claims ?m) b + occ ?bs b" for b by (simp add: st_claims_def)
    then have "owns (\<lambda>b. ex' b + occ ?bs b) p ?m" using m by (auto simp: owns_def st_claims_def)
    moreover have "?refs (map (\<lambda>(src, dst). ((j, src), dst)) xs) = map (Pair j) (concat (map (\<lambda>(s, d). [s, d]) xs))" for j xs by (induction xs) auto
    ultimately show "\<exists>bs s' m'. take_copies_step ?c i s p m = Inr (s', p, m') \<and> owns (\<lambda>b. ex' b + occ bs b) p m' \<and> st_config m' = st_config m \<and>
      ?refs s' = ?refs s @ map (Pair (pool_index ?c i)) bs"
      by (intro exI [of _ ?bs]) (simp add: take_copies_step_def take_pending_cow_copies_def st_config_def)
  qed simp
  then show ?thesis using kvm_owns_step [OF assms] by (force simp: take_kv_cache_block_copies_def Let_def)
qed


section \<open>Sequences of operations\<close>

text \<open>
  The states that the scheduler can reach. \<^verbatim>\<open>ex i b\<close> counts the references to block \<^verbatim>\<open>b\<close> of pool \<^verbatim>\<open>i\<close> that callers hold: blocks
  popped for a deferred release and the ends of drained copies. An allocation may use the blocks of any lookup, as
  long as they are blocks of the pools. An operation that raises ends the sequence.
\<close>

inductive kvm_reach :: "(bytes list \<Rightarrow> bytes) \<Rightarrow> kv_manager \<Rightarrow> (nat \<Rightarrow> nat \<Rightarrow> int) \<Rightarrow> kv_manager \<Rightarrow> bool"
  for dg :: "bytes list \<Rightarrow> bytes" and k0 :: kv_manager where
  start: "kvm_reach dg k0 (\<lambda>_ _. 0) k0"
| lookup: "kvm_reach dg k0 ex k \<Longrightarrow> 0 < num_tokens r \<Longrightarrow> get_computed_blocks dg full r k = Some (Inr (b, hit, bd, r', k')) \<Longrightarrow>
    kvm_reach dg k0 ex k'"
| allocate: "kvm_reach dg k0 ex k \<Longrightarrow> kvm_hits_ok k b \<Longrightarrow> 0 \<le> num_computed_tokens r + new_comp + ext \<Longrightarrow> 0 \<le> num_new \<Longrightarrow>
    0 \<le> kvm_max_model_len k \<Longrightarrow> allocate_slots dg r num_new new_comp b lookahead ext delay enc must_fit reserved scheduled k = Inr (res, r', k') \<Longrightarrow>
    kvm_reach dg k0 ex k'"
| free: "kvm_reach dg k0 ex k \<Longrightarrow> kvm_free rid k = Inr k' \<Longrightarrow> kvm_reach dg k0 ex k'"
| pop: "kvm_reach dg k0 ex k \<Longrightarrow> kvm_pop_blocks_for_free rid k = Inr (refs, k') \<Longrightarrow> kvm_reach dg k0 (\<lambda>i b. ex i b + pocc refs i b) k'"
| release: "kvm_reach dg k0 ex k \<Longrightarrow> refs_in (kvm_coordinator k) refs \<Longrightarrow> (\<And>i b. pocc refs i b \<le> ex i b) \<Longrightarrow>
    co_free_blocks refs (kvm_coordinator k) = Inr c' \<Longrightarrow> kvm_reach dg k0 (\<lambda>i b. ex i b - pocc refs i b) (k\<lparr>kvm_coordinator := c'\<rparr>)"
| remove_skipped: "kvm_reach dg k0 ex k \<Longrightarrow> kvm_remove_skipped_blocks rid n prompt k = Inr k' \<Longrightarrow> kvm_reach dg k0 ex k'"
| cache: "kvm_reach dg k0 ex k \<Longrightarrow> kvm_cache_blocks dg r n k = Inr (r', k') \<Longrightarrow> kvm_reach dg k0 ex k'"
| new_step: "kvm_reach dg k0 ex k \<Longrightarrow> kvm_reach dg k0 ex (kvm_new_step_starts k)"
| common_prefix: "kvm_reach dg k0 ex k \<Longrightarrow> kvm_get_num_common_prefix_blocks rid k = Inr (ns, k') \<Longrightarrow> kvm_reach dg k0 ex k'"
| evict: "kvm_reach dg k0 ex k \<Longrightarrow> kvm_evict_blocks ids k = Inr k' \<Longrightarrow> kvm_reach dg k0 ex k'"
| reset: "kvm_reach dg k0 ex k \<Longrightarrow> kvm_reset_prefix_cache k = Inr (ok, k') \<Longrightarrow> kvm_reach dg k0 ex k'"
| take_ids: "kvm_reach dg k0 ex k \<Longrightarrow> kvm_take_new_block_ids k = Inr (refs', k') \<Longrightarrow> kvm_reach dg k0 ex k'"
| zero: "kvm_reach dg k0 ex k \<Longrightarrow> get_zeroing_block_ids_in_range rid n n' k = Inr (refs', k') \<Longrightarrow> kvm_reach dg k0 ex k'"
| record_zero: "kvm_reach dg k0 ex k \<Longrightarrow> record_blocks_for_zeroing rid n k = Inr k' \<Longrightarrow> kvm_reach dg k0 ex k'"
| copies: "kvm_reach dg k0 ex k \<Longrightarrow> take_kv_cache_block_copies k = Inr (cs, refs, k') \<Longrightarrow>
    kvm_reach dg k0 (\<lambda>i b. ex i b + pocc refs i b) k'"
| offloads: "kvm_reach dg k0 ex k \<Longrightarrow> take_boundary_state_offloads k = Inr (os, k') \<Longrightarrow> kvm_reach dg k0 ex k'"
| events: "kvm_reach dg k0 ex k \<Longrightarrow> kvm_reach dg k0 ex (snd (kvm_take_events k))"
| stats: "kvm_reach dg k0 ex k \<Longrightarrow> record_prefix_cache_stats r n k = Inr k' \<Longrightarrow> kvm_reach dg k0 ex k'"
| take_stats: "kvm_reach dg k0 ex k \<Longrightarrow> kvm_reach dg k0 ex (snd (make_prefix_cache_stats k))"

lemma stats_owns:
  "kvm_owns ex k \<Longrightarrow> record_prefix_cache_stats r n k = Inr k' \<Longrightarrow> kvm_owns ex k'"
  "kvm_owns ex k \<Longrightarrow> kvm_owns ex (snd (make_prefix_cache_stats k))"
  by (auto simp: record_prefix_cache_stats_def make_prefix_cache_stats_def split: if_split_asm option.split_asm)

lemma kvm_reach_owns:
  assumes "kvm_reach dg k0 ex k" and init: "kvm_owns (\<lambda>_ _. 0) k0"
  shows "kvm_owns ex k"
  using assms(1)
proof induction
  case start
  show ?case by (rule init)
next
  case (lookup ex k r full b hit bd r' k')
  then show ?case using get_computed_blocks_spec [of ex k r dg full] by auto
next
  case (allocate ex k b r new_comp ext num_new)
  then show ?case using allocate_slots_owns by blast
next
  case (free ex k rid k')
  then show ?case using kvm_free_owns [of ex k rid] by auto
next
  case (pop ex k rid refs k')
  then show ?case using kvm_pop_owns [of ex k rid] by auto
next
  case (release ex k refs c')
  then show ?case using co_free_blocks_owned [OF kvm_ownsD [OF release.IH] release.hyps(2)] kvm_owns_step [OF release.IH] by auto
next
  case (copies ex k cs refs k')
  then show ?case using kvm_take_copies_owns [of ex k] by auto
next
  case (zero ex k rid n n' refs' k')
  then show ?case using kvm_drains_own(2) by blast
qed (blast intro: kvm_remove_skipped_owns kvm_cache_blocks_owns kvm_new_step_owns kvm_common_prefix_owns kvm_evict_owns
    kvm_reset_owns kvm_take_events_owns stats_owns kvm_drains_own(1) kvm_drains_own(3) kvm_drains_own(4))+

lemma kv_manager_init_owns:
  assumes cfg: "cfg_ok cfg" "lookup_cfg cfg dcp sbs hbs" and pool: "\<forall>g \<in> set (cfg_groups cfg). length (cfg_groups cfg) = 1 \<longrightarrow> group_pool_id g = 0"
    and run: "kv_manager_init cfg mml sbs hbs mif caching use_eagle npl log events use_int dcp pcp wm_ok wm md = Inr k"
  shows "kvm_owns (\<lambda>_ _. 0) k"
proof -
  obtain c mif' where c: "get_kv_cache_coordinator cfg mml mif' use_eagle caching events use_int dcp pcp sbs hbs npl = Inr c"
    and k: "kvm_coordinator k = c" "kvm_partial_tail_pins k = Map.empty"
    using run by (auto simp: kv_manager_init_def bindE_eq_Inr split: if_split_asm)
  note O = get_kv_cache_coordinator_owns [OF cfg(1) c] and L = get_kv_cache_coordinator_lookup_ok [OF cfg pool c]
  have "length (co_block_pools c) = num_pools cfg" using get_kv_cache_coordinator_pools [OF c] .
  then show ?thesis using O L k by (simp add: kvm_owns_def)
qed

end
