(* ===== verification/Runs.thy ===== *)
theory Runs
  imports Prelude
begin

text \<open>
  Computations that may raise and may not end, for the code above the prefix lookup and the block hasher: the value \<^verbatim>\<open>None\<close> is a run
  that does not end, \<^verbatim>\<open>Some (Inl e)\<close> one that raises. \<^verbatim>\<open>loopR\<close> is the \<^verbatim>\<open>while\<close> loop; \<^verbatim>\<open>loopR_rule\<close> shows that it ends when a
  well-founded order decreases, and carries an invariant through it.
\<close>

section \<open>Runs\<close>

text \<open>A computation that may not end and may raise.\<close>

type_synonym 'a run = "'a result option"

definition bindR :: "'a run \<Rightarrow> ('a \<Rightarrow> 'b run) \<Rightarrow> 'b run" where
  "bindR m f = Option.bind m (\<lambda>r. case r of Inl e \<Rightarrow> Some (Inl e) | Inr x \<Rightarrow> f x)"

abbreviation returnR :: "'a \<Rightarrow> 'a run" where
  "returnR x \<equiv> Some (Inr x)"

abbreviation raiseR :: "py_error \<Rightarrow> 'a run" where
  "raiseR e \<equiv> Some (Inl e)"

abbreviation liftR :: "'a result \<Rightarrow> 'a run" where
  "liftR r \<equiv> Some r"

definition assertR :: "bool \<Rightarrow> unit run" where
  "assertR b = (if b then returnR () else raiseR AssertionError)"

primrec foldR :: "('a \<Rightarrow> 's \<Rightarrow> 's run) \<Rightarrow> 'a list \<Rightarrow> 's \<Rightarrow> 's run" where
  "foldR f [] s = returnR s"
| "foldR f (x # xs) s = bindR (f x s) (foldR f xs)"

lemma bindR_simps [simp]:
  "bindR None f = None" "bindR (Some (Inl e)) f = Some (Inl e)" "bindR (Some (Inr x)) f = f x"
  by (simp_all add: bindR_def)

lemma bindR_eq_Inr: "bindR m f = Some (Inr y) \<longleftrightarrow> (\<exists>x. m = Some (Inr x) \<and> f x = Some (Inr y))"
  by (cases m) (auto simp: bindR_def split: sum.splits)

lemma bindR_eq_Inl: "bindR m f = Some (Inl e) \<longleftrightarrow> m = Some (Inl e) \<or> (\<exists>x. m = Some (Inr x) \<and> f x = Some (Inl e))"
  by (cases m) (auto simp: bindR_def split: sum.splits)

lemma bindR_cong [fundef_cong]: "m = m' \<Longrightarrow> (\<And>x. m' = Some (Inr x) \<Longrightarrow> f x = f' x) \<Longrightarrow> bindR m f = bindR m' f'"
  by (auto simp: bindR_def split: sum.splits bind_splits)

lemma bindR_mono [partial_function_mono]:
  assumes "mono_option B" and "\<And>y. mono_option (\<lambda>f. C y f)"
  shows "mono_option (\<lambda>f. bindR (B f) (\<lambda>y. C y f))"
  unfolding bindR_def
proof (rule bind_mono [OF assms(1)])
  fix r show "mono_option (\<lambda>f. case r of Inl e \<Rightarrow> Some (Inl e) | Inr x \<Rightarrow> C x f)"
    using assms(2) by (cases r) (auto intro: option.const_mono)
qed

text \<open>A \<^verbatim>\<open>while\<close> loop whose body says whether to go on.\<close>

partial_function (option) loopR :: "('s \<Rightarrow> bool) \<Rightarrow> ('s \<Rightarrow> (bool \<times> 's) run) \<Rightarrow> 's \<Rightarrow> 's run" where
  "loopR c f s =
     (if c s then bindR (f s) (\<lambda>(go, s'). if go then loopR c f s' else returnR s') else returnR s)"

declare loopR.simps [code]

text \<open>The loop ends and establishes \<^verbatim>\<open>Q\<close>: \<^verbatim>\<open>P\<close> holds in front of every round, and every round that goes on makes the state smaller.\<close>

lemma loopR_rule:
  assumes wf: "wf R" and inv: "P s"
    and step: "\<And>s. P s \<Longrightarrow> c s \<Longrightarrow> \<exists>r. f s = Some r \<and> (\<forall>s'. r = Inr (True, s') \<longrightarrow> P s' \<and> (s', s) \<in> R) \<and> (\<forall>s'. r = Inr (False, s') \<longrightarrow> Q s')"
    and exit: "\<And>s. P s \<Longrightarrow> \<not> c s \<Longrightarrow> Q s"
  shows "\<exists>r. loopR c f s = Some r \<and> (\<forall>t. r = Inr t \<longrightarrow> Q t)"
  using wf inv
proof (induction s)
  case (less s)
  show ?case
  proof (cases "c s")
    case True
    from step [OF less.prems True] obtain r where r: "f s = Some r" "\<And>s'. r = Inr (True, s') \<Longrightarrow> P s' \<and> (s', s) \<in> R"
      "\<And>s'. r = Inr (False, s') \<Longrightarrow> Q s'" by blast
    show ?thesis
    proof (cases r)
      case (Inl e)
      then show ?thesis using r(1) True by (simp add: loopR.simps [of c f s])
    next
      case (Inr t)
      obtain go s' where t: "t = (go, s')" by fastforce
      show ?thesis
      proof (cases go)
        case True
        then show ?thesis using less.IH [of s'] r Inr t \<open>c s\<close> by (simp add: loopR.simps [of c f s])
      qed (use r Inr t True in \<open>simp add: loopR.simps [of c f s]\<close>)
    qed
  qed (use less.prems exit in \<open>simp add: loopR.simps [of c f s]\<close>)
qed

lemma bindR_rule:
  assumes "\<exists>r. m = Some r \<and> (\<forall>x. r = Inr x \<longrightarrow> A x)" and "\<And>x. A x \<Longrightarrow> \<exists>r. f x = Some r \<and> (\<forall>y. r = Inr y \<longrightarrow> B y)"
  shows "\<exists>r. bindR m f = Some r \<and> (\<forall>y. r = Inr y \<longrightarrow> B y)"
proof -
  obtain r where r: "m = Some r" "\<And>x. r = Inr x \<Longrightarrow> A x" using assms(1) by blast
  then show ?thesis using assms(2) by (cases r) auto
qed

end
