(* ===== verification/Scheduler.thy ===== *)
theory Scheduler
  imports Request_Queue Sched_Utils Encoder_Cache KV_Manager Runs
begin

text \<open>
  \<^verbatim>\<open>Scheduler\<close> of \<^verbatim>\<open>v1/core/sched/scheduler.py\<close> and \<^verbatim>\<open>AsyncScheduler\<close> of \<^verbatim>\<open>v1/core/sched/async_scheduler.py\<close>, without a KV connector
  and without an encoder-cache connector (\<^verbatim>\<open>self.connector\<close> and \<^verbatim>\<open>self.ec_connector\<close> are \<^verbatim>\<open>None\<close>), and without statistics, event logs and
  routed experts.

  Requests are objects that the dictionary \<^verbatim>\<open>self.requests\<close>, the running list and the queues share, so the scheduler has a store \<^verbatim>\<open>sd_obj\<close>
  from addresses to requests. The dictionary and the running list hold addresses. A queue holds records that stand for
  references: before every operation the queue is read through the store (\<^verbatim>\<open>rq_view\<close>), so that comparisons see the current fields.
  Sets are lists without duplicates. The lookup and the hasher need not end, so the operations that call them return an \<^verbatim>\<open>option\<close>.
\<close>

section \<open>Configuration and state\<close>

datatype pause_state = UNPAUSED | PAUSED_NEW | PAUSED_ALL

text \<open>\<^verbatim>\<open>structured_output_request.grammar\<close>: not compiled yet, compiled, or the exception of the compiler.\<close>

datatype grammar_state = GrammarPending | GrammarReady | GrammarException

text \<open>What the scheduler calls outside: the digest of prompt embeddings, the block hasher, the report mode of a request, the state of its
  grammar, whether the grammar is advanced by sampled tokens, the part of them it sees and whether it accepts them, and the validation of
  draft tokens.\<close>

record sched_env =
  ev_digest :: "bytes list \<Rightarrow> bytes"
  ev_hasher :: block_hasher
  ev_report_full :: "request \<Rightarrow> bool"
  ev_grammar :: "request \<Rightarrow> grammar_state"
  ev_advance :: "request \<Rightarrow> int list option \<Rightarrow> bool"
  ev_trim :: "request \<Rightarrow> int list \<Rightarrow> int list"
  ev_accepts :: "request \<Rightarrow> int list \<Rightarrow> bool"
  ev_validate :: "request \<Rightarrow> int list \<Rightarrow> int list"

record sched_config =
  cf_policy :: scheduling_policy
  cf_max_num_running_reqs :: int
  cf_max_num_scheduled_tokens :: int
  cf_max_num_batched_tokens :: int
  cf_max_model_len :: int
  cf_num_sampled_tokens_per_step :: int
  cf_long_prefill_token_threshold :: int
  cf_enable_chunked_prefill :: bool
  cf_disable_chunked_mm_input :: bool
  cf_reserve_full_isl :: bool
  cf_block_size :: int
  cf_hash_block_size :: int
  cf_cache_block_size :: int
  cf_is_encoder_decoder :: bool
  cf_is_mm_encoder_only :: bool
  cf_max_num_encoder_input_tokens :: int
  cf_max_loras :: "int option"
  cf_use_eagle :: bool
  cf_draft_slots :: int
  cf_num_spec_tokens :: int
  cf_num_lookahead_tokens :: int
  cf_num_prefill_lookahead :: int
  cf_dynamic_sd_lookup :: "int list option"
  cf_need_mamba_block_aligned_split :: bool
  cf_mamba_has_prefill_checkpoint_blocks :: bool
  cf_mamba_partial_cache_hit :: bool
  cf_needs_kv_cache_zeroing :: bool
  cf_use_pp :: bool
  cf_pp_size :: int
  cf_async_scheduling :: bool
  cf_use_v2_model_runner :: bool
  cf_defer_block_free :: bool

datatype enc_manager = EncCache encoder_cache | EncDecCache encdec_cache

record scheduler =
  sd_config :: sched_config
  sd_obj :: "nat \<Rightarrow> request"
  sd_requests :: "(string \<times> nat) list"
  sd_waiting :: request_queue_obj
  sd_skipped_waiting :: request_queue_obj
  sd_running :: "nat list"
  sd_finished_req_ids :: "string list"
  sd_finished_req_ids_dict :: "(int \<times> string list) list option"
  sd_reset_preempted_req_ids :: "string list"
  sd_num_waiting_for_streaming_input :: int
  sd_finished_recving_kv_req_ids :: "string list"
  sd_failed_recving_kv_req_ids :: "string list"
  sd_grammar_compile_error_reqs :: "string list"
  sd_encoder_cache_manager :: enc_manager
  sd_kv_cache_manager :: kv_manager
  sd_prev_step_scheduled_req_ids :: "string list"
  sd_current_step :: int
  sd_prefill_capacity_bound :: bool
  sd_skip_zero_block_ids :: "block_ref list"
  sd_sched_step_seq :: int
  sd_processed_step_seq :: int
  sd_deferred_frees :: "(int \<times> pool_block list) list"
  sd_pause_state :: pause_state
  sd_inflight_prefills :: "nat list"
  sd_spec_token_placeholders :: "int list"

section \<open>Objects and queues\<close>

definition put_req :: "nat \<Rightarrow> request \<Rightarrow> scheduler \<Rightarrow> scheduler" where
  "put_req a r s = s\<lparr>sd_obj := (sd_obj s)(a := r)\<rparr>"

fun rq_view :: "(nat \<Rightarrow> request) \<Rightarrow> request_queue_obj \<Rightarrow> request_queue_obj" where
  "rq_view ob (FCFSRequestQueue q) = FCFSRequestQueue (map (\<lambda>r. ob (obj_id r)) q)"
| "rq_view ob (PriorityRequestQueue q) = PriorityRequestQueue (q\<lparr>pq_heap := map (\<lambda>r. ob (obj_id r)) (pq_heap q)\<rparr>)"

abbreviation waiting :: "scheduler \<Rightarrow> request_queue_obj" where
  "waiting s \<equiv> rq_view (sd_obj s) (sd_waiting s)"

abbreviation skipped_waiting :: "scheduler \<Rightarrow> request_queue_obj" where
  "skipped_waiting s \<equiv> rq_view (sd_obj s) (sd_skipped_waiting s)"

text \<open>\<^verbatim>\<open>dict.pop(key)\<close>\<close>

definition dict_pop :: "'k \<Rightarrow> ('k \<times> 'v) list \<Rightarrow> ('v \<times> ('k \<times> 'v) list) result" where
  "dict_pop k d = (case map_of d k of None \<Rightarrow> Inl KeyError | Some v \<Rightarrow> Inr (v, AList.delete k d))"

section \<open>The encoder cache\<close>

text \<open>The calls dispatch on the class of the encoder cache manager.\<close>

definition enc_check_and_update_cache :: "request \<Rightarrow> nat \<Rightarrow> enc_manager \<Rightarrow> (bool \<times> enc_manager) result" where
  "enc_check_and_update_cache r i m =
     (case m of
        EncCache c \<Rightarrow> bindE (check_and_update_cache r i c) (\<lambda>(b, c'). Inr (b, EncCache c'))
      | EncDecCache d \<Rightarrow> (let (b, d') = ed_check_and_update_cache r i d in Inr (b, EncDecCache d')))"

definition enc_can_allocate :: "request \<Rightarrow> nat \<Rightarrow> int \<Rightarrow> int \<Rightarrow> enc_manager \<Rightarrow> (bool \<times> enc_manager) result" where
  "enc_can_allocate r i budget embeds m =
     (case m of
        EncCache c \<Rightarrow> bindE (can_allocate r i budget embeds c) (\<lambda>(b, c'). Inr (b, EncCache c'))
      | EncDecCache d \<Rightarrow> bindE (ed_can_allocate r i budget embeds d) (\<lambda>b. Inr (b, EncDecCache d)))"

definition enc_allocate :: "request \<Rightarrow> nat \<Rightarrow> enc_manager \<Rightarrow> enc_manager result" where
  "enc_allocate r i m =
     (case m of
        EncCache c \<Rightarrow> bindE (ec_allocate r i c) (\<lambda>c'. Inr (EncCache c'))
      | EncDecCache d \<Rightarrow> bindE (ed_allocate r i d) (\<lambda>d'. Inr (EncDecCache d')))"

definition enc_get_cached_input_ids :: "request \<Rightarrow> enc_manager \<Rightarrow> nat list" where
  "enc_get_cached_input_ids r m =
     (case m of EncCache c \<Rightarrow> get_cached_input_ids r c | EncDecCache d \<Rightarrow> ed_get_cached_input_ids r d)"

definition enc_free_encoder_input :: "request \<Rightarrow> nat \<Rightarrow> enc_manager \<Rightarrow> enc_manager result" where
  "enc_free_encoder_input r i m =
     (case m of
        EncCache c \<Rightarrow> bindE (free_encoder_input r i c) (\<lambda>c'. Inr (EncCache c'))
      | EncDecCache d \<Rightarrow> bindE (ed_free_encoder_input r i d) (\<lambda>d'. Inr (EncDecCache d')))"

definition enc_free :: "request \<Rightarrow> enc_manager \<Rightarrow> enc_manager result" where
  "enc_free r m =
     (case m of
        EncCache c \<Rightarrow> bindE (ec_free r c) (\<lambda>c'. Inr (EncCache c'))
      | EncDecCache d \<Rightarrow> bindE (ed_free r d) (\<lambda>d'. Inr (EncDecCache d')))"

definition enc_get_freed_mm_hashes :: "enc_manager \<Rightarrow> string list \<times> enc_manager" where
  "enc_get_freed_mm_hashes m =
     (case m of
        EncCache c \<Rightarrow> (let (hs, c') = get_freed_mm_hashes c in (hs, EncCache c'))
      | EncDecCache d \<Rightarrow> (let (hs, d') = ed_get_freed_mm_hashes d in (hs, EncDecCache d')))"

definition enc_reset :: "enc_manager \<Rightarrow> enc_manager" where
  "enc_reset m = (case m of EncCache c \<Rightarrow> EncCache (ec_reset c) | EncDecCache d \<Rightarrow> EncDecCache (ed_reset d))"

text \<open>\<^verbatim>\<open>bisect.bisect_left\<close> with a key.\<close>

function bisect_left :: "('a \<Rightarrow> int) \<Rightarrow> 'a list \<Rightarrow> int \<Rightarrow> nat \<Rightarrow> nat \<Rightarrow> nat" where
  "bisect_left key xs x lo hi =
     (if lo < hi
      then (let mid = (lo + hi) div 2
            in if key (xs ! mid) < x then bisect_left key xs x (mid + 1) hi else bisect_left key xs x lo mid)
      else lo)"
  by auto
termination by (relation "measure (\<lambda>(key, xs, x, lo, hi). hi - lo)") (auto simp: Let_def)

declare bisect_left.simps [simp del]

definition get_mm_features_in_window :: "mm_feature list \<Rightarrow> int \<Rightarrow> int \<Rightarrow> nat \<times> nat" where
  "get_mm_features_in_window features start_pos end_pos =
     (bisect_left (\<lambda>f. offset (mm_position f) + plength (mm_position f)) features (start_pos + 1) 0 (length features),
      bisect_left (\<lambda>f. offset (mm_position f)) features end_pos 0 (length features))"

definition embeds_cumsum :: "bool list \<Rightarrow> int list" where
  "embeds_cumsum m = map (\<lambda>i. int (length (filter id (take (Suc i) m)))) [0..<length m]"

definition get_embeds_indices_in_range :: "placeholder_range \<Rightarrow> int \<Rightarrow> int \<Rightarrow> (int \<times> int) result" where
  "get_embeds_indices_in_range p start_idx end_idx =
     (case is_embed p of
        None \<Rightarrow> Inr (start_idx, end_idx)
      | Some m \<Rightarrow>
          bindE (if start_idx > 0 then py_index (embeds_cumsum m) (start_idx - 1) else Inr 0) (\<lambda>a.
          bindE (if end_idx > 0 then py_index (embeds_cumsum m) (end_idx - 1) else Inr 0) (\<lambda>b. Inr (a, b))))"

text \<open>The variables of the loop of \<^verbatim>\<open>_try_schedule_encoder_inputs\<close>.\<close>

record enc_loop =
  el_inputs :: "nat list"
  el_num_new :: int
  el_budget :: int
  el_hashes :: "string list"
  el_embeds :: int
  el_manager :: enc_manager

text \<open>The end of the body: the part of the input inside the scheduled window has embeddings, so it is scheduled.\<close>

definition schedule_encoder_input :: "mm_feature \<Rightarrow> nat \<Rightarrow> int \<Rightarrow> int \<Rightarrow> enc_loop \<Rightarrow> enc_loop result" where
  "schedule_encoder_input f i num_computed window_end el =
     (let start_pos = offset (mm_position f)
      in bindE (get_embeds_indices_in_range (mm_position f) (max 0 (num_computed - start_pos))
                  (min (plength (mm_position f)) (window_end - start_pos))) (\<lambda>(a, b).
           if b - a = 0 then Inr el
           else (let n = get_num_embeds (mm_position f)
                 in Inr (el\<lparr>el_inputs := el_inputs el @ [i], el_embeds := el_embeds el + n, el_budget := el_budget el - n,
                            el_hashes := List.insert (mm_identifier f) (el_hashes el)\<rparr>))))"

text \<open>The loop over the inputs that overlap the window; the flag of the body says whether to go on.\<close>

definition encoder_input_step :: "sched_config \<Rightarrow> request \<Rightarrow> int \<Rightarrow> int \<Rightarrow> int \<Rightarrow> nat \<Rightarrow> enc_loop \<Rightarrow> (bool \<times> enc_loop) result" where
  "encoder_input_step cf r num_computed shift window_end i el =
     (let f = mm_features r ! i; start_pos = offset (mm_position f)
      in if cf_is_encoder_decoder cf \<and> num_computed > 0
         then (if start_pos = 0 then Inr (True, el) else Inl AssertionError)
         else if \<not> cf_is_encoder_decoder cf \<and> mm_identifier f \<in> set (el_hashes el) then Inr (True, el)
         else
           bindE (if cf_is_encoder_decoder cf then Inr (False, el_manager el)
                  else enc_check_and_update_cache r i (el_manager el)) (\<lambda>(cached, m1).
           let el1 = el\<lparr>el_manager := m1\<rparr> in
           if cached then Inr (True, el1)
           else if cf_disable_chunked_mm_input cf \<and> num_computed < start_pos \<and>
                   num_computed + el_num_new el1 < start_pos + plength (mm_position f)
           then Inr (False, el1\<lparr>el_num_new := max 0 (start_pos - (num_computed + shift))\<rparr>)
           else
             bindE (enc_can_allocate r i (el_budget el1) (el_embeds el1) m1) (\<lambda>(ok, m2).
               let el2 = el1\<lparr>el_manager := m2\<rparr> in
               if \<not> ok
               then Inr (False, el2\<lparr>el_num_new := (if num_computed + shift < start_pos
                                                   then start_pos - (num_computed + shift) else 0)\<rparr>)
               else bindE (schedule_encoder_input f i num_computed window_end el2) (\<lambda>el3. Inr (True, el3)))))"

primrec encoder_input_loop ::
  "sched_config \<Rightarrow> request \<Rightarrow> int \<Rightarrow> int \<Rightarrow> int \<Rightarrow> nat list \<Rightarrow> enc_loop \<Rightarrow> enc_loop result" where
  "encoder_input_loop cf r num_computed shift window_end [] el = Inr el"
| "encoder_input_loop cf r num_computed shift window_end (i # js) el =
     bindE (encoder_input_step cf r num_computed shift window_end i el) (\<lambda>(go, el').
       if go then encoder_input_loop cf r num_computed shift window_end js el' else Inr el')"

text \<open>\<^verbatim>\<open>_try_schedule_encoder_inputs\<close>: the inputs to encode, the number of new tokens and the budget left, and the manager.\<close>

definition try_schedule_encoder_inputs ::
  "sched_config \<Rightarrow> request \<Rightarrow> int \<Rightarrow> int \<Rightarrow> int \<Rightarrow> int \<Rightarrow> enc_manager \<Rightarrow> (nat list \<times> int \<times> int \<times> enc_manager) result" where
  "try_schedule_encoder_inputs cf r num_computed num_new budget shift m =
     (if num_new = 0 \<or> mm_features r = [] then Inr ([], num_new, budget, m)
      else
        (let window_end = num_computed + num_new + shift;
             (lo, hi) = get_mm_features_in_window (mm_features r) num_computed window_end;
             lo' = (if cf_is_encoder_decoder cf then 0 else lo)
         in bindE (encoder_input_loop cf r num_computed shift window_end [lo'..<hi]
                     \<lparr>el_inputs = [], el_num_new = num_new, el_budget = budget, el_hashes = [], el_embeds = 0, el_manager = m\<rparr>)
              (\<lambda>el. Inr (el_inputs el, el_num_new el, el_budget el, el_manager el))))"

section \<open>Token counts\<close>

definition min_inside :: "int list \<Rightarrow> int \<Rightarrow> int \<Rightarrow> int" where
  "min_inside stops lo hi = (let inside = filter (\<lambda>p. lo < p \<and> p < hi) stops in if inside = [] then hi else Min (set inside))"

text \<open>The end of a chunk that is not the last one, rounded down to a block when a block fits into a chunk.\<close>

definition aligned_chunk_end :: "sched_config \<Rightarrow> int \<Rightarrow> int \<Rightarrow> int" where
  "aligned_chunk_end cf start chunk_end =
     (let limit = (if cf_long_prefill_token_threshold cf > 0
                   then min (cf_max_num_scheduled_tokens cf) (cf_long_prefill_token_threshold cf)
                   else cf_max_num_scheduled_tokens cf);
          aligned = chunk_end div cf_cache_block_size cf * cf_cache_block_size cf
      in if aligned > start \<or> cf_cache_block_size cf \<le> limit then aligned else chunk_end)"

definition mamba_block_aligned_split :: "sched_config \<Rightarrow> request \<Rightarrow> int \<Rightarrow> int \<Rightarrow> int \<Rightarrow> int" where
  "mamba_block_aligned_split cf r num_new num_local num_external =
     (let start = num_computed_tokens r + num_local + num_external;
          prefill_end = max (num_prompt_tokens r) (num_tokens r - 1)
      in if start \<ge> prefill_end then num_new
         else
           (let bs = cf_cache_block_size cf;
                last0 = num_tokens r - num_tokens r mod bs;
                last1 = (if cf_use_eagle cf then max (last0 - bs) 0 else last0);
                end0 = start + num_new;
                internal = cf_mamba_has_prefill_checkpoint_blocks cf \<and> start mod bs = 0;
                last_pos = (if internal then 0 else last1);
                end1 = (if end0 < prefill_end \<and> \<not> internal then aligned_chunk_end cf start end0 else end0);
                next_boundary = (start div bs + 1) * bs;
                tail = (if cf_mamba_partial_cache_hit cf
                        then num_prompt_tokens r div cf_hash_block_size cf * cf_hash_block_size cf else 0);
                stops = [if start mod bs \<noteq> 0 then next_boundary else 0,
                         last_pos,
                         if last_pos < tail \<and> tail < num_prompt_tokens r then tail else 0,
                         if start < shared_prefix_boundary r \<and> shared_prefix_boundary r < end1
                         then start + (shared_prefix_boundary r - start) div bs * bs else 0]
            in max (min_inside stops start end1 - start) 0))"

definition reserve_prefill_lookahead :: "sched_config \<Rightarrow> request \<Rightarrow> int \<Rightarrow> int \<Rightarrow> int" where
  "reserve_prefill_lookahead cf r num_computed num_new =
     (let remaining = num_tokens r - num_computed - num_new
      in max (if 0 < remaining \<and> remaining < cf_num_prefill_lookahead cf
              then num_new - (cf_num_prefill_lookahead cf - remaining) else num_new) 0)"

section \<open>Preemption\<close>

definition free_request_blocks :: "nat \<Rightarrow> scheduler \<Rightarrow> scheduler result" where
  "free_request_blocks a s =
     (let r = sd_obj s a
      in if \<not> cf_defer_block_free (sd_config s) \<or> last_sched_seq r \<le> sd_processed_step_seq s
         then bindE (kvm_free (request_id r) (sd_kv_cache_manager s)) (\<lambda>k. Inr (s\<lparr>sd_kv_cache_manager := k\<rparr>))
         else bindE (kvm_pop_blocks_for_free (request_id r) (sd_kv_cache_manager s)) (\<lambda>(blocks, k).
                Inr (s\<lparr>sd_kv_cache_manager := k,
                       sd_deferred_frees := sd_deferred_frees s @ (if blocks = [] then [] else [(sd_sched_step_seq s, blocks)])\<rparr>)))"

definition preempt_request :: "bool \<Rightarrow> nat \<Rightarrow> scheduler \<Rightarrow> scheduler result" where
  "preempt_request drop_stale a s =
     (if status (sd_obj s a) \<noteq> RUNNING then Inl AssertionError
      else
        bindE (free_request_blocks a s) (\<lambda>s1.
        bindE (enc_free (sd_obj s1 a) (sd_encoder_cache_manager s1)) (\<lambda>m.
          let r = sd_obj s1 a;
              r' = r\<lparr>status := PREEMPTED, num_computed_tokens := 0, spec_token_ids := [],
                     drop_stale_output := drop_stale \<or> drop_stale_output r \<and> num_stale_output_tokens r > 0,
                     num_stale_output_tokens := num_in_flight_tokens r, num_output_placeholders := 0,
                     num_preemptions := num_preemptions r + 1\<rparr>;
              s2 = put_req a r' (s1\<lparr>sd_encoder_cache_manager := m, sd_inflight_prefills := removeAll a (sd_inflight_prefills s1)\<rparr>)
          in Inr (s2\<lparr>sd_waiting := rq_prepend_request r' (waiting s2),
                     sd_reset_preempted_req_ids := List.insert (request_id r') (sd_reset_preempted_req_ids s2)\<rparr>))))"

section \<open>The running requests\<close>

text \<open>The local variables of \<^verbatim>\<open>schedule\<close> with the scheduler; requests are addresses.\<close>

record sched_loop =
  lo_sd :: scheduler
  lo_new_reqs :: "nat list"
  lo_resumed_reqs :: "nat list"
  lo_running_reqs :: "nat list"
  lo_preempted_reqs :: "nat list"
  lo_new_blocks :: "(string \<times> kv_cache_blocks) list"
  lo_num_tokens :: "(string \<times> int) list"
  lo_token_budget :: int
  lo_input_budget :: int
  lo_encoder_inputs :: "(string \<times> nat list) list"
  lo_encoder_budget :: int
  lo_spec_tokens :: "(string \<times> int list) list"
  lo_prefill_scheduled :: bool
  lo_req_index :: nat
  lo_loras :: "int list"
  lo_step_skipped :: request_queue_obj

abbreviation lo_config :: "sched_loop \<Rightarrow> sched_config" where
  "lo_config lo \<equiv> sd_config (lo_sd lo)"

text \<open>\<^verbatim>\<open>max(self.running, key=...)\<close>: the first request of the largest key.\<close>

definition victim_less :: "request \<Rightarrow> request \<Rightarrow> bool" where
  "victim_less r r' \<longleftrightarrow> priority r < priority r' \<or> priority r = priority r' \<and> arrival_time r < arrival_time r'"

definition max_request :: "(nat \<Rightarrow> request) \<Rightarrow> nat list \<Rightarrow> nat result" where
  "max_request ob as =
     (case as of [] \<Rightarrow> Inl ValueError | a # as' \<Rightarrow> Inr (fold (\<lambda>b m. if victim_less (ob m) (ob b) then b else m) as' a))"

text \<open>Undoing what the step had scheduled for the victim.\<close>

definition unschedule_victim :: "nat \<Rightarrow> sched_loop \<Rightarrow> sched_loop result" where
  "unschedule_victim v lo =
     (let rid = request_id (sd_obj (lo_sd lo) v)
      in bindE (dict_pop rid (lo_num_tokens lo)) (\<lambda>(restored, toks).
         bindE (dict_pop rid (lo_new_blocks lo)) (\<lambda>(_, blocks).
         bindE (mapE (get_num_encoder_embeds (sd_obj (lo_sd lo) v))
                  (case map_of (lo_encoder_inputs lo) rid of None \<Rightarrow> [] | Some ids \<Rightarrow> ids)) (\<lambda>embeds.
           Inr (lo\<lparr>lo_running_reqs := remove1 v (lo_running_reqs lo), lo_num_tokens := toks,
                   lo_token_budget := lo_token_budget lo + restored,
                   lo_input_budget := lo_input_budget lo + (restored + cf_draft_slots (lo_config lo)),
                   lo_new_blocks := blocks, lo_spec_tokens := AList.delete rid (lo_spec_tokens lo),
                   lo_encoder_inputs := AList.delete rid (lo_encoder_inputs lo),
                   lo_encoder_budget := lo_encoder_budget lo + sum_list embeds\<rparr>)))))"

text \<open>The victim, taken out of the running list.\<close>

definition pop_victim :: "sched_loop \<Rightarrow> (nat \<times> sched_loop) result" where
  "pop_victim lo =
     (let s = lo_sd lo; running = sd_running s
      in case cf_policy (sd_config s) of
           PRIORITY \<Rightarrow>
             bindE (max_request (sd_obj s) running) (\<lambda>v.
               let i = length (takeWhile (\<lambda>x. x \<noteq> v) running);
                   lo1 = lo\<lparr>lo_sd := s\<lparr>sd_running := remove1 v running\<rparr>,
                            lo_req_index := (if i < lo_req_index lo then lo_req_index lo - 1 else lo_req_index lo)\<rparr>
               in if v \<in> set (lo_running_reqs lo1) then bindE (unschedule_victim v lo1) (\<lambda>lo2. Inr (v, lo2)) else Inr (v, lo1))
         | FCFS \<Rightarrow>
             if running = [] then Inl IndexError
             else Inr (last running, lo\<lparr>lo_sd := s\<lparr>sd_running := butlast running\<rparr>\<rparr>))"

text \<open>One round of the inner \<^verbatim>\<open>while True\<close>: allocate, or preempt one request; the blocks are \<^verbatim>\<open>None\<close> until the allocation succeeds.\<close>

definition alloc_step ::
  "sched_env \<Rightarrow> nat \<Rightarrow> int \<Rightarrow> sched_loop \<times> kv_cache_blocks option \<Rightarrow> (bool \<times> sched_loop \<times> kv_cache_blocks option) result" where
  "alloc_step env a num_new st =
     (let lo = fst st; s = lo_sd lo
      in bindE (allocate_slots (ev_digest env) (sd_obj s a) num_new 0 EmptyKVCacheBlocks (cf_num_lookahead_tokens (sd_config s))
                  0 False 0 False 0 True (sd_kv_cache_manager s)) (\<lambda>(res, r', k').
           let lo1 = lo\<lparr>lo_sd := put_req a r' (s\<lparr>sd_kv_cache_manager := k'\<rparr>)\<rparr>
           in case res of
                Some blocks \<Rightarrow> Inr (False, lo1, Some blocks)
              | None \<Rightarrow>
                  bindE (pop_victim lo1) (\<lambda>(v, lo2).
                  bindE (preempt_request False v (lo_sd lo2)) (\<lambda>s3.
                    Inr (v \<noteq> a, lo2\<lparr>lo_sd := s3, lo_preempted_reqs := lo_preempted_reqs lo2 @ [v]\<rparr>, None)))))"

definition alloc_or_preempt :: "sched_env \<Rightarrow> nat \<Rightarrow> int \<Rightarrow> sched_loop \<Rightarrow> (sched_loop \<times> kv_cache_blocks option) run" where
  "alloc_or_preempt env a num_new lo = loopR (\<lambda>_. True) (\<lambda>st. liftR (alloc_step env a num_new st)) (lo, None)"

text \<open>The tokens a running request could get, before the encoder inputs are considered.\<close>

definition running_num_new_tokens :: "sched_loop \<Rightarrow> request \<Rightarrow> int" where
  "running_num_new_tokens lo r =
     (let cf = lo_config lo;
          n0 = num_tokens_with_spec r + num_output_placeholders r - num_computed_tokens r;
          n1 = (if 0 < cf_long_prefill_token_threshold cf \<and> cf_long_prefill_token_threshold cf < n0
                then cf_long_prefill_token_threshold cf else n0);
          n2 = min (min n1 (lo_token_budget lo)) (lo_input_budget lo - cf_draft_slots cf);
          n3 = min n2 (cf_max_model_len cf - num_computed_tokens r - cf_num_sampled_tokens_per_step cf)
      in if cf_need_mamba_block_aligned_split cf then mamba_block_aligned_split cf r n3 0 0 else n3)"

text \<open>Whether the request is passed over: it has reached its last token, waits for its decode slot, or its prefill is deferred.\<close>

definition running_skipped :: "bool \<Rightarrow> sched_loop \<Rightarrow> request \<Rightarrow> bool" where
  "running_skipped defer_prefills lo r \<longleftrightarrow>
     num_output_placeholders r > 0 \<and>
       num_computed_tokens r + 2 - num_output_placeholders r \<ge> num_prompt_tokens r + max_tokens r \<or>
     sd_current_step (lo_sd lo) < next_decode_eligible_step r \<or>
     defer_prefills \<and> is_prefill_chunk r"

text \<open>The encoder inputs scheduled with the request are allocated.\<close>

definition allocate_encoder_inputs :: "nat \<Rightarrow> nat list \<Rightarrow> int \<Rightarrow> sched_loop \<Rightarrow> sched_loop result" where
  "allocate_encoder_inputs a inputs new_budget lo =
     (if inputs = [] then Inr lo
      else
        (let s = lo_sd lo
         in bindE (foldE (enc_allocate (sd_obj s a)) inputs (sd_encoder_cache_manager s)) (\<lambda>m.
              Inr (lo\<lparr>lo_encoder_inputs := AList.update (request_id (sd_obj s a)) inputs (lo_encoder_inputs lo),
                      lo_sd := s\<lparr>sd_encoder_cache_manager := m\<rparr>, lo_encoder_budget := new_budget\<rparr>))))"

definition schedule_spec_tokens :: "nat \<Rightarrow> int \<Rightarrow> sched_loop \<Rightarrow> sched_loop" where
  "schedule_spec_tokens a num_new lo =
     (let s = lo_sd lo; r = sd_obj s a
      in if spec_token_ids r = [] then lo
         else
           (let n = num_new + num_computed_tokens r - num_tokens r - num_output_placeholders r
            in lo\<lparr>lo_spec_tokens := (if n > 0 then AList.update (request_id r) (take (nat n) (spec_token_ids r)) (lo_spec_tokens lo)
                                     else lo_spec_tokens lo),
                  lo_sd := put_req a (r\<lparr>spec_token_ids := []\<rparr>) s\<rparr>))"

definition count_scheduled :: "string \<Rightarrow> kv_cache_blocks \<Rightarrow> int \<Rightarrow> sched_loop \<Rightarrow> sched_loop" where
  "count_scheduled rid blocks num_new lo =
     lo\<lparr>lo_new_blocks := AList.update rid blocks (lo_new_blocks lo),
        lo_num_tokens := AList.update rid num_new (lo_num_tokens lo),
        lo_token_budget := lo_token_budget lo - num_new,
        lo_input_budget := lo_input_budget lo - (num_new + cf_draft_slots (lo_config lo))\<rparr>"

definition commit_running :: "nat \<Rightarrow> kv_cache_blocks \<Rightarrow> int \<Rightarrow> nat list \<Rightarrow> int \<Rightarrow> sched_loop \<Rightarrow> sched_loop result" where
  "commit_running a blocks num_new inputs new_budget lo =
     (let r = sd_obj (lo_sd lo) a;
          lo1 = count_scheduled (request_id r) blocks num_new
                  (lo\<lparr>lo_running_reqs := lo_running_reqs lo @ [a],
                      lo_prefill_scheduled := lo_prefill_scheduled lo \<or> is_prefill_chunk r,
                      lo_req_index := lo_req_index lo + 1\<rparr>)
      in allocate_encoder_inputs a inputs new_budget (schedule_spec_tokens a num_new lo1))"

text \<open>The encoder inputs of a request at a position; \<^verbatim>\<open>None\<close> of the code is the empty list.\<close>

definition schedule_encoder_inputs :: "nat \<Rightarrow> int \<Rightarrow> int \<Rightarrow> sched_loop \<Rightarrow> (nat list \<times> int \<times> int \<times> sched_loop) result" where
  "schedule_encoder_inputs a num_computed num_new lo =
     (let s = lo_sd lo; r = sd_obj s a
      in if mm_features r = [] then Inr ([], num_new, lo_encoder_budget lo, lo)
         else bindE (try_schedule_encoder_inputs (sd_config s) r num_computed num_new (lo_encoder_budget lo)
                       (cf_num_prefill_lookahead (sd_config s)) (sd_encoder_cache_manager s)) (\<lambda>(inputs, n, budget, m).
                Inr (inputs, n, budget, lo\<lparr>lo_sd := s\<lparr>sd_encoder_cache_manager := m\<rparr>\<rparr>)))"

definition skip_running :: "sched_loop \<Rightarrow> sched_loop" where
  "skip_running lo = lo\<lparr>lo_req_index := lo_req_index lo + 1\<rparr>"

definition running_step :: "sched_env \<Rightarrow> bool \<Rightarrow> sched_loop \<Rightarrow> (bool \<times> sched_loop) run" where
  "running_step env defer_prefills lo =
     (let a = sd_running (lo_sd lo) ! lo_req_index lo; r = sd_obj (lo_sd lo) a; cf = lo_config lo
      in if lo_input_budget lo \<le> cf_draft_slots cf then returnR (False, lo)
         else if running_skipped defer_prefills lo r then returnR (True, skip_running lo)
         else
           bindR (liftR (schedule_encoder_inputs a (num_computed_tokens r) (running_num_new_tokens lo r) lo)) (\<lambda>(inputs, n, budget, lo1).
             let num_new = reserve_prefill_lookahead cf r (num_computed_tokens r) n
             in if num_new = 0 then returnR (True, skip_running lo1)
                else
                  bindR (alloc_or_preempt env a num_new lo1) (\<lambda>(lo2, res).
                    case res of
                      None \<Rightarrow> returnR (False, lo2)
                    | Some blocks \<Rightarrow>
                        bindR (liftR (commit_running a blocks num_new inputs budget lo2)) (\<lambda>lo3. returnR (True, lo3)))))"

definition schedule_running :: "sched_env \<Rightarrow> bool \<Rightarrow> sched_loop \<Rightarrow> sched_loop run" where
  "schedule_running env defer_prefills lo =
     loopR (\<lambda>lo. lo_req_index lo < length (sd_running (lo_sd lo)) \<and> lo_token_budget lo > 0) (running_step env defer_prefills) lo"

text \<open>The adapters of the scheduled requests.\<close>

definition record_loras :: "sched_loop \<Rightarrow> sched_loop result" where
  "record_loras lo =
     (case cf_max_loras (lo_config lo) of
        None \<Rightarrow> Inr lo
      | Some m \<Rightarrow>
          (let ids = remdups (concat (map (\<lambda>a. case lora_request (sd_obj (lo_sd lo) a) of
                                                 None \<Rightarrow> []
                                               | Some l \<Rightarrow> if lora_int_id l > 0 then [lora_int_id l] else []) (lo_running_reqs lo)))
           in if int (length ids) \<le> m then Inr (lo\<lparr>lo_loras := ids\<rparr>) else Inl AssertionError))"

section \<open>The waiting requests\<close>

definition is_blocked_waiting_status :: "request_status \<Rightarrow> bool" where
  "is_blocked_waiting_status st \<longleftrightarrow>
     st \<in> {WAITING_FOR_STRUCTURED_OUTPUT_GRAMMAR, WAITING_FOR_REMOTE_KVS, WAITING_FOR_STREAMING_REQ}"

definition enqueue_waiting_request :: "nat \<Rightarrow> scheduler \<Rightarrow> scheduler" where
  "enqueue_waiting_request a s =
     (let r = sd_obj s a
      in if is_blocked_waiting_status (status r) then s\<lparr>sd_skipped_waiting := rq_add_request r (skipped_waiting s)\<rparr>
         else s\<lparr>sd_waiting := rq_add_request r (waiting s)\<rparr>)"

datatype queue_name = WaitingQueue | SkippedQueue

definition get_queue :: "queue_name \<Rightarrow> scheduler \<Rightarrow> request_queue_obj" where
  "get_queue q s = (case q of WaitingQueue \<Rightarrow> waiting s | SkippedQueue \<Rightarrow> skipped_waiting s)"

definition put_queue :: "queue_name \<Rightarrow> request_queue_obj \<Rightarrow> scheduler \<Rightarrow> scheduler" where
  "put_queue q x s = (case q of WaitingQueue \<Rightarrow> s\<lparr>sd_waiting := x\<rparr> | SkippedQueue \<Rightarrow> s\<lparr>sd_skipped_waiting := x\<rparr>)"

definition select_waiting_queue_for_scheduling :: "scheduler \<Rightarrow> queue_name option result" where
  "select_waiting_queue_for_scheduling s =
     (let w = rq_bool (waiting s); k = rq_bool (skipped_waiting s)
      in if cf_policy (sd_config s) = FCFS
         then Inr (if k then Some SkippedQueue else if w then Some WaitingQueue else None)
         else if w \<and> k
         then bindE (rq_peek_request (waiting s)) (\<lambda>rw.
              bindE (rq_peek_request (skipped_waiting s)) (\<lambda>rk.
                Inr (Some (if request_lt rw rk then WaitingQueue else SkippedQueue))))
         else Inr (if w then Some WaitingQueue else if k then Some SkippedQueue else None))"

text \<open>Without a connector no request is in \<^verbatim>\<open>finished_recving_kv_req_ids\<close>; \<^verbatim>\<open>_update_waiting_for_remote_kv\<close> is not reached.\<close>

definition try_promote_blocked_waiting_request :: "sched_env \<Rightarrow> nat \<Rightarrow> scheduler \<Rightarrow> (bool \<times> scheduler) result" where
  "try_promote_blocked_waiting_request env a s =
     (let r = sd_obj s a
      in case status r of
           WAITING_FOR_REMOTE_KVS \<Rightarrow> Inr (False, s)
         | WAITING_FOR_STRUCTURED_OUTPUT_GRAMMAR \<Rightarrow>
             if \<not> use_structured_output r then Inr (False, s)
             else (case ev_grammar env r of
                     GrammarPending \<Rightarrow> Inr (False, s)
                   | GrammarException \<Rightarrow>
                       Inr (False, s\<lparr>sd_grammar_compile_error_reqs := List.insert (request_id r) (sd_grammar_compile_error_reqs s)\<rparr>)
                   | GrammarReady \<Rightarrow> Inr (True, put_req a (r\<lparr>status := WAITING\<rparr>) s))
         | WAITING_FOR_STREAMING_REQ \<Rightarrow>
             if streaming_queue r = None \<or> streaming_queue r = Some [] then Inr (False, s) else Inl AssertionError
         | _ \<Rightarrow> Inl AssertionError)"

text \<open>The request is taken from its queue and put in front of \<^verbatim>\<open>step_skipped_waiting\<close>.\<close>

definition skip_waiting :: "queue_name \<Rightarrow> nat \<Rightarrow> sched_loop \<Rightarrow> sched_loop result" where
  "skip_waiting q a lo =
     (let s = lo_sd lo
      in bindE (rq_pop_request (get_queue q s)) (\<lambda>(_, x).
           let s' = put_queue q x s
           in Inr (lo\<lparr>lo_sd := s', lo_step_skipped := rq_prepend_request (sd_obj s' a) (rq_view (sd_obj s') (lo_step_skipped lo))\<rparr>)))"

definition lora_blocked :: "sched_loop \<Rightarrow> request \<Rightarrow> bool" where
  "lora_blocked lo r \<longleftrightarrow>
     (case (cf_max_loras (lo_config lo), lora_request r) of
        (Some m, Some l) \<Rightarrow> int (length (lo_loras lo)) = m \<and> lora_int_id l \<notin> set (lo_loras lo)
      | _ \<Rightarrow> False)"

definition note_prefill :: "int \<Rightarrow> request \<Rightarrow> request result" where
  "note_prefill num_computed r =
     (case prefill_stats r of
        None \<Rightarrow> Inr r
      | Some p \<Rightarrow>
          if num_preemptions r > 0 then Inr r
          else if num_computed > num_prompt_tokens r then Inl AssertionError
          else bindE (prefill_stats_set (num_prompt_tokens r) num_computed 0 p) (\<lambda>p'. Inr (r\<lparr>prefill_stats := Some p'\<rparr>)))"

text \<open>The cached tokens of the request: the blocks, the number of tokens they hold and the number of computed tokens.\<close>

definition lookup_waiting :: "sched_env \<Rightarrow> nat \<Rightarrow> sched_loop \<Rightarrow> (kv_cache_blocks \<times> int \<times> int \<times> sched_loop) run" where
  "lookup_waiting env a lo =
     (let s = lo_sd lo; r = sd_obj s a
      in if num_computed_tokens r = 0
         then bindR (get_computed_blocks (ev_digest env) (ev_report_full env r) r (sd_kv_cache_manager s)) (\<lambda>(blocks, num_local, boundary, r1, k).
              let r2 = r1\<lparr>shared_prefix_boundary := boundary\<rparr>
              in if num_local > num_tokens r2 then raiseR AssertionError
                 else bindR (liftR (note_prefill num_local r2)) (\<lambda>r3.
                   returnR (blocks, num_local, num_local, lo\<lparr>lo_sd := put_req a r3 (s\<lparr>sd_kv_cache_manager := k\<rparr>)\<rparr>)))
         else returnR (EmptyKVCacheBlocks, 0, num_computed_tokens r, lo))"

text \<open>A decode that joins a uniform batch is padded with draft tokens: \<^verbatim>\<open>None\<close> when the padding does not fit into the budget.\<close>

definition pad_decode :: "int \<Rightarrow> int \<Rightarrow> int \<Rightarrow> sched_loop \<Rightarrow> (int \<times> bool) option" where
  "pad_decode num_computed budget num_new lo =
     (let cf = lo_config lo; padded = 1 + cf_num_spec_tokens cf
      in if cf_num_spec_tokens cf > 0 \<and> cf_dynamic_sd_lookup cf = None \<and> cf_num_sampled_tokens_per_step cf > 0 \<and>
            num_new = 1 \<and> lo_running_reqs lo \<noteq> [] \<and> \<not> lo_prefill_scheduled lo \<and>
            num_computed + padded + cf_num_sampled_tokens_per_step cf \<le> cf_max_model_len cf
         then (if padded > budget then None else Some (padded, True))
         else Some (num_new, False))"

text \<open>The tokens of the request before the encoder inputs are considered, and whether they are padded; \<^verbatim>\<open>None\<close> ends the loop.\<close>

definition waiting_num_new_tokens :: "request \<Rightarrow> int \<Rightarrow> int \<Rightarrow> sched_loop \<Rightarrow> (int \<times> bool) option result" where
  "waiting_num_new_tokens r num_local num_computed lo =
     (let cf = lo_config lo; budget = min (lo_token_budget lo) (lo_input_budget lo - cf_draft_slots cf); threshold = cf_long_prefill_token_threshold cf
      in case pad_decode num_computed budget (num_tokens r - num_computed) lo of
           None \<Rightarrow> Inr None
         | Some (n0, pad) \<Rightarrow>
             (let n1 = (if 0 < threshold \<and> threshold < n0 then threshold else n0)
              in if \<not> cf_enable_chunked_prefill cf \<and> n1 > budget then Inr None
                 else if min n1 budget \<le> 0 then Inl AssertionError
                 else if \<not> cf_need_mamba_block_aligned_split cf then Inr (Some (min n1 budget, pad))
                 else
                   (let n2 = mamba_block_aligned_split cf r (min n1 budget) num_local 0
                    in if n2 = 0 then Inr None
                       else if pad \<and> n2 \<noteq> 1 + cf_num_spec_tokens cf then Inr (Some (1, False))
                       else Inr (Some (n2, pad)))))"

text \<open>The adapters, counts and status of a request that starts to run.\<close>

definition start_running :: "request \<Rightarrow> int \<Rightarrow> int \<Rightarrow> bool \<Rightarrow> sched_loop \<Rightarrow> sched_loop" where
  "start_running r num_computed num_new pad lo =
     (let a = obj_id r; cf = lo_config lo;
          lo1 = lo\<lparr>lo_loras := (case (cf_max_loras cf, lora_request r) of
                                  (Some _, Some l) \<Rightarrow> List.insert (lora_int_id l) (lo_loras lo)
                                | _ \<Rightarrow> lo_loras lo)\<rparr>;
          lo2 = count_scheduled (request_id r) (kvm_get_blocks (request_id r) (sd_kv_cache_manager (lo_sd lo1))) num_new lo1;
          s = put_req a (r\<lparr>status := RUNNING, num_computed_tokens := num_computed\<rparr>) (lo_sd lo2)
      in lo2\<lparr>lo_spec_tokens := (if pad then AList.update (request_id r) (replicate (nat (cf_num_spec_tokens cf)) (- 1)) (lo_spec_tokens lo2)
                                else lo_spec_tokens lo2),
             lo_sd := s\<lparr>sd_inflight_prefills := (if num_computed + num_new < num_tokens r
                                                then List.insert a (sd_inflight_prefills s) else sd_inflight_prefills s)\<rparr>\<rparr>)"

text \<open>The request is admitted: it leaves its queue and joins the running list.\<close>

definition admit_waiting :: "queue_name \<Rightarrow> int \<Rightarrow> int \<Rightarrow> bool \<Rightarrow> nat list \<Rightarrow> int \<Rightarrow> sched_loop \<Rightarrow> sched_loop result" where
  "admit_waiting q num_computed num_new pad inputs new_budget lo =
     bindE (rq_pop_request (get_queue q (lo_sd lo))) (\<lambda>(r, x).
       let a = obj_id r; s = put_queue q x (lo_sd lo); lo1 = lo\<lparr>lo_sd := s\<lparr>sd_running := sd_running s @ [a]\<rparr>\<rparr>
       in bindE (if status r = WAITING then Inr (lo1\<lparr>lo_new_reqs := lo_new_reqs lo1 @ [a]\<rparr>)
                 else if status r = PREEMPTED then Inr (lo1\<lparr>lo_resumed_reqs := lo_resumed_reqs lo1 @ [a]\<rparr>)
                 else Inl RuntimeError) (\<lambda>lo2.
            if pad \<and> num_new \<noteq> 1 + cf_num_spec_tokens (sd_config s) then Inl AssertionError
            else allocate_encoder_inputs a inputs new_budget (start_running r num_computed num_new pad lo2)))"

text \<open>The allocation of a waiting request whose token count is known.\<close>

definition allocate_waiting ::
  "sched_env \<Rightarrow> queue_name \<Rightarrow> nat \<Rightarrow> kv_cache_blocks \<Rightarrow> int \<Rightarrow> int \<Rightarrow> int \<Rightarrow> bool \<Rightarrow> nat list \<Rightarrow> int \<Rightarrow> sched_loop \<Rightarrow> (bool \<times> sched_loop) result" where
  "allocate_waiting env q a blocks num_local num_computed num_new pad inputs new_budget lo =
     (let s = lo_sd lo; r = sd_obj s a; cf = sd_config s
      in bindE (if cf_is_encoder_decoder cf \<and> mm_features r \<noteq> []
                then bindE (mapE (get_num_encoder_embeds r) inputs) (\<lambda>ns. Inr (sum_list ns)) else Inr 0) (\<lambda>num_encoder.
         bindE (allocate_slots (ev_digest env) r num_new num_local blocks (cf_num_lookahead_tokens cf) 0 False num_encoder
                  (cf_reserve_full_isl cf) 0 (sd_running s \<noteq> []) (sd_kv_cache_manager s)) (\<lambda>(res, r', k').
           let s1 = put_req a r' (s\<lparr>sd_kv_cache_manager := k'\<rparr>)
           in case res of
                None \<Rightarrow>
                  bindE (if mm_features r = [] then Inr (sd_encoder_cache_manager s1)
                         else enc_free r' (sd_encoder_cache_manager s1)) (\<lambda>m.
                    Inr (False, lo\<lparr>lo_sd := s1\<lparr>sd_encoder_cache_manager := m\<rparr>\<rparr>))
              | Some _ \<Rightarrow>
                  bindE (if num_computed_tokens r = 0 then record_prefix_cache_stats r' num_local k' else Inr k') (\<lambda>k2.
                  bindE (admit_waiting q num_computed num_new pad inputs new_budget
                           (lo\<lparr>lo_sd := s1\<lparr>sd_kv_cache_manager := k2\<rparr>\<rparr>)) (\<lambda>lo'. Inr (True, lo'))))))"

text \<open>From the lookup on: the request at the head of queue \<^verbatim>\<open>q\<close> is scheduled, or the loop ends.\<close>

definition schedule_waiting_request :: "sched_env \<Rightarrow> bool \<Rightarrow> queue_name \<Rightarrow> nat \<Rightarrow> sched_loop \<Rightarrow> (bool \<times> sched_loop) run" where
  "schedule_waiting_request env defer_prefills q a lo =
     bindR (lookup_waiting env a lo) (\<lambda>(blocks, num_local, num_computed, lo1).
       let r = sd_obj (lo_sd lo1) a
       in if defer_prefills \<and> num_computed < num_tokens r - 1 then returnR (False, lo1)
          else
            liftR (bindE (waiting_num_new_tokens r num_local num_computed lo1) (\<lambda>res.
              case res of
                None \<Rightarrow> Inr (False, lo1)
              | Some (n, pad) \<Rightarrow>
                  bindE (schedule_encoder_inputs a num_computed n lo1) (\<lambda>(inputs, n', budget, lo2).
                    let num_new = reserve_prefill_lookahead (lo_config lo2) r num_computed n'
                    in if num_new = 0 then Inr (False, lo2)
                       else allocate_waiting env q a blocks num_local num_computed num_new pad inputs budget lo2))))"

definition waiting_step :: "sched_env \<Rightarrow> bool \<Rightarrow> sched_loop \<Rightarrow> (bool \<times> sched_loop) run" where
  "waiting_step env defer_prefills lo =
     (let s = lo_sd lo; cf = sd_config s
      in if lo_input_budget lo \<le> cf_draft_slots cf then returnR (False, lo)
         else if int (length (sd_running s)) + sd_num_waiting_for_streaming_input s \<ge> cf_max_num_running_reqs cf then returnR (False, lo)
         else
           bindR (liftR (select_waiting_queue_for_scheduling s)) (\<lambda>qo.
             case qo of
               None \<Rightarrow> raiseR AssertionError
             | Some q \<Rightarrow>
                 bindR (liftR (rq_peek_request (get_queue q s))) (\<lambda>r.
                 bindR (liftR (if is_blocked_waiting_status (status r)
                               then try_promote_blocked_waiting_request env (obj_id r) s else Inr (True, s))) (\<lambda>(ok, s1).
                   let a = obj_id r; lo1 = lo\<lparr>lo_sd := s1\<rparr>; r1 = sd_obj s1 a
                   in if \<not> ok \<or> num_stale_output_tokens r1 > 0 \<and> \<not> drop_stale_output r1 \<or> lora_blocked lo1 r1
                      then bindR (liftR (skip_waiting q a lo1)) (\<lambda>lo2. returnR (True, lo2))
                      else schedule_waiting_request env defer_prefills q a lo1))))"

definition schedule_waiting :: "sched_env \<Rightarrow> bool \<Rightarrow> sched_loop \<Rightarrow> sched_loop run" where
  "schedule_waiting env defer_prefills lo =
     (if lo_preempted_reqs lo \<noteq> [] \<or> sd_pause_state (lo_sd lo) \<noteq> UNPAUSED then returnR lo
      else
        bindR (loopR (\<lambda>lo. (rq_bool (waiting (lo_sd lo)) \<or> rq_bool (skipped_waiting (lo_sd lo))) \<and> lo_token_budget lo > 0)
                 (waiting_step env defer_prefills) (lo\<lparr>lo_step_skipped := create_request_queue (cf_policy (lo_config lo))\<rparr>)) (\<lambda>lo1.
          let s = lo_sd lo1; skipped = rq_view (sd_obj s) (lo_step_skipped lo1);
              s1 = (if rq_bool skipped then s\<lparr>sd_skipped_waiting := rq_prepend_requests skipped (skipped_waiting s)\<rparr> else s);
              s2 = (if defer_prefills then s1 else s1\<lparr>sd_prefill_capacity_bound := rq_bool (waiting s1)\<rparr>)
          in returnR (lo1\<lparr>lo_sd := s2\<rparr>)))"

section \<open>The output of a step\<close>

text \<open>The multi-modal features and the token mask that \<^verbatim>\<open>NewRequestData\<close> carries along are left out.\<close>

record new_request_data =
  nr_req_id :: string
  nr_prompt_token_ids :: "int list option"
  nr_block_ids :: "int list list"
  nr_num_computed_tokens :: int
  nr_lora_request :: "lora_req option"
  nr_prefill_token_ids :: "int list option"

record cached_request_data =
  cr_req_ids :: "string list"
  cr_resumed_req_ids :: "string list"
  cr_new_token_ids :: "int list list"
  cr_all_token_ids :: "(string \<times> int list) list"
  cr_new_block_ids :: "int list list option list"
  cr_num_computed_tokens :: "int list"
  cr_num_output_tokens :: "int list"

record scheduler_output =
  so_new_reqs :: "new_request_data list"
  so_cached_reqs :: cached_request_data
  so_num_scheduled_tokens :: "(string \<times> int) list"
  so_total_num_scheduled_tokens :: int
  so_spec_decode_tokens :: "(string \<times> int list) list"
  so_encoder_inputs :: "(string \<times> nat list) list"
  so_num_common_prefix_blocks :: "int list"
  so_preempted_req_ids :: "string list"
  so_finished_req_ids :: "string list"
  so_free_encoder_mm_hashes :: "string list"
  so_new_block_ids_to_zero :: "block_ref list option"
  so_kv_cache_block_copies :: "(int \<times> int \<times> int) list option"
  so_num_spec_tokens_to_schedule :: int
  so_has_structured_output_requests :: bool
  so_pending_structured_output_tokens :: bool
  so_num_invalid_spec_tokens :: "(string \<times> int) list option"

text \<open>The assertions on the finished loops.\<close>

definition constraints_hold :: "sched_loop \<Rightarrow> bool" where
  "constraints_hold lo \<longleftrightarrow>
     sum_list (map snd (lo_num_tokens lo)) \<le> cf_max_num_scheduled_tokens (lo_config lo) \<and>
     lo_token_budget lo \<ge> 0 \<and> lo_input_budget lo \<ge> 0 \<and>
     int (length (sd_running (lo_sd lo))) \<le> cf_max_num_running_reqs (lo_config lo) \<and>
     length (lo_new_reqs lo) + length (lo_resumed_reqs lo) + length (lo_running_reqs lo) \<le> length (sd_running (lo_sd lo))"

definition dict_get :: "'k \<Rightarrow> ('k \<times> 'v) list \<Rightarrow> 'v result" where
  "dict_get k d = of_option KeyError (map_of d k)"

definition new_request_data_of :: "sched_loop \<Rightarrow> nat \<Rightarrow> new_request_data result" where
  "new_request_data_of lo a =
     (let s = lo_sd lo; r = sd_obj s a
      in bindE (dict_get (request_id r) (lo_new_blocks lo)) (\<lambda>b.
           Inr \<lparr>nr_req_id = request_id r, nr_prompt_token_ids = prompt_token_ids r,
                nr_block_ids = the (kvb_get_block_ids (sd_kv_cache_manager s) False b),
                nr_num_computed_tokens = num_computed_tokens r, nr_lora_request = lora_request r,
                nr_prefill_token_ids = (if cf_use_v2_model_runner (sd_config s) then Some (all_token_ids r) else None)\<rparr>))"

text \<open>One request of \<^verbatim>\<open>_make_cached_request_data\<close>: \<^verbatim>\<open>resumed\<close> says that it comes from the second list.\<close>

definition add_cached_request :: "sched_loop \<Rightarrow> bool \<times> nat \<Rightarrow> cached_request_data \<Rightarrow> cached_request_data result" where
  "add_cached_request lo ra d =
     (let (resumed, a) = ra; s = lo_sd lo; r = sd_obj s a; rid = request_id r; cf = sd_config s
      in bindE (if cf_use_pp cf \<and> \<not> cf_async_scheduling cf
                then bindE (dict_get rid (lo_num_tokens lo)) (\<lambda>n.
                       let num_toks = n - int (length (case map_of (lo_spec_tokens lo) rid of None \<Rightarrow> [] | Some ts \<Rightarrow> ts))
                       in Inr [py_slice (all_token_ids r) (num_computed_tokens r) (num_computed_tokens r + num_toks)])
                else Inr []) (\<lambda>toks.
         bindE (dict_get rid (lo_new_blocks lo)) (\<lambda>b.
           Inr (d\<lparr>cr_req_ids := cr_req_ids d @ [rid],
                  cr_resumed_req_ids := (if resumed then List.insert rid (cr_resumed_req_ids d) else cr_resumed_req_ids d),
                  cr_new_token_ids := cr_new_token_ids d @ toks,
                  cr_all_token_ids := (if \<not> cf_use_v2_model_runner cf \<and> rid \<notin> set (sd_prev_step_scheduled_req_ids s)
                                       then AList.update rid (all_token_ids r) (cr_all_token_ids d) else cr_all_token_ids d),
                  cr_new_block_ids := cr_new_block_ids d @ [kvb_get_block_ids (sd_kv_cache_manager s) True b],
                  cr_num_computed_tokens := cr_num_computed_tokens d @ [num_computed_tokens r],
                  cr_num_output_tokens := cr_num_output_tokens d @ [num_output_tokens r + num_output_placeholders r]\<rparr>))))"

definition make_cached_request_data :: "nat list \<Rightarrow> nat list \<Rightarrow> sched_loop \<Rightarrow> cached_request_data result" where
  "make_cached_request_data running_reqs resumed_reqs lo =
     foldE (add_cached_request lo) (map (Pair False) running_reqs @ map (Pair True) resumed_reqs)
       \<lparr>cr_req_ids = [], cr_resumed_req_ids = [], cr_new_token_ids = [], cr_all_token_ids = [], cr_new_block_ids = [],
        cr_num_computed_tokens = [], cr_num_output_tokens = []\<rparr>"

definition get_new_block_ids_to_zero :: "scheduler \<Rightarrow> (block_ref list option \<times> scheduler) result" where
  "get_new_block_ids_to_zero s =
     bindE (kvm_take_new_block_ids (sd_kv_cache_manager s)) (\<lambda>(ids, k).
       let s1 = s\<lparr>sd_kv_cache_manager := k\<rparr>
       in if \<not> cf_needs_kv_cache_zeroing (sd_config s) then Inr (None, s1)
          else
            (let ids' = filter (\<lambda>b. b \<notin> set (sd_skip_zero_block_ids s)) ids
             in Inr (if ids' = [] then None else Some ids', s1\<lparr>sd_skip_zero_block_ids := []\<rparr>)))"

definition pool_free_blocks :: "pool_block list \<Rightarrow> scheduler \<Rightarrow> scheduler result" where
  "pool_free_blocks blocks s =
     (let k = sd_kv_cache_manager s
      in bindE (co_free_blocks blocks (kvm_coordinator k)) (\<lambda>c. Inr (s\<lparr>sd_kv_cache_manager := k\<lparr>kvm_coordinator := c\<rparr>\<rparr>)))"

definition free_cow_retained_blocks :: "pool_block list \<Rightarrow> int \<Rightarrow> scheduler \<Rightarrow> scheduler result" where
  "free_cow_retained_blocks blocks fence s =
     (if \<not> cf_defer_block_free (sd_config s) \<or> fence \<le> sd_processed_step_seq s then pool_free_blocks blocks s
      else Inr (s\<lparr>sd_deferred_frees := sd_deferred_frees s @ [(fence, rev blocks)]\<rparr>))"

text \<open>The offers and the copies of the step are drained; the flag of the copies decides about the retained blocks.\<close>

definition drain_step :: "scheduler \<Rightarrow> ((int \<times> int \<times> int) list \<times> scheduler) result" where
  "drain_step s =
     bindE (take_boundary_state_offloads (sd_kv_cache_manager s)) (\<lambda>(_, k1).
     bindE (take_kv_cache_block_copies k1) (\<lambda>(copies, retained, k2).
       let s1 = s\<lparr>sd_kv_cache_manager := k2\<rparr>
       in bindE (if copies = [] then Inr s1 else free_cow_retained_blocks retained (sd_sched_step_seq s1 + 1) s1) (\<lambda>s2.
            Inr (copies, s2))))"

section \<open>After the step is scheduled\<close>

definition advance_scheduled :: "string \<times> int \<Rightarrow> scheduler \<times> scheduler_output \<Rightarrow> (scheduler \<times> scheduler_output) result" where
  "advance_scheduled rn so =
     (let (rid, n) = rn; (s, out) = so
      in bindE (dict_get rid (sd_requests s)) (\<lambda>a.
           let r = sd_obj s a;
               r1 = r\<lparr>num_computed_tokens := num_computed_tokens r + n, num_in_flight_tokens := num_in_flight_tokens r + n,
                      last_sched_seq := (if cf_defer_block_free (sd_config s) then sd_sched_step_seq s else last_sched_seq r)\<rparr>;
               r2 = r1\<lparr>is_prefill_chunk := num_computed_tokens r1 < num_tokens r1 + num_output_placeholders r1\<rparr>;
               s1 = put_req a r2 s
           in Inr (if is_prefill_chunk r2 then s1 else s1\<lparr>sd_inflight_prefills := removeAll a (sd_inflight_prefills s1)\<rparr>,
                   out\<lparr>so_has_structured_output_requests :=
                         so_has_structured_output_requests out \<or> use_structured_output r2 \<and> \<not> is_prefill_chunk r2\<rparr>)))"

text \<open>The loop of \<^verbatim>\<open>AsyncScheduler._update_after_schedule\<close>.\<close>

definition add_placeholders :: "string \<times> int \<Rightarrow> scheduler \<times> scheduler_output \<Rightarrow> (scheduler \<times> scheduler_output) result" where
  "add_placeholders rn so =
     (let (rid, _) = rn; (s, out) = so; cf = sd_config s
      in bindE (dict_get rid (sd_requests s)) (\<lambda>a.
           let r = sd_obj s a
           in if is_prefill_chunk r then Inr (s, out)
              else
                (let num_spec = int (length (case map_of (so_spec_decode_tokens out) rid of None \<Rightarrow> [] | Some ts \<Rightarrow> ts))
                 in Inr (put_req a (r\<lparr>num_output_placeholders := num_output_placeholders r + (cf_num_sampled_tokens_per_step cf + num_spec),
                                      spec_token_ids := sd_spec_token_placeholders s,
                                      next_decode_eligible_step := (if cf_use_v2_model_runner cf then sd_current_step s + cf_pp_size cf
                                                                    else next_decode_eligible_step r)\<rparr>) s,
                         out\<lparr>so_pending_structured_output_tokens := so_pending_structured_output_tokens out \<or>
                               use_structured_output r \<and> num_output_placeholders r > 0\<rparr>))))"

definition update_after_schedule :: "scheduler \<Rightarrow> scheduler_output \<Rightarrow> (scheduler \<times> scheduler_output) result" where
  "update_after_schedule s out =
     bindE (foldE advance_scheduled (so_num_scheduled_tokens out) (s, out)) (\<lambda>(s1, out1).
       let s2 = s1\<lparr>sd_finished_req_ids := [], sd_reset_preempted_req_ids := []\<rparr>
       in if \<not> cf_async_scheduling (sd_config s) then Inr (s2, out1)
          else foldE add_placeholders (so_num_scheduled_tokens out1)
                 (s2\<lparr>sd_spec_token_placeholders := replicate (nat (so_num_spec_tokens_to_schedule out1)) (- 1)\<rparr>, out1))"

section \<open>The step\<close>

definition start_loop :: "scheduler \<Rightarrow> sched_loop" where
  "start_loop s =
     (let cf = sd_config s
      in \<lparr>lo_sd = s, lo_new_reqs = [], lo_resumed_reqs = [], lo_running_reqs = [], lo_preempted_reqs = [], lo_new_blocks = [],
          lo_num_tokens = [], lo_token_budget = (if sd_pause_state s = PAUSED_ALL then 0 else cf_max_num_scheduled_tokens cf),
          lo_input_budget = cf_max_num_batched_tokens cf, lo_encoder_inputs = [], lo_encoder_budget = cf_max_num_encoder_input_tokens cf,
          lo_spec_tokens = [], lo_prefill_scheduled = False, lo_req_index = 0, lo_loras = [],
          lo_step_skipped = create_request_queue (cf_policy cf)\<rparr>)"

text \<open>Both loops of \<^verbatim>\<open>schedule\<close>.\<close>

definition schedule_requests :: "sched_env \<Rightarrow> bool \<Rightarrow> scheduler \<Rightarrow> sched_loop run" where
  "schedule_requests env throttle_prefills s =
     (let s1 = s\<lparr>sd_current_step := sd_current_step s + 1, sd_kv_cache_manager := kvm_new_step_starts (sd_kv_cache_manager s)\<rparr>;
          defer_prefills = (throttle_prefills \<and> \<not> sd_prefill_capacity_bound s1 \<and>
                            (\<exists>a \<in> set (sd_running s1). \<not> is_prefill_chunk (sd_obj s1 a)))
      in bindR (schedule_running env defer_prefills (start_loop s1)) (\<lambda>lo1.
         bindR (liftR (record_loras lo1)) (\<lambda>lo2. schedule_waiting env defer_prefills lo2)))"

definition common_prefix_blocks :: "scheduler \<Rightarrow> (int list \<times> scheduler) result" where
  "common_prefix_blocks s =
     (case sd_running s of
        [] \<Rightarrow> Inr (replicate (length (kvm_groups (sd_kv_cache_manager s))) 0, s)
      | a # _ \<Rightarrow> bindE (kvm_get_num_common_prefix_blocks (request_id (sd_obj s a)) (sd_kv_cache_manager s)) (\<lambda>(ns, k).
                  Inr (ns, s\<lparr>sd_kv_cache_manager := k\<rparr>)))"

definition num_spec_tokens_to_schedule :: "sched_loop \<Rightarrow> int result" where
  "num_spec_tokens_to_schedule lo =
     (let cf = lo_config lo
      in case cf_dynamic_sd_lookup cf of
           None \<Rightarrow> Inr (cf_num_spec_tokens cf)
         | Some tab \<Rightarrow> if lo_num_tokens lo = [] then Inr (cf_num_spec_tokens cf) else py_index tab (int (length (lo_num_tokens lo))))"

definition build_output :: "sched_loop \<Rightarrow> (scheduler_output \<times> scheduler) result" where
  "build_output lo =
     (let cf = lo_config lo; v2 = cf_use_v2_model_runner cf;
          new_reqs = lo_new_reqs lo @ (if v2 then lo_resumed_reqs lo else []);
          resumed = (if v2 then [] else lo_resumed_reqs lo)
      in bindE (common_prefix_blocks (lo_sd lo)) (\<lambda>(ncommon, s1).
         bindE (mapE (new_request_data_of (lo\<lparr>lo_sd := s1\<rparr>)) new_reqs) (\<lambda>new_data.
         bindE (make_cached_request_data (lo_running_reqs lo) resumed (lo\<lparr>lo_sd := s1\<rparr>)) (\<lambda>cached.
         bindE (drain_step (if v2 then s1 else s1\<lparr>sd_prev_step_scheduled_req_ids := map fst (lo_num_tokens lo)\<rparr>)) (\<lambda>(copies, s2).
         bindE (num_spec_tokens_to_schedule lo) (\<lambda>num_spec.
           let (freed_hashes, m) = enc_get_freed_mm_hashes (sd_encoder_cache_manager s2)
           in bindE (get_new_block_ids_to_zero (s2\<lparr>sd_encoder_cache_manager := m\<rparr>)) (\<lambda>(zero, s3).
                Inr (\<lparr>so_new_reqs = new_data, so_cached_reqs = cached, so_num_scheduled_tokens = lo_num_tokens lo,
                      so_total_num_scheduled_tokens = sum_list (map snd (lo_num_tokens lo)), so_spec_decode_tokens = lo_spec_tokens lo,
                      so_encoder_inputs = lo_encoder_inputs lo, so_num_common_prefix_blocks = ncommon,
                      so_preempted_req_ids = sd_reset_preempted_req_ids s3, so_finished_req_ids = sd_finished_req_ids s3,
                      so_free_encoder_mm_hashes = freed_hashes, so_new_block_ids_to_zero = zero,
                      so_kv_cache_block_copies = (if copies = [] then None else Some copies),
                      so_num_spec_tokens_to_schedule = num_spec, so_has_structured_output_requests = False,
                      so_pending_structured_output_tokens = False, so_num_invalid_spec_tokens = None\<rparr>, s3))))))))"

definition schedule :: "sched_env \<Rightarrow> bool \<Rightarrow> scheduler \<Rightarrow> (scheduler_output \<times> scheduler) run" where
  "schedule env throttle_prefills s =
     bindR (schedule_requests env throttle_prefills s) (\<lambda>lo.
       if \<not> constraints_hold lo then raiseR AssertionError
       else
         liftR (bindE (build_output lo) (\<lambda>(out, s1).
           let s2 = (if cf_defer_block_free (sd_config s1) \<and> so_total_num_scheduled_tokens out > 0
                     then s1\<lparr>sd_sched_step_seq := sd_sched_step_seq s1 + 1\<rparr> else s1)
           in bindE (update_after_schedule s2 out) (\<lambda>(s3, out'). Inr (out', s3)))))"

end
