(* ===== verification/Sched_Update.thy ===== *)
theory Sched_Update
  imports Scheduler
begin

text \<open>
  The operations of \<^verbatim>\<open>Scheduler\<close> around the step: streaming sessions, the treatment of the sampled tokens (\<^verbatim>\<open>update_from_output\<close>, with the
  overrides of \<^verbatim>\<open>AsyncScheduler\<close>), the arrival and the end of requests, draft tokens, deferred frees, the reset of the prefix cache and the
  queries of the engine.
\<close>

section \<open>Streaming sessions\<close>

definition shift_feature :: "int \<Rightarrow> mm_feature \<Rightarrow> mm_feature" where
  "shift_feature base f = f\<lparr>mm_position := (mm_position f)\<lparr>offset := offset (mm_position f) + base\<rparr>\<rparr>"

text \<open>The tokens and features of the session before its block hashes are updated.\<close>

definition extend_session :: "streaming_update \<Rightarrow> request \<Rightarrow> request result" where
  "extend_session u r =
     (let n = num_computed_tokens r;
          kept = py_slice (all_token_ids r) (num_prompt_tokens r) n;
          toks = py_slice (all_token_ids r) 0 n;
          new = (case su_prompt_token_ids u of None \<Rightarrow> [] | Some ts \<Rightarrow> ts);
          feats = (case su_mm_features u of None \<Rightarrow> [] | Some fs \<Rightarrow> map (shift_feature (int (length toks))) fs)
      in case prompt_token_ids r of
           None \<Rightarrow> Inl AssertionError
         | Some p \<Rightarrow> Inr (r\<lparr>all_token_ids := toks @ new, output_token_ids := [], prompt_token_ids := Some (p @ kept @ new),
                            mm_features := mm_features r @ feats\<rparr>))"

definition update_request_as_session :: "sched_env \<Rightarrow> nat \<Rightarrow> streaming_update \<Rightarrow> scheduler \<Rightarrow> scheduler run" where
  "update_request_as_session env a u s =
     bindR (liftR (extend_session u (sd_obj s a))) (\<lambda>r1.
     bindR (update_block_hashes (ev_hasher env) r1) (\<lambda>r2.
       returnR (put_req a (r2\<lparr>num_prompt_tokens := int (length (the (prompt_token_ids r2))), arrival_time := su_arrival_time u,
                             sampling_params := su_sampling_params u, status := WAITING\<rparr>)
                 (if status r2 = WAITING_FOR_STREAMING_REQ
                  then s\<lparr>sd_num_waiting_for_streaming_input := sd_num_waiting_for_streaming_input s - 1\<rparr> else s))))"

definition handle_stopped_request :: "sched_env \<Rightarrow> nat \<Rightarrow> scheduler \<Rightarrow> (bool \<times> scheduler) run" where
  "handle_stopped_request env a s =
     (let r = sd_obj s a
      in if \<not> resumable r then returnR (True, s)
         else case streaming_queue r of
             Some (None # us) \<Rightarrow> returnR (True, put_req a (r\<lparr>streaming_queue := Some us\<rparr>) s)
           | Some (Some u # us) \<Rightarrow>
               bindR (update_request_as_session env a u (put_req a (r\<lparr>streaming_queue := Some us\<rparr>) s)) (\<lambda>s1.
                 returnR (False, enqueue_waiting_request a s1))
           | _ \<Rightarrow> returnR (False, enqueue_waiting_request a
                     (put_req a (r\<lparr>status := WAITING_FOR_STREAMING_REQ\<rparr>)
                       (s\<lparr>sd_num_waiting_for_streaming_input := sd_num_waiting_for_streaming_input s + 1\<rparr>))))"

section \<open>The end of a request\<close>

definition free_blocks_of_request :: "nat \<Rightarrow> scheduler \<Rightarrow> scheduler result" where
  "free_blocks_of_request a s =
     (if \<not> request_is_finished (sd_obj s a) then Inl AssertionError
      else bindE (free_request_blocks a s) (\<lambda>s1.
           bindE (dict_pop (request_id (sd_obj s1 a)) (sd_requests s1)) (\<lambda>(_, d). Inr (s1\<lparr>sd_requests := d\<rparr>))))"

definition free_request :: "bool \<Rightarrow> nat \<Rightarrow> scheduler \<Rightarrow> scheduler result" where
  "free_request delay_free_blocks a s =
     (let r = sd_obj s a
      in if \<not> request_is_finished r then Inl AssertionError
         else
           bindE (enc_free r (sd_encoder_cache_manager s)) (\<lambda>m.
             let s1 = s\<lparr>sd_inflight_prefills := removeAll a (sd_inflight_prefills s), sd_encoder_cache_manager := m,
                        sd_finished_req_ids := List.insert (request_id r) (sd_finished_req_ids s),
                        sd_finished_req_ids_dict := map_option (\<lambda>d.
                          let ids = (case map_of d (client_index r) of None \<Rightarrow> [] | Some ids \<Rightarrow> ids)
                          in AList.update (client_index r) (List.insert (request_id r) ids) d) (sd_finished_req_ids_dict s)\<rparr>
             in if delay_free_blocks then Inr s1 else free_blocks_of_request a s1))"

text \<open>The first pass of \<^verbatim>\<open>finish_requests\<close> over one id: the valid requests, the running and the waiting ones to remove.\<close>

definition collect_finished :: "string \<Rightarrow> (nat list \<times> nat list \<times> nat list) \<times> scheduler \<Rightarrow> (nat list \<times> nat list \<times> nat list) \<times> scheduler" where
  "collect_finished rid st =
     (let ((valid, run, wait), s) = st
      in case map_of (sd_requests s) rid of
           None \<Rightarrow> st
         | Some a \<Rightarrow>
             if request_is_finished (sd_obj s a) then st
             else if status (sd_obj s a) = RUNNING then ((valid @ [a], List.insert a run, wait), s)
             else ((valid @ [a], run, wait @ [a]),
                   if status (sd_obj s a) = WAITING_FOR_STREAMING_REQ
                   then s\<lparr>sd_num_waiting_for_streaming_input := sd_num_waiting_for_streaming_input s - 1\<rparr> else s))"

definition finish_one :: "request_status \<Rightarrow> nat \<Rightarrow> scheduler \<Rightarrow> scheduler result" where
  "finish_one finished_status a s =
     (let r = sd_obj s a; rid = request_id r; remote = (status r = WAITING_FOR_REMOTE_KVS);
          delay = (remote \<and> rid \<notin> set (sd_finished_recving_kv_req_ids s));
          s1 = (if remote
                then s\<lparr>sd_finished_recving_kv_req_ids := removeAll rid (sd_finished_recving_kv_req_ids s),
                       sd_failed_recving_kv_req_ids := removeAll rid (sd_failed_recving_kv_req_ids s)\<rparr>
                else s)
      in free_request delay a (put_req a (r\<lparr>status := finished_status\<rparr>) s1))"

definition remove_from_queues :: "nat list \<Rightarrow> scheduler \<Rightarrow> scheduler" where
  "remove_from_queues as s =
     (if as = [] then s
      else (let rs = map (sd_obj s) as
            in s\<lparr>sd_waiting := rq_remove_requests rs (waiting s), sd_skipped_waiting := rq_remove_requests rs (skipped_waiting s)\<rparr>))"

text \<open>The argument \<^verbatim>\<open>None\<close> stands for all requests.\<close>

definition finish_requests :: "string list option \<Rightarrow> request_status \<Rightarrow> scheduler \<Rightarrow> (nat list \<times> scheduler) result" where
  "finish_requests request_ids finished_status s =
     (if \<not> status_is_finished finished_status then Inl AssertionError
      else
        (let ids = (case request_ids of None \<Rightarrow> map fst (sd_requests s) | Some rids \<Rightarrow> remdups rids);
             ((valid, run, wait), s1) = fold collect_finished ids (([], [], []), s);
             s2 = remove_from_queues wait (s1\<lparr>sd_running := remove_all (sd_running s1) run\<rparr>)
         in bindE (foldE (finish_one finished_status) valid s2) (\<lambda>s3. Inr (valid, s3))))"

text \<open>The request object at address \<^verbatim>\<open>a\<close> arrives.\<close>

definition add_request :: "sched_env \<Rightarrow> nat \<Rightarrow> scheduler \<Rightarrow> scheduler run" where
  "add_request env a s =
     (let r = sd_obj s a
      in case map_of (sd_requests s) (request_id r) of
           Some e \<Rightarrow>
             (let x = sd_obj s e; u = streaming_update_from_request r
              in if status x \<noteq> WAITING_FOR_STREAMING_REQ
                 then (case streaming_queue x of
                         None \<Rightarrow> raiseR AssertionError
                       | Some us \<Rightarrow> returnR (put_req e (x\<lparr>streaming_queue := Some (us @ [u])\<rparr>) s))
                 else (case u of
                         Some up \<Rightarrow> update_request_as_session env e up s
                       | None \<Rightarrow> bindR (liftR (finish_requests (Some [request_id r]) FINISHED_ABORTED s)) (\<lambda>(_, s1). returnR s1)))
         | None \<Rightarrow>
             (let s1 = (if resumable r then put_req a (r\<lparr>streaming_queue := Some []\<rparr>) s else s);
                  s2 = enqueue_waiting_request a s1
              in returnR (s2\<lparr>sd_requests := AList.update (request_id r) a (sd_requests s2)\<rparr>)))"

section \<open>Sampled tokens\<close>

primrec append_until_stop :: "sched_env \<Rightarrow> int \<Rightarrow> int list \<Rightarrow> request \<Rightarrow> (int list \<times> bool \<times> request) run" where
  "append_until_stop env max_len [] r = returnR ([], False, r)"
| "append_until_stop env max_len (t # ts) r =
     bindR (append_output_token_ids (ev_hasher env) [t] r) (\<lambda>r1.
     bindR (liftR (check_stop max_len r1)) (\<lambda>(stopped, r2).
       if stopped then returnR ([t], True, r2)
       else bindR (append_until_stop env max_len ts r2) (\<lambda>(ts', stopped', r3). returnR (t # ts', stopped', r3))))"

text \<open>\<^verbatim>\<open>_update_request_with_output\<close>: the tokens kept and whether the request stopped; the second half is the override of the asynchronous scheduler.\<close>

definition update_request_with_output :: "sched_env \<Rightarrow> nat \<Rightarrow> int list \<Rightarrow> bool \<Rightarrow> scheduler \<Rightarrow> (int list \<times> bool \<times> scheduler) run" where
  "update_request_with_output env a toks is_stale s =
     (let cf = sd_config s; before = status (sd_obj s a)
      in bindR (append_until_stop env (cf_max_model_len cf) toks (sd_obj s a)) (\<lambda>(toks', stopped, r).
           if \<not> cf_async_scheduling cf then returnR (toks', stopped, put_req a r s)
           else
             (let r1 = (if is_stale then r else r\<lparr>num_output_placeholders := num_output_placeholders r - int (length toks')\<rparr>)
              in if \<not> is_stale \<and> num_output_placeholders r1 < 0 then raiseR AssertionError
                 else if before \<noteq> RUNNING then returnR (toks', stopped, put_req a r1 s)
                 else bindR (liftR (kvm_cache_blocks (ev_digest env) r1 (num_computed_tokens r1 - num_output_placeholders r1)
                                      (sd_kv_cache_manager s))) (\<lambda>(r2, k).
                        returnR (toks', stopped, put_req a r2 (s\<lparr>sd_kv_cache_manager := k\<rparr>))))))"

definition free_passed_input :: "sched_config \<Rightarrow> request \<Rightarrow> nat \<Rightarrow> enc_manager \<Rightarrow> enc_manager result" where
  "free_passed_input cf r i m =
     (if i \<ge> length (mm_features r) then Inl IndexError
      else
        (let p = mm_position (mm_features r ! i)
         in if cf_is_encoder_decoder cf \<and> num_computed_tokens r > 0 \<or>
               offset p + plength p + cf_num_prefill_lookahead cf \<le> num_computed_tokens r - num_output_placeholders r
            then enc_free_encoder_input r i m else Inr m))"

definition free_encoder_inputs :: "nat \<Rightarrow> scheduler \<Rightarrow> scheduler result" where
  "free_encoder_inputs a s =
     (let r = sd_obj s a; m = sd_encoder_cache_manager s
      in bindE (foldE (free_passed_input (sd_config s) r) (enc_get_cached_input_ids r m) m) (\<lambda>m'. Inr (s\<lparr>sd_encoder_cache_manager := m'\<rparr>)))"

section \<open>The output of the model\<close>

text \<open>What the model runner returns, without log probabilities, sampling masks and statistics: the sampled tokens, the pooler outputs, the
  ids that have prompt log probabilities.\<close>

record model_runner_output =
  mo_req_id_to_index :: "(string \<times> int) list"
  mo_sampled_token_ids :: "int list list"
  mo_pooler_output :: "bytes option list"
  mo_prompt_logprobs :: "string list"

record engine_core_output =
  eo_request_id :: string
  eo_new_token_ids :: "int list"
  eo_finish_reason :: "finish_reason option"
  eo_pooling_output :: "bytes option"
  eo_stop_reason :: "stop_reason_t option"
  eo_prefill_stats :: "prefill_stats_t option"

record engine_core_outputs =
  ecs_outputs :: "engine_core_output list"
  ecs_finished_requests :: "string list option"

record output_loop =
  ol_sd :: scheduler
  ol_outputs :: "(int \<times> engine_core_output list) list"
  ol_stopped_running :: "nat list"
  ol_stopped_preempted :: "nat list"

definition add_output :: "int \<Rightarrow> engine_core_output \<Rightarrow> (int \<times> engine_core_output list) list \<Rightarrow> (int \<times> engine_core_output list) list" where
  "add_output client x outs = AList.update client ((case map_of outs client of None \<Rightarrow> [] | Some xs \<Rightarrow> xs) @ [x]) outs"

text \<open>The in-flight count of the request, and whether its output is stale.\<close>

definition note_returned :: "int \<Rightarrow> request \<Rightarrow> (bool \<times> request) result" where
  "note_returned n r =
     (let r1 = r\<lparr>num_in_flight_tokens := num_in_flight_tokens r - n\<rparr>
      in if num_stale_output_tokens r1 > 0
         then (if num_stale_output_tokens r1 - n < 0 then Inl AssertionError
               else Inr (True, r1\<lparr>num_stale_output_tokens := num_stale_output_tokens r1 - n\<rparr>))
         else Inr (False, r1))"

text \<open>Rejected draft tokens are taken back.\<close>

definition reject_drafts :: "sched_config \<Rightarrow> int list option \<Rightarrow> int list \<Rightarrow> bool \<Rightarrow> request \<Rightarrow> request" where
  "reject_drafts cf drafts toks is_stale r =
     (case drafts of
        None \<Rightarrow> r
      | Some ds \<Rightarrow>
          if ds = [] \<or> toks = [] \<and> cf_num_sampled_tokens_per_step cf \<noteq> 0 \<or> is_stale then r
          else
            (let rejected = int (length ds) - max (int (length toks) - cf_num_sampled_tokens_per_step cf) 0
             in r\<lparr>num_computed_tokens := (if num_computed_tokens r > 0 then num_computed_tokens r - rejected else num_computed_tokens r),
                  num_output_placeholders := (if num_output_placeholders r > 0 then num_output_placeholders r - rejected
                                              else num_output_placeholders r)\<rparr>))"

text \<open>The tokens are appended, or a request that samples none stops with its pooler output or with its prompt.\<close>

definition apply_tokens :: "sched_env \<Rightarrow> nat \<Rightarrow> int list \<Rightarrow> bytes option \<Rightarrow> bool \<Rightarrow> scheduler \<Rightarrow> (int list \<times> bool \<times> scheduler) run" where
  "apply_tokens env a toks pooled is_stale s =
     (let r = sd_obj s a
      in if toks \<noteq> [] then update_request_with_output env a toks is_stale s
         else if pooling_params r \<noteq> None \<and> pooled \<noteq> None \<or> cf_is_mm_encoder_only (sd_config s) \<and> num_computed_tokens r \<ge> num_prompt_tokens r
         then returnR ([], True, put_req a (r\<lparr>status := FINISHED_STOPPED\<rparr>) s)
         else returnR ([], False, s))"

definition advance_grammar :: "sched_env \<Rightarrow> nat \<Rightarrow> int list \<Rightarrow> bool \<Rightarrow> scheduler \<Rightarrow> (bool \<times> scheduler) result" where
  "advance_grammar env a toks stopped s =
     (let r = sd_obj s a
      in if toks = [] \<or> \<not> ev_advance env r (Some toks) then Inr (stopped, s)
         else if \<not> use_structured_output r \<or> ev_grammar env r \<noteq> GrammarReady then Inl AssertionError
         else if ev_trim env r toks \<noteq> [] \<and> \<not> ev_accepts env r (ev_trim env r toks)
         then Inr (True, put_req a (r\<lparr>status := FINISHED_ERROR, resumable := False\<rparr>) s)
         else Inr (stopped, s))"

definition take_prefill_stats :: "nat \<Rightarrow> scheduler \<Rightarrow> (prefill_stats_t option \<times> scheduler) result" where
  "take_prefill_stats a s =
     (let r = sd_obj s a
      in case prefill_stats r of
           None \<Rightarrow> Inr (None, s)
         | Some p \<Rightarrow> bindE (prefill_stats_finalize (estimate_cached_tokens (request_id r) (sd_kv_cache_manager s)) p) (\<lambda>p'.
                      Inr (Some p', put_req a (r\<lparr>prefill_stats := None\<rparr>) s)))"

text \<open>A stopped request is finished, or becomes the next turn of its session.\<close>

definition stop_request :: "sched_env \<Rightarrow> nat \<Rightarrow> request_status \<Rightarrow> output_loop \<Rightarrow> output_loop run" where
  "stop_request env a before ol =
     bindR (handle_stopped_request env a (ol_sd ol)) (\<lambda>(finished, s1).
     bindR (liftR (if finished then free_request False a s1 else Inr s1)) (\<lambda>s2.
       returnR (if before = RUNNING then ol\<lparr>ol_sd := s2, ol_stopped_running := List.insert a (ol_stopped_running ol)\<rparr>
                else ol\<lparr>ol_sd := s2, ol_stopped_preempted := List.insert a (ol_stopped_preempted ol)\<rparr>)))"

text \<open>The part of the loop body that follows the tokens: statistics, the end of the request, the output.\<close>

definition emit_output ::
  "sched_env \<Rightarrow> model_runner_output \<Rightarrow> string \<Rightarrow> nat \<Rightarrow> request_status \<Rightarrow> int list \<Rightarrow> bool \<Rightarrow> bytes option \<Rightarrow> output_loop \<Rightarrow> output_loop run" where
  "emit_output env mo rid a before toks stopped pooled ol =
     (if toks = [] \<and> pooled = None \<and> \<not> stopped
      then (if rid \<in> set (mo_prompt_logprobs mo) then raiseR AssertionError else returnR ol)
      else
        bindR (liftR (take_prefill_stats a (ol_sd ol))) (\<lambda>(stats, s1).
          let reason = (if stopped then status_finished_reason (status (sd_obj s1 a)) else None)
          in bindR (if stopped then stop_request env a before (ol\<lparr>ol_sd := s1\<rparr>) else returnR (ol\<lparr>ol_sd := s1\<rparr>)) (\<lambda>ol2.
               let r = sd_obj (ol_sd ol2) a
               in returnR (ol2\<lparr>ol_outputs := add_output (client_index r)
                    \<lparr>eo_request_id = rid, eo_new_token_ids = toks, eo_finish_reason = reason, eo_pooling_output = pooled,
                     eo_stop_reason = stop_reason r, eo_prefill_stats = stats\<rparr> (ol_outputs ol2)\<rparr>))))"

text \<open>The loop body for a request that still takes output.\<close>

definition deliver_output ::
  "sched_env \<Rightarrow> scheduler_output \<Rightarrow> model_runner_output \<Rightarrow> string \<Rightarrow> nat \<Rightarrow> bool \<Rightarrow> output_loop \<Rightarrow> output_loop run" where
  "deliver_output env out mo rid a is_stale ol =
     bindR (liftR (dict_get rid (mo_req_id_to_index mo))) (\<lambda>i.
     bindR (liftR (if mo_sampled_token_ids mo = [] then Inr [] else py_index (mo_sampled_token_ids mo) i)) (\<lambda>toks.
       let s = ol_sd ol;
           s1 = put_req a (reject_drafts (sd_config s) (map_of (so_spec_decode_tokens out) rid) toks is_stale (sd_obj s a)) s
       in bindR (liftR (if mm_features (sd_obj s1 a) = [] then Inr s1 else free_encoder_inputs a s1)) (\<lambda>s2.
          bindR (liftR (if mo_pooler_output mo = [] then Inr None else py_index (mo_pooler_output mo) i)) (\<lambda>pooled.
          bindR (apply_tokens env a toks pooled is_stale s2) (\<lambda>(toks', stopped, s3).
          bindR (liftR (advance_grammar env a toks' stopped s3)) (\<lambda>(stopped', s4).
            emit_output env mo rid a (status (sd_obj s2 a)) toks' stopped' pooled (ol\<lparr>ol_sd := s4\<rparr>)))))))"

definition process_output ::
  "sched_env \<Rightarrow> scheduler_output \<Rightarrow> model_runner_output \<Rightarrow> string \<times> int \<Rightarrow> output_loop \<Rightarrow> output_loop run" where
  "process_output env out mo rn ol =
     (let (rid, n) = rn; s = ol_sd ol
      in if n \<le> 0 then raiseR AssertionError
         else case map_of (sd_requests s) rid of
             None \<Rightarrow> returnR ol
           | Some a \<Rightarrow>
               bindR (liftR (note_returned n (sd_obj s a))) (\<lambda>(is_stale, r).
                 let ol1 = ol\<lparr>ol_sd := put_req a r s\<rparr>
                 in if request_is_finished r \<or> is_stale \<and> drop_stale_output r then returnR ol1
                    else deliver_output env out mo rid a is_stale ol1))"

text \<open>Deferred frees whose step has completed; the rest stays queued.\<close>

fun drain_loop :: "(int \<times> pool_block list) list \<Rightarrow> scheduler \<Rightarrow> scheduler result" where
  "drain_loop [] s = Inr (s\<lparr>sd_deferred_frees := []\<rparr>)"
| "drain_loop ((fence, blocks) # rest) s =
     (if fence > sd_processed_step_seq s then Inr (s\<lparr>sd_deferred_frees := (fence, blocks) # rest\<rparr>)
      else bindE (pool_free_blocks (rev blocks) s) (drain_loop rest))"

definition drain_deferred_frees :: "scheduler \<Rightarrow> scheduler result" where
  "drain_deferred_frees s = drain_loop (sd_deferred_frees s) s"

definition report_errors :: "output_loop \<Rightarrow> output_loop result" where
  "report_errors ol =
     (let s = (ol_sd ol)\<lparr>sd_grammar_compile_error_reqs := []\<rparr>; ids = sd_grammar_compile_error_reqs (ol_sd ol)
      in if ids = [] then Inr (ol\<lparr>ol_sd := s\<rparr>)
         else bindE (finish_requests (Some ids) FINISHED_ERROR s) (\<lambda>(valid, s1).
                Inr (ol\<lparr>ol_sd := s1,
                        ol_outputs := fold (\<lambda>a. add_output (client_index (sd_obj s1 a))
                          \<lparr>eo_request_id = request_id (sd_obj s1 a), eo_new_token_ids = [],
                           eo_finish_reason = status_finished_reason (status (sd_obj s1 a)), eo_pooling_output = None,
                           eo_stop_reason = None, eo_prefill_stats = None\<rparr>) valid (ol_outputs ol)\<rparr>)))"

definition engine_outputs :: "(int \<times> engine_core_output list) list \<Rightarrow> (int \<times> string list) list \<Rightarrow> (int \<times> engine_core_outputs) list" where
  "engine_outputs outs finished_ids =
     fold (\<lambda>(client, ids) d.
            AList.update client \<lparr>ecs_outputs = (case map_of d client of None \<Rightarrow> [] | Some e \<Rightarrow> ecs_outputs e), ecs_finished_requests = Some ids\<rparr> d)
       finished_ids (map (\<lambda>(client, xs). (client, \<lparr>ecs_outputs = xs, ecs_finished_requests = None\<rparr>)) outs)"

definition update_from_output ::
  "sched_env \<Rightarrow> scheduler_output \<Rightarrow> model_runner_output \<Rightarrow> scheduler \<Rightarrow> ((int \<times> engine_core_outputs) list \<times> scheduler) run" where
  "update_from_output env out mo s =
     bindR (liftR (if cf_defer_block_free (sd_config s) \<and> so_total_num_scheduled_tokens out > 0
                   then drain_deferred_frees (s\<lparr>sd_processed_step_seq := sd_processed_step_seq s + 1\<rparr>) else Inr s)) (\<lambda>s1.
     bindR (foldR (process_output env out mo) (so_num_scheduled_tokens out)
              \<lparr>ol_sd = s1, ol_outputs = [], ol_stopped_running = [], ol_stopped_preempted = []\<rparr>) (\<lambda>ol.
       let s2 = ol_sd ol;
           s3 = remove_from_queues (ol_stopped_preempted ol) (s2\<lparr>sd_running := remove_all (sd_running s2) (ol_stopped_running ol)\<rparr>)
       in bindR (liftR (report_errors (ol\<lparr>ol_sd := s3\<rparr>))) (\<lambda>ol2.
            let s4 = ol_sd ol2; s5 = s4\<lparr>sd_kv_cache_manager := snd (kvm_take_events (sd_kv_cache_manager s4))\<rparr>;
                ids = (case sd_finished_req_ids_dict s5 of None \<Rightarrow> [] | Some d \<Rightarrow> d)
            in returnR (engine_outputs (ol_outputs ol2) ids,
                        s5\<lparr>sd_finished_req_ids_dict := map_option (\<lambda>_. []) (sd_finished_req_ids_dict s5)\<rparr>))))"

section \<open>Draft tokens\<close>

definition update_draft_token_ids :: "sched_env \<Rightarrow> (string \<times> int list) list \<Rightarrow> scheduler \<Rightarrow> scheduler" where
  "update_draft_token_ids env drafts s =
     fold (\<lambda>(rid, toks) s.
       case map_of (sd_requests s) rid of
         None \<Rightarrow> s
       | Some a \<Rightarrow>
           (let r = sd_obj s a
            in if request_is_finished r then s
               else if is_prefill_chunk r then put_req a (r\<lparr>spec_token_ids := []\<rparr>) s
               else put_req a (r\<lparr>spec_token_ids := (if ev_advance env r None then ev_validate env r toks else toks)\<rparr>) s)) drafts s"

definition update_draft_token_ids_in_output ::
  "sched_env \<Rightarrow> (string \<times> int list) list \<Rightarrow> scheduler \<Rightarrow> scheduler_output \<Rightarrow> scheduler_output" where
  "update_draft_token_ids_in_output env drafts s out =
     (let (spec, invalid) = fold (\<lambda>(rid, toks) (spec, invalid).
            case map_of (sd_requests s) rid of
              None \<Rightarrow> (spec, invalid)
            | Some a \<Rightarrow>
                (let r = sd_obj s a
                 in case (if request_is_finished r then None else map_of spec rid) of
                      None \<Rightarrow> (spec, invalid)
                    | Some placeholders \<Rightarrow>
                        if placeholders = [] then (spec, invalid)
                        else
                          (let n = length placeholders; ts0 = take n toks;
                               ts = (if ev_advance env r None then ev_validate env r ts0 else ts0);
                               num_invalid = int n - int (length ts)
                           in (AList.update rid (ts @ replicate (nat num_invalid) (- 1)) spec,
                               if num_invalid \<noteq> 0 then AList.update rid num_invalid invalid else invalid))))
          drafts (so_spec_decode_tokens out, [])
      in out\<lparr>so_spec_decode_tokens := spec, so_num_invalid_spec_tokens := Some invalid\<rparr>)"

section \<open>The prefix cache and the queries of the engine\<close>

definition sched_reset_prefix_cache :: "bool \<Rightarrow> scheduler \<Rightarrow> (bool \<times> scheduler) result" where
  "sched_reset_prefix_cache reset_running_requests s =
     bindE (if reset_running_requests
            then bindE (foldE (\<lambda>a s. preempt_request True a (s\<lparr>sd_running := butlast (sd_running s)\<rparr>)) (rev (sd_running s)) s) (\<lambda>s1.
                   Inr (s1\<lparr>sd_prev_step_scheduled_req_ids := []\<rparr>))
            else Inr s) (\<lambda>s1.
     bindE (kvm_reset_prefix_cache (sd_kv_cache_manager s1)) (\<lambda>(ok, k).
       if reset_running_requests \<and> \<not> ok then Inl RuntimeError else Inr (ok, s1\<lparr>sd_kv_cache_manager := k\<rparr>)))"

definition reset_encoder_cache :: "scheduler \<Rightarrow> scheduler" where
  "reset_encoder_cache s = s\<lparr>sd_encoder_cache_manager := enc_reset (sd_encoder_cache_manager s)\<rparr>"

definition get_request_counts :: "scheduler \<Rightarrow> nat \<times> nat" where
  "get_request_counts s = (length (sd_running s), rq_len (waiting s) + rq_len (skipped_waiting s))"

definition get_num_unfinished_requests :: "scheduler \<Rightarrow> int" where
  "get_num_unfinished_requests s =
     (case sd_pause_state s of
        PAUSED_ALL \<Rightarrow> 0
      | PAUSED_NEW \<Rightarrow> int (length (sd_running s))
      | UNPAUSED \<Rightarrow> int (rq_len (waiting s)) + int (rq_len (skipped_waiting s)) - sd_num_waiting_for_streaming_input s
                     + int (length (sd_running s)))"

definition has_finished_requests :: "scheduler \<Rightarrow> bool" where
  "has_finished_requests s \<longleftrightarrow> sd_finished_req_ids s \<noteq> []"

definition has_requests :: "scheduler \<Rightarrow> bool" where
  "has_requests s \<longleftrightarrow> get_num_unfinished_requests s > 0 \<or> has_finished_requests s"

definition set_pause_state :: "pause_state \<Rightarrow> scheduler \<Rightarrow> scheduler" where
  "set_pause_state p s = s\<lparr>sd_pause_state := p\<rparr>"

end
