(* ===== verification/Admission.thy ===== *)
theory Admission
  imports KV_Manager
begin

text \<open>
  The promise behind admission: \<^verbatim>\<open>get_num_blocks_to_allocate\<close> counts enough blocks for what \<^verbatim>\<open>allocate_new_computed_blocks\<close> and
  \<^verbatim>\<open>allocate_new_blocks\<close> then take, so \<^verbatim>\<open>get_new_blocks\<close> never raises for a request that was admitted. The managers are
  those without Mamba, whose align mode counts by a different scheme.
\<close>

section \<open>One manager\<close>

text \<open>The blocks a manager still has to take for a request.\<close>

definition mgr_demand :: "string \<Rightarrow> int \<Rightarrow> int \<Rightarrow> stm \<Rightarrow> int" where
  "mgr_demand rid nt enc m =
     (if spec_kind (st_spec m) = KpoolTailSpec \<or> spec_kind (st_spec m) = CircularBufferSpec
      then (if req_blocks rid m = [] then 1 else 0)
      else max 0 (cdiv (if is_cross m then enc else nt) (st_block_size m) - int (length (req_blocks rid m))) +
        (if st_partial_hit_reqs m rid = None then 0 else 1))"

lemma mgr_demand_nonneg: "0 \<le> mgr_demand rid nt enc m"
  by (simp add: mgr_demand_def)

lemma get_new_blocks_free:
  assumes "pool_rep p xs" and "0 \<le> n" and "n \<le> get_num_free_blocks p"
  shows "\<exists>bs p'. get_new_blocks n p = Inr (bs, p') \<and> get_num_free_blocks p' = get_num_free_blocks p - n \<and> int (length bs) = n \<and>
    (\<exists>ys. pool_rep p' ys)"
proof -
  have n: "nat n \<le> length xs" using assms pool_rep_free_count [OF assms(1)] by simp
  from get_new_blocks_spec [OF assms(1) n] obtain p' where p': "get_new_blocks n p = Inr (take (nat n) xs, p')" "pool_rep p' (drop (nat n) xs)"
    using assms(2) by auto
  then show ?thesis using pool_rep_free_count [OF assms(1)] pool_rep_free_count [OF p'(2)] n assms(2) by auto
qed

lemma extend_req_demand:
  assumes "pool_rep p xs" and "0 \<le> n" and "n \<le> get_num_free_blocks p"
  shows "\<exists>bs p' m'. extend_req rid n p m = Inr (bs, p', m') \<and> get_num_free_blocks p' = get_num_free_blocks p - n \<and>
    int (length (req_blocks rid m')) = int (length (req_blocks rid m)) + n \<and> st_partial_hit_reqs m' = st_partial_hit_reqs m \<and>
    st_spec m' = st_spec m \<and> st_block_size m' = st_block_size m"
  using get_new_blocks_free [OF assms]
  by (auto simp: extend_req_def record_new_block_ids_def set_req_blocks_def req_blocks_def update_conv')

lemma get_num_free_upd_blk [simp]: "get_num_free_blocks (upd_blk b f p) = get_num_free_blocks p"
  by (simp add: get_num_free_blocks_def upd_blk_def)

lemma apply_cow_demand:
  assumes "apply_cow rid i src cow p m = r"
  shows "r \<noteq> Inl ValueError" and "r = Inr (p', m') \<Longrightarrow> get_num_free_blocks p' = get_num_free_blocks p \<and>
    length (req_blocks rid m') = length (req_blocks rid m) \<and> st_partial_hit_reqs m' = st_partial_hit_reqs m \<and>
    st_spec m' = st_spec m \<and> st_block_size m' = st_block_size m"
  using assms
  by (auto simp: apply_cow_def Let_def bindE_eq_Inr bindE_eq_Inl py_index_def py_update_def split: if_split_asm)


lemma base_redirect_demand:
  assumes "pool_rep p xs" and "st_partial_hit_reqs m rid \<noteq> None \<longrightarrow> 1 \<le> get_num_free_blocks p"
  shows "base_redirect_partial_hit rid p m \<noteq> Inl ValueError"
    and "base_redirect_partial_hit rid p m = Inr (bs, p', m') \<Longrightarrow> st_partial_hit_reqs m' rid = None \<and>
      get_num_free_blocks p' = get_num_free_blocks p - (if st_partial_hit_reqs m rid = None then 0 else 1) \<and>
      length (req_blocks rid m') = length (req_blocks rid m) \<and> st_spec m' = st_spec m \<and> st_block_size m' = st_block_size m"
proof -
  have *: "base_redirect_partial_hit rid p m \<noteq> Inl ValueError \<and>
    (\<forall>bs p' m'. base_redirect_partial_hit rid p m = Inr (bs, p', m') \<longrightarrow> st_partial_hit_reqs m' rid = None \<and>
      get_num_free_blocks p' = get_num_free_blocks p - (if st_partial_hit_reqs m rid = None then 0 else 1) \<and>
      length (req_blocks rid m') = length (req_blocks rid m) \<and> st_spec m' = st_spec m \<and> st_block_size m' = st_block_size m)"
  proof (cases "st_partial_hit_reqs m rid")
    case None
    then show ?thesis by (simp add: base_redirect_partial_hit_def)
  next
    case (Some x)
    then obtain i src where x: "st_partial_hit_reqs m rid = Some (i, src)" by (cases x) auto
    obtain nb p1 where g: "get_new_blocks 1 p = Inr (nb, p1)" "get_num_free_blocks p1 = get_num_free_blocks p - 1" "int (length nb) = 1"
      using get_new_blocks_free [OF assms(1), of 1] assms(2) x by auto
    then obtain cow where nb: "nb = [cow]" by (auto simp: length_Suc_conv)
    let ?m = "m\<lparr>st_partial_hit_reqs := (st_partial_hit_reqs m)(rid := None)\<rparr>"
    have run: "base_redirect_partial_hit rid p m = bindE (apply_cow rid i src cow p1 ?m) (\<lambda>(p2, m2).
        Inr ([cow], p2, m2\<lparr>st_new_block_ids := st_new_block_ids m2 @ [block_id (blk p2 cow)]\<rparr>))"
      by (simp add: base_redirect_partial_hit_def x g(1) nb py_index_def)
    show ?thesis
    proof (cases "apply_cow rid i src cow p1 ?m")
      case (Inl e)
      then show ?thesis using run apply_cow_demand(1) [OF Inl] by simp
    next
      case (Inr r)
      obtain p2 m2 where r: "r = (p2, m2)" by (cases r)
      note A = apply_cow_demand(2) [OF Inr, of p2 m2]
      show ?thesis using A run Inr r x g(2) by auto
    qed
  qed
  then show "base_redirect_partial_hit rid p m \<noteq> Inl ValueError"
    "base_redirect_partial_hit rid p m = Inr (bs, p', m') \<Longrightarrow> st_partial_hit_reqs m' rid = None \<and>
      get_num_free_blocks p' = get_num_free_blocks p - (if st_partial_hit_reqs m rid = None then 0 else 1) \<and>
      length (req_blocks rid m') = length (req_blocks rid m) \<and> st_spec m' = st_spec m \<and> st_block_size m' = st_block_size m"
    by blast+
qed

lemma base_redirect_rep:
  assumes "owns ex p m" and "base_redirect_partial_hit rid p m = Inr (bs, p', m')"
  shows "\<exists>ys. pool_rep p' ys"
  using base_redirect_owned [OF assms] by (auto simp: keeps_owned_def owns_def)

lemma base_allocate_new_demand:
  assumes own: "owns ex p m"
    and d: "max 0 (cdiv nt (st_block_size m) - int (length (req_blocks rid m))) + (if st_partial_hit_reqs m rid = None then 0 else 1) \<le> get_num_free_blocks p"
  shows "base_allocate_new_blocks rid nt p m \<noteq> Inl ValueError"
    and "base_allocate_new_blocks rid nt p m = Inr (bs, p', m') \<Longrightarrow> get_num_free_blocks p -
      (max 0 (cdiv nt (st_block_size m) - int (length (req_blocks rid m))) + (if st_partial_hit_reqs m rid = None then 0 else 1)) \<le> get_num_free_blocks p'"
proof -
  obtain xs where rep: "pool_rep p xs" using own by (auto simp: owns_def)
  have one: "st_partial_hit_reqs m rid \<noteq> None \<longrightarrow> 1 \<le> get_num_free_blocks p" using d by (auto split: if_split_asm)
  note R = base_redirect_demand [OF rep one]
  have ext: "\<exists>bs p2 m2. extend_req rid (cdiv nt (st_block_size m1) - int (length (req_blocks rid m1))) p1 (open_req rid m1) = Inr (bs, p2, m2) \<and>
      get_num_free_blocks p2 = get_num_free_blocks p1 - (cdiv nt (st_block_size m1) - int (length (req_blocks rid m1)))"
    if r: "base_redirect_partial_hit rid p m = Inr (cow, p1, m1)" and n: "0 \<le> cdiv nt (st_block_size m1) - int (length (req_blocks rid m1))" for cow p1 m1
  proof -
    obtain ys where "pool_rep p1 ys" using base_redirect_rep [OF own r] by blast
    from extend_req_demand [OF this n, of rid "open_req rid m1"] show ?thesis using R(2) [OF r] d n by auto
  qed
  show "base_allocate_new_blocks rid nt p m \<noteq> Inl ValueError"
    using R(1) ext by (fastforce simp: base_allocate_new_blocks_def Let_def bindE_eq_Inl split: if_split_asm)
  assume run: "base_allocate_new_blocks rid nt p m = Inr (bs, p', m')"
  then obtain cow p1 m1 where r: "base_redirect_partial_hit rid p m = Inr (cow, p1, m1)"
    and p': "(cdiv nt (st_block_size m1) - int (length (req_blocks rid m1)) \<le> 0 \<and> p' = p1) \<or>
      (\<exists>bs2 m2. 0 < cdiv nt (st_block_size m1) - int (length (req_blocks rid m1)) \<and>
        extend_req rid (cdiv nt (st_block_size m1) - int (length (req_blocks rid m1))) p1 (open_req rid m1) = Inr (bs2, p', m2))"
    by (auto simp: base_allocate_new_blocks_def Let_def bindE_eq_Inr split: if_split_asm) (meson linorder_not_le)
  show "get_num_free_blocks p -
      (max 0 (cdiv nt (st_block_size m) - int (length (req_blocks rid m))) + (if st_partial_hit_reqs m rid = None then 0 else 1)) \<le> get_num_free_blocks p'"
    using p' R(2) [OF r] ext [OF r] by auto
qed


lemma one_block_demand:
  assumes "pool_rep p xs" and "1 \<le> get_num_free_blocks p"
  shows "\<exists>bs p' m'. extend_req rid 1 p m = Inr (bs, p', m') \<and> get_num_free_blocks p' = get_num_free_blocks p - 1 \<and>
    req_blocks rid m' \<noteq> [] \<and> st_spec m' = st_spec m"
proof -
  obtain bs p' m' where e: "extend_req rid 1 p m = Inr (bs, p', m')" "get_num_free_blocks p' = get_num_free_blocks p - 1"
    "int (length (req_blocks rid m')) = int (length (req_blocks rid m)) + 1" "st_spec m' = st_spec m"
    using extend_req_demand [OF assms(1) _ assms(2), of rid m] by auto
  have "req_blocks rid m' \<noteq> []" using e(3) by (cases "req_blocks rid m'") auto
  then show ?thesis using e by blast
qed

lemmas one_block_defs = kpool_allocate_new_blocks_def kpool_allocate_external_computed_blocks_def claim_ring_block_def
  ring_allocate_external_computed_blocks_def Let_def

lemma mgr_allocate_new_demand:
  assumes own: "owns ex p m" and nm: "\<not> is_mamba (spec_kind (st_spec m))" and d: "mgr_demand rid nt enc m \<le> get_num_free_blocks p"
  shows "mgr_allocate_new_blocks rid (if is_cross m then enc else nt) main p m \<noteq> Inl ValueError"
    and "mgr_allocate_new_blocks rid (if is_cross m then enc else nt) main p m = Inr (bs, p', m') \<Longrightarrow>
      get_num_free_blocks p - mgr_demand rid nt enc m \<le> get_num_free_blocks p'"
proof -
  let ?nt = "if is_cross m then enc else nt"
  obtain xs where rep: "pool_rep p xs" using own by (auto simp: owns_def)
  have *: "mgr_allocate_new_blocks rid ?nt main p m \<noteq> Inl ValueError \<and>
    (\<forall>bs p' m'. mgr_allocate_new_blocks rid ?nt main p m = Inr (bs, p', m') \<longrightarrow> get_num_free_blocks p - mgr_demand rid nt enc m \<le> get_num_free_blocks p')"
  proof (cases "spec_kind (st_spec m) = KpoolTailSpec \<or> spec_kind (st_spec m) = CircularBufferSpec")
    case True
    show ?thesis
    proof (cases "req_blocks rid m = []")
      case True
      then have "1 \<le> get_num_free_blocks p" using d \<open>_ \<or> _\<close> by (simp add: mgr_demand_def)
      from one_block_demand [OF rep this, of rid "open_req rid m"] show ?thesis
        using \<open>spec_kind (st_spec m) = KpoolTailSpec \<or> _\<close> True by (auto simp: mgr_allocate_new_blocks_def mgr_demand_def one_block_defs)
    next
      case False
      then show ?thesis using \<open>spec_kind (st_spec m) = KpoolTailSpec \<or> _\<close>
        by (auto simp: mgr_allocate_new_blocks_def mgr_demand_def one_block_defs Suc_le_eq)
    qed
  next
    case False
    then have e: "mgr_allocate_new_blocks rid ?nt main p m = base_allocate_new_blocks rid ?nt p m"
      using nm by (cases "spec_kind (st_spec m)") (simp_all add: mgr_allocate_new_blocks_def is_mamba_def)
    have "mgr_demand rid nt enc m = max 0 (cdiv ?nt (st_block_size m) - int (length (req_blocks rid m))) + (if st_partial_hit_reqs m rid = None then 0 else 1)"
      using False by (simp add: mgr_demand_def)
    then show ?thesis unfolding e using base_allocate_new_demand [OF own, of ?nt rid] d by auto
  qed
  then show "mgr_allocate_new_blocks rid ?nt main p m \<noteq> Inl ValueError"
    "mgr_allocate_new_blocks rid ?nt main p m = Inr (bs, p', m') \<Longrightarrow> get_num_free_blocks p - mgr_demand rid nt enc m \<le> get_num_free_blocks p'"
    by blast+
qed

lemma mgr_external_demand:
  assumes own: "owns ex p m" and nm: "\<not> is_mamba (spec_kind (st_spec m))" and tot: "loc + ext \<le> nt"
    and d: "mgr_demand rid nt enc m \<le> get_num_free_blocks p"
  shows "mgr_allocate_external_computed_blocks rid loc ext p m \<noteq> Inl ValueError \<and>
    (\<forall>p' m'. mgr_allocate_external_computed_blocks rid loc ext p m = Inr (p', m') \<longrightarrow>
      get_num_free_blocks p - mgr_demand rid nt enc m \<le> get_num_free_blocks p' - mgr_demand rid nt enc m')"
proof -
  obtain xs where rep: "pool_rep p xs" using own by (auto simp: owns_def)
  consider "is_cross m" | "spec_kind (st_spec m) = KpoolTailSpec \<or> spec_kind (st_spec m) = CircularBufferSpec"
    | "\<not> is_cross m" "\<not> (spec_kind (st_spec m) = KpoolTailSpec \<or> spec_kind (st_spec m) = CircularBufferSpec)" by blast
  then show ?thesis
  proof cases
    case 1
    then show ?thesis by (simp add: mgr_allocate_external_computed_blocks_def)
  next
    case 2
    show ?thesis
    proof (cases "req_blocks rid m = []")
      case True
      then have "1 \<le> get_num_free_blocks p" using d 2 by (simp add: mgr_demand_def)
      from one_block_demand [OF rep this, of rid "open_req rid m"] show ?thesis
        using 2 True by (auto simp: mgr_allocate_external_computed_blocks_def mgr_demand_def one_block_defs)
    next
      case False
      then show ?thesis using 2 by (auto simp: mgr_allocate_external_computed_blocks_def mgr_demand_def one_block_defs Suc_le_eq)
    qed
  next
    case 3
    let ?n = "max 0 (cdiv (loc + ext) (st_block_size m) - int (length (req_blocks rid m)))"
    have e: "mgr_allocate_external_computed_blocks rid loc ext p m = base_allocate_external_computed_blocks rid loc ext p m"
      using nm 3 by (cases "spec_kind (st_spec m)") (simp_all add: mgr_allocate_external_computed_blocks_def is_mamba_def)
    have "0 < st_block_size m" using own by (simp add: owns_def st_ok_def)
    then have c: "cdiv (loc + ext) (st_block_size m) \<le> cdiv nt (st_block_size m)" using tot by (simp add: cdiv_mono)
    have n: "0 \<le> ?n" "?n \<le> get_num_free_blocks p" using d c 3 by (auto simp: mgr_demand_def split: if_split_asm)
    obtain bs p' m' where x: "extend_req rid ?n p (open_req rid m) = Inr (bs, p', m')" "get_num_free_blocks p' = get_num_free_blocks p - ?n"
      "int (length (req_blocks rid m')) = int (length (req_blocks rid m)) + ?n" "st_partial_hit_reqs m' = st_partial_hit_reqs m"
      "st_spec m' = st_spec m" "st_block_size m' = st_block_size m"
      using extend_req_demand [OF rep n, of rid "open_req rid m"] by auto
    have dm: "mgr_demand rid nt enc m' = mgr_demand rid nt enc m - ?n" using x(3-6) c 3 by (auto simp: mgr_demand_def)
    show ?thesis unfolding e base_allocate_external_computed_blocks_def Let_def using x(1,2) dm by auto
  qed
qed


section \<open>Cache hits\<close>

text \<open>Fewer blocks of the pool are free: what was counted as evictable stays an upper bound.\<close>

definition pool_shrinks :: "block_pool \<Rightarrow> block_pool \<Rightarrow> bool" where
  "pool_shrinks p p' \<longleftrightarrow> (\<forall>b. ref_cnt (blk p' b) = 0 \<and> \<not> is_null (blk p' b) \<longrightarrow> ref_cnt (blk p b) = 0 \<and> \<not> is_null (blk p b))"

lemma pool_shrinks_refl [simp]: "pool_shrinks p p"
  by (simp add: pool_shrinks_def)

lemma evictable_shrinks: "pool_shrinks p p' \<Longrightarrow> get_num_evictable_blocks p' bs \<le> get_num_evictable_blocks p bs"
  by (induction bs) (auto simp: get_num_evictable_blocks_def pool_shrinks_def)

lemma touch_free:
  assumes rep: "pool_rep p xs" and bs: "\<forall>b \<in> set bs. b < num_gpu_blocks p" and t: "touch bs p = Inr p'"
  shows "get_num_free_blocks p - get_num_evictable_blocks p bs \<le> get_num_free_blocks p'" and "pool_shrinks p p'"
proof -
  have T: "pool_rep p' (filter (\<lambda>x. x \<notin> set bs) xs)" "pool_same p p'" "\<And>c. ref_cnt (blk p' c) = ref_cnt (blk p c) + occ bs c"
    using touch_spec [OF rep bs] t by auto
  have d: "distinct xs" using rep fq.rep_real by (auto simp: pool_rep_def pool_core_def)
  have xs: "set xs = {b. 0 < b \<and> b < num_gpu_blocks p \<and> ref_cnt (blk p b) = 0}" and nn: "\<forall>b. 0 < b \<and> b < num_gpu_blocks p \<longrightarrow> 0 \<le> ref_cnt (blk p b)"
    and null: "\<forall>b < num_gpu_blocks p. is_null (blk p b) = (b = 0)"
    using rep by (auto simp: pool_rep_def pool_core_def refs_ok_def pool_shape_def)
  have "length (filter (\<lambda>x. x \<in> set bs) xs) = card (set (filter (\<lambda>x. x \<in> set bs) xs))" using d by (metis distinct_card distinct_filter)
  also have "set (filter (\<lambda>x. x \<in> set bs) xs) = set (filter (\<lambda>b. ref_cnt (blk p b) = 0 \<and> \<not> is_null (blk p b)) bs)" using xs null bs by auto
  also have "card \<dots> \<le> length (filter (\<lambda>b. ref_cnt (blk p b) = 0 \<and> \<not> is_null (blk p b)) bs)" by (rule card_length)
  finally have "int (length (filter (\<lambda>x. x \<in> set bs) xs)) \<le> get_num_evictable_blocks p bs" by (simp add: get_num_evictable_blocks_def)
  then show "get_num_free_blocks p - get_num_evictable_blocks p bs \<le> get_num_free_blocks p'"
    using pool_rep_free_count [OF rep] pool_rep_free_count [OF T(1)] sum_length_filter_compl [of "\<lambda>x. x \<in> set bs" xs] by simp
  have "ref_cnt (blk p b) = 0" if "ref_cnt (blk p' b) = 0" "\<not> is_null (blk p b)" for b
  proof (cases "b \<in> set bs")
    case True
    then have "0 \<le> ref_cnt (blk p b)" using nn null bs that(2) by auto
    then show ?thesis using T(3) [of b] that(1) by simp
  next
    case False
    then have "occ bs b = 0" by (simp add: count_list_0_iff)
    then show ?thesis using T(3) [of b] that(1) by simp
  qed
  then show "pool_shrinks p p'" using T(2) by (auto simp: pool_shrinks_def pool_same_def)
qed

text \<open>The number of blocks that the coordinator counts for manager \<^verbatim>\<open>i\<close>.\<close>

definition mgr_count ::
  "string \<Rightarrow> int \<Rightarrow> nat list list \<Rightarrow> int \<Rightarrow> int \<Rightarrow> int \<Rightarrow> int \<Rightarrow> nat \<Rightarrow> block_pool \<Rightarrow> stm \<Rightarrow> (int \<times> stm) result" where
  "mgr_count rid nt hits enc tot loc main i p m =
     (if is_cross m then mgr_get_num_blocks_to_allocate p rid enc [] 0 0 enc False m
      else bindE (py_index hits (int i)) (\<lambda>bs. mgr_get_num_blocks_to_allocate p rid nt bs tot loc main False m))"

definition mgr_need :: "string \<Rightarrow> int \<Rightarrow> nat list list \<Rightarrow> int \<Rightarrow> int \<Rightarrow> int \<Rightarrow> int \<Rightarrow> nat \<Rightarrow> block_pool \<Rightarrow> stm \<Rightarrow> int" where
  "mgr_need rid nt hits enc tot loc main i p m =
     (if is_mamba (spec_kind (st_spec m)) then 0
      else case mgr_count rid nt hits enc tot loc main i p m of Inl _ \<Rightarrow> 0 | Inr (n, _) \<Rightarrow> n)"

text \<open>The two parts of the count for a request without tracked blocks: new blocks, and hits that leave the free list.\<close>

definition skipped_blocks :: "stm \<Rightarrow> int \<Rightarrow> int" where
  "skipped_blocks m tot = get_num_skipped_tokens (spec_kind (st_spec m)) tot div st_block_size m"

definition base_new :: "stm \<Rightarrow> string \<Rightarrow> int \<Rightarrow> nat list \<Rightarrow> int \<Rightarrow> int \<Rightarrow> int" where
  "base_new m rid nt hs tot loc =
     max (cdiv nt (st_block_size m) - max (skipped_blocks m tot) (int (length hs) + int (length (req_blocks rid m)))) 0 +
     (if has_partial_local_hit m hs loc then 1 else 0)"

definition base_kept :: "stm \<Rightarrow> string \<Rightarrow> nat list \<Rightarrow> int \<Rightarrow> nat list" where
  "base_kept m rid hs tot = drop (nat (max 0 (skipped_blocks m tot - int (length (req_blocks rid m))))) hs"

lemma base_count_untracked:
  "st_num_cached_block m rid = None \<Longrightarrow> base_get_num_blocks_to_allocate p m rid nt hs tot loc False =
     Inr (base_new m rid nt hs tot loc + get_num_evictable_blocks p (base_kept m rid hs tot))"
  by (cases "st_max_admission_blocks_per_request m"; cases "has_partial_local_hit m hs loc")
    (simp_all add: base_get_num_blocks_to_allocate_def base_new_def base_kept_def skipped_blocks_def Let_def)

lemma base_count_tracked:
  "st_num_cached_block m rid \<noteq> None \<Longrightarrow> base_get_num_blocks_to_allocate p m rid nt hs tot loc False =
     (if hs \<noteq> [] then Inl AssertionError else Inr (max (cdiv nt (st_block_size m) - int (length (req_blocks rid m))) 0))"
  by (cases "st_max_admission_blocks_per_request m") (simp_all add: base_get_num_blocks_to_allocate_def Let_def)

lemma base_count_mono:
  assumes "pool_shrinks p p'"
  shows "(case base_get_num_blocks_to_allocate p' m rid nt hs tot loc False of Inl _ \<Rightarrow> 0 | Inr n \<Rightarrow> n) \<le>
    (case base_get_num_blocks_to_allocate p m rid nt hs tot loc False of Inl _ \<Rightarrow> 0 | Inr n \<Rightarrow> n)"
    and "0 \<le> (case base_get_num_blocks_to_allocate p m rid nt hs tot loc False of Inl _ \<Rightarrow> 0 | Inr n \<Rightarrow> n)"
proof -
  have "0 \<le> get_num_evictable_blocks p bs" "0 \<le> base_new m rid nt hs tot loc" for bs by (simp_all add: get_num_evictable_blocks_def base_new_def)
  then show "(case base_get_num_blocks_to_allocate p' m rid nt hs tot loc False of Inl _ \<Rightarrow> 0 | Inr n \<Rightarrow> n) \<le>
    (case base_get_num_blocks_to_allocate p m rid nt hs tot loc False of Inl _ \<Rightarrow> 0 | Inr n \<Rightarrow> n)"
    "0 \<le> (case base_get_num_blocks_to_allocate p m rid nt hs tot loc False of Inl _ \<Rightarrow> 0 | Inr n \<Rightarrow> n)"
    using evictable_shrinks [OF assms, of "base_kept m rid hs tot"]
    by (cases "st_num_cached_block m rid = None"; simp add: base_count_untracked base_count_tracked)+
qed

lemma bindE_snd_case: "(case bindE r (\<lambda>n. Inr (n, m)) of Inl _ \<Rightarrow> 0 | Inr (n, _) \<Rightarrow> n) = (case r of Inl _ \<Rightarrow> 0 | Inr n \<Rightarrow> n)"
  by (cases r) simp_all

text \<open>What the count is, by class.\<close>

lemma mgr_need_cases:
  assumes "\<not> is_mamba (spec_kind (st_spec m))" and "i < length hits"
  shows "mgr_need rid nt hits enc tot loc main i p m =
    (if spec_kind (st_spec m) = KpoolTailSpec \<or> spec_kind (st_spec m) = CircularBufferSpec then (if req_blocks rid m = [] then 1 else 0)
     else case (if is_cross m then base_get_num_blocks_to_allocate p m rid enc [] 0 0 False
                else base_get_num_blocks_to_allocate p m rid nt (hits ! i) tot loc False) of Inl _ \<Rightarrow> 0 | Inr n \<Rightarrow> n)"
  using assms
  by (cases "spec_kind (st_spec m)")
    (auto simp: mgr_need_def mgr_count_def mgr_get_num_blocks_to_allocate_def kpool_get_num_blocks_to_allocate_def
      ring_get_num_blocks_to_allocate_def bindE_snd_case py_index_def is_mamba_def Suc_le_eq)


lemma mgr_need_mono:
  assumes "pool_shrinks p p'"
  shows "mgr_need rid nt hits enc tot loc main i p' m \<le> mgr_need rid nt hits enc tot loc main i p m"
    and "0 \<le> mgr_need rid nt hits enc tot loc main i p m"
proof -
  have "mgr_need rid nt hits enc tot loc main i p' m \<le> mgr_need rid nt hits enc tot loc main i p m \<and> 0 \<le> mgr_need rid nt hits enc tot loc main i p m"
  proof (cases "\<not> is_mamba (spec_kind (st_spec m)) \<and> i < length hits")
    case True
    then show ?thesis using base_count_mono [OF assms, of m rid] by (simp add: mgr_need_cases)
  next
    case False
    show ?thesis
    proof (cases "is_cross m")
      case True
      then show ?thesis using base_count_mono [OF assms, of m rid enc "[]" 0 0]
        by (simp add: mgr_need_def mgr_count_def mgr_get_num_blocks_to_allocate_def bindE_snd_case is_mamba_def)
    next
      case c: False
      then show ?thesis using False by (auto simp: mgr_need_def mgr_count_def py_index_def)
    qed
  qed
  then show "mgr_need rid nt hits enc tot loc main i p' m \<le> mgr_need rid nt hits enc tot loc main i p m" "0 \<le> mgr_need rid nt hits enc tot loc main i p m"
    by blast+
qed

text \<open>A request that no manager tracks yet.\<close>

definition fresh_req :: "string \<Rightarrow> stm \<Rightarrow> bool" where
  "fresh_req rid m \<longleftrightarrow> \<not> is_mamba (spec_kind (st_spec m)) \<and> st_num_cached_block m rid = None \<and> st_partial_hit_reqs m rid = None"

lemma base_add_local_spends:
  assumes own: "owns ex p m" and fresh: "fresh_req rid m" and hs: "\<forall>b \<in> set hs. b < num_gpu_blocks p"
    and kind: "\<not> is_cross m" "spec_kind (st_spec m) \<noteq> KpoolTailSpec" "spec_kind (st_spec m) \<noteq> CircularBufferSpec"
    and run: "base_add_local_computed_blocks rid hs loc ext p m = Inr (p', m')"
  shows "get_num_free_blocks p - (base_new m rid nt hs (loc + ext) loc + get_num_evictable_blocks p (base_kept m rid hs (loc + ext))) \<le>
      get_num_free_blocks p' - mgr_demand rid nt enc m'" and "pool_shrinks p p'"
proof -
  let ?sk = "skipped_blocks m (loc + ext)"
  define hs' where "hs' = (if ?sk > 0 then drop (nat ?sk) hs else hs)"
  obtain xs where rep: "pool_rep p xs" using own by (auto simp: owns_def)
  have req: "req_blocks rid m = []" using run by (auto simp: base_add_local_computed_blocks_def Let_def split: if_split_asm)
  have t: "(if st_enable_caching m then touch hs' p else if hs' \<noteq> [] then Inl AssertionError else Inr p) = Inr p'"
    and m': "st_spec m' = st_spec m" "st_block_size m' = st_block_size m" "length (req_blocks rid m') = nat ?sk + length hs'"
      "st_partial_hit_reqs m' rid \<noteq> None \<longrightarrow> has_partial_local_hit m hs' loc"
    using run req fresh
    by (auto simp: base_add_local_computed_blocks_def Let_def bindE_eq_Inr hs'_def skipped_blocks_def fresh_req_def split: if_split_asm)
  have kept: "base_kept m rid hs (loc + ext) = hs'" by (simp add: base_kept_def hs'_def req max_def)
  have part: "has_partial_local_hit m hs loc" if "has_partial_local_hit m hs' loc"
    using that by (auto simp: has_partial_local_hit_def hs'_def split: if_split_asm)
  have len: "int (nat ?sk + length hs') = max ?sk (int (length hs))" by (auto simp: hs'_def)
  have dem: "mgr_demand rid nt enc m' \<le> base_new m rid nt hs (loc + ext) loc"
    using m' part len kind by (auto simp: mgr_demand_def base_new_def req)
  have hs2: "\<forall>b \<in> set hs'. b < num_gpu_blocks p" using hs by (auto simp: hs'_def dest: in_set_dropD)
  have "get_num_free_blocks p - get_num_evictable_blocks p hs' \<le> get_num_free_blocks p' \<and> pool_shrinks p p'"
    using t touch_free [OF rep hs2] by (auto simp: get_num_evictable_blocks_def split: if_split_asm)
  then show "get_num_free_blocks p - (base_new m rid nt hs (loc + ext) loc + get_num_evictable_blocks p (base_kept m rid hs (loc + ext))) \<le>
      get_num_free_blocks p' - mgr_demand rid nt enc m'" "pool_shrinks p p'" using dem kept by auto
qed

lemma base_add_local_no_value_error:
  assumes "\<exists>xs. pool_rep p xs" and "\<forall>b \<in> set hs. b < num_gpu_blocks p"
  shows "base_add_local_computed_blocks rid hs loc ext p m \<noteq> Inl ValueError"
proof -
  have t: "\<exists>p'. touch (drop n hs) p = Inr p'" for n
  proof -
    have "\<forall>b \<in> set (drop n hs). b < num_gpu_blocks p" using assms(2) by (auto dest: in_set_dropD)
    then show ?thesis using assms(1) touch_spec by blast
  qed
  moreover have "touch [] p = Inr p" by (simp add: touch_def)
  ultimately show ?thesis using t [of 0]
    by (auto simp: base_add_local_computed_blocks_def Let_def bindE_eq_Inl split: if_split_asm) (metis Inr_Inl_False)+
qed


lemma mgr_add_local_spends:
  assumes own: "owns ex p m" and fresh: "fresh_req rid m" and i: "i < length hits" and hs: "\<forall>b \<in> set (hits ! i). b < num_gpu_blocks p"
  shows "mgr_add_local_computed_blocks rid (hits ! i) loc ext p m \<noteq> Inl ValueError"
    and "mgr_add_local_computed_blocks rid (hits ! i) loc ext p m = Inr (p', m') \<Longrightarrow>
      get_num_free_blocks p - mgr_need rid nt hits enc (loc + ext) loc main i p m \<le> get_num_free_blocks p' - mgr_demand rid nt enc m' \<and> pool_shrinks p p'"
proof -
  have nm: "\<not> is_mamba (spec_kind (st_spec m))" and un: "st_num_cached_block m rid = None" "st_partial_hit_reqs m rid = None"
    using fresh by (simp_all add: fresh_req_def)
  note need = mgr_need_cases [OF nm i]
  consider "is_cross m" | "spec_kind (st_spec m) = KpoolTailSpec \<or> spec_kind (st_spec m) = CircularBufferSpec"
    | "\<not> is_cross m" "spec_kind (st_spec m) \<noteq> KpoolTailSpec" "spec_kind (st_spec m) \<noteq> CircularBufferSpec" by blast
  then have "mgr_add_local_computed_blocks rid (hits ! i) loc ext p m \<noteq> Inl ValueError \<and>
    (\<forall>p' m'. mgr_add_local_computed_blocks rid (hits ! i) loc ext p m = Inr (p', m') \<longrightarrow>
      get_num_free_blocks p - mgr_need rid nt hits enc (loc + ext) loc main i p m \<le> get_num_free_blocks p' - mgr_demand rid nt enc m' \<and> pool_shrinks p p')"
  proof cases
    case 1
    have "skipped_blocks m 0 = 0" using 1 by (simp add: skipped_blocks_def get_num_skipped_tokens_def)
    then have "mgr_demand rid nt enc m \<le> mgr_need rid nt hits enc (loc + ext) loc main i p m"
      using 1 un by (simp add: need base_count_untracked mgr_demand_def base_new_def base_kept_def has_partial_local_hit_def get_num_evictable_blocks_def)
    then show ?thesis using 1 by (simp add: mgr_add_local_computed_blocks_def)
  next
    case 2
    then have "mgr_demand rid nt enc m = mgr_need rid nt hits enc (loc + ext) loc main i p m" by (auto simp: need mgr_demand_def)
    then show ?thesis using 2 by (auto simp: mgr_add_local_computed_blocks_def)
  next
    case 3
    have e: "mgr_add_local_computed_blocks rid (hits ! i) loc ext p m = base_add_local_computed_blocks rid (hits ! i) loc ext p m"
      using nm 3 by (cases "spec_kind (st_spec m)") (simp_all add: mgr_add_local_computed_blocks_def is_mamba_def)
    have n: "mgr_need rid nt hits enc (loc + ext) loc main i p m =
        base_new m rid nt (hits ! i) (loc + ext) loc + get_num_evictable_blocks p (base_kept m rid (hits ! i) (loc + ext))"
      using 3 un by (simp add: need base_count_untracked)
    have "\<exists>xs. pool_rep p xs" using own by (simp add: owns_def)
    then show ?thesis unfolding e n using base_add_local_no_value_error [OF _ hs] base_add_local_spends [OF own fresh hs 3] by blast
  qed
  then show "mgr_add_local_computed_blocks rid (hits ! i) loc ext p m \<noteq> Inl ValueError"
    "mgr_add_local_computed_blocks rid (hits ! i) loc ext p m = Inr (p', m') \<Longrightarrow>
      get_num_free_blocks p - mgr_need rid nt hits enc (loc + ext) loc main i p m \<le> get_num_free_blocks p' - mgr_demand rid nt enc m' \<and> pool_shrinks p p'"
    by blast+
qed

section \<open>All managers\<close>

text \<open>
  A loop over the managers with a budget: manager \<^verbatim>\<open>i\<close> has reserved \<^verbatim>\<open>wb i\<close> free blocks before its step and keeps \<^verbatim>\<open>wa i\<close>
  reserved after it. A step spends no more than the reservation falls, and leaves the reservations of the others valid.
\<close>

locale budget_step = owned_step step pre
  for step :: "'s manager_step" and pre :: "nat \<Rightarrow> block_pool \<Rightarrow> bool" +
  fixes ok :: "nat \<Rightarrow> stm \<Rightarrow> bool" and wb :: "nat \<Rightarrow> block_pool \<Rightarrow> stm \<Rightarrow> int" and wa :: "nat \<Rightarrow> stm \<Rightarrow> int"
  assumes reserved: "\<And>i p m. 0 \<le> wb i p m" "\<And>i m. 0 \<le> wa i m"
    and spends: "\<And>ex p m i s. owns ex p m \<Longrightarrow> pre i p \<Longrightarrow> ok i m \<Longrightarrow> wb i p m \<le> get_num_free_blocks p \<Longrightarrow>
      step i s p m \<noteq> Inl ValueError \<and> (\<forall>s' p' m'. step i s p m = Inr (s', p', m') \<longrightarrow>
        get_num_free_blocks p - wb i p m \<le> get_num_free_blocks p' - wa i m' \<and> (\<forall>j m. wb j p' m \<le> wb j p m))"
begin

definition reserve :: "nat \<Rightarrow> coordinator \<Rightarrow> nat \<Rightarrow> nat \<Rightarrow> int" where
  "reserve i c k j = (if j < i then wa j (co_managers c ! j) else wb j (co_block_pools c ! k) (co_managers c ! j))"

definition within :: "nat \<Rightarrow> coordinator \<Rightarrow> bool" where
  "within i c \<longleftrightarrow> (\<forall>k < length (co_block_pools c).
     (\<Sum>j \<in> {j. j < length (co_managers c) \<and> pool_index c j = k}. reserve i c k j) \<le> get_num_free_blocks (co_block_pools c ! k))"

lemma reserve_nonneg: "0 \<le> reserve i c k j"
  using reserved by (simp add: reserve_def)

lemma on_manager_within:
  assumes own: "co_owns ex c" and i: "i < length (co_managers c)" and pre: "pre i (co_block_pools c ! pool_index c i)"
    and ok: "ok i (co_managers c ! i)" and w: "within i c"
  shows "on_manager step i (s, c) \<noteq> Inl ValueError" and "on_manager step i (s, c) = Inr (s', c') \<Longrightarrow> within (Suc i) c'"
proof -
  let ?k = "pool_index c i" and ?J = "\<lambda>k. {j. j < length (co_managers c) \<and> pool_index c j = k}"
  let ?p = "co_block_pools c ! pool_index c i" and ?m = "co_managers c ! i"
  have k: "?k < length (co_block_pools c)" using own i by (simp add: co_owns_def)
  have sum: "(\<Sum>j \<in> ?J ?k. f j) = f i + (\<Sum>j \<in> ?J ?k - {i}. f j)" for f :: "nat \<Rightarrow> int" by (rule sum.remove) (use i in auto)
  have rest: "0 \<le> (\<Sum>j \<in> ?J ?k - {i}. reserve i c ?k j)" by (simp add: sum_nonneg reserve_nonneg)
  have tot: "wb i ?p ?m + (\<Sum>j \<in> ?J ?k - {i}. reserve i c ?k j) \<le> get_num_free_blocks ?p"
  proof -
    have "reserve i c ?k i = wb i ?p ?m" by (simp add: reserve_def)
    moreover have "(\<Sum>j \<in> ?J ?k. reserve i c ?k j) \<le> get_num_free_blocks ?p" using w k unfolding within_def by blast
    ultimately show ?thesis using sum [of "reserve i c ?k"] by linarith
  qed
  note S = spends [OF co_owns_manager [OF own i] pre ok, of s]
  show "on_manager step i (s, c) \<noteq> Inl ValueError" using S tot rest by (auto simp: on_manager_def bindE_eq_Inl)
  assume "on_manager step i (s, c) = Inr (s', c')"
  then obtain p' m' where st: "step i s ?p ?m = Inr (s', p', m')" and c': "c' = put_manager i p' m' c"
    by (auto simp: on_manager_def bindE_eq_Inr)
  have sp: "get_num_free_blocks ?p - wb i ?p ?m \<le> get_num_free_blocks p' - wa i m'" "\<And>j m. wb j p' m \<le> wb j ?p m" using S st tot rest by auto
  have other: "reserve (Suc i) c' k' j = reserve i c k' j" if "j \<noteq> i" "k' \<noteq> ?k" for j k'
    using that by (simp add: reserve_def c' put_manager_def less_Suc_eq)
  have same: "reserve (Suc i) c' ?k j \<le> reserve i c ?k j" if "j \<noteq> i" for j
    using that sp(2) k by (simp add: reserve_def c' put_manager_def less_Suc_eq)
  have "(\<Sum>j \<in> ?J k'. reserve (Suc i) c' k' j) \<le> get_num_free_blocks (co_block_pools c' ! k')" if k': "k' < length (co_block_pools c)" for k'
  proof (cases "k' = ?k")
    case True
    have "reserve (Suc i) c' ?k i = wa i m'" using i by (simp add: reserve_def c' put_manager_def)
    moreover have "get_num_free_blocks (co_block_pools c' ! k') = get_num_free_blocks p'" using True k by (simp add: c' put_manager_def)
    moreover have "(\<Sum>j \<in> ?J ?k - {i}. reserve (Suc i) c' ?k j) \<le> (\<Sum>j \<in> ?J ?k - {i}. reserve i c ?k j)" by (rule sum_mono) (use same in auto)
    ultimately show ?thesis using sum [of "reserve (Suc i) c' ?k"] tot sp(1) unfolding True by linarith
  next
    case False
    then have "(\<Sum>j \<in> ?J k'. reserve (Suc i) c' k' j) = (\<Sum>j \<in> ?J k'. reserve i c k' j)" by (intro sum.cong) (auto intro!: other)
    moreover have "co_block_pools c' ! k' = co_block_pools c ! k'" using False by (simp add: c' put_manager_def)
    ultimately show ?thesis using w k' unfolding within_def by simp
  qed
  then show "within (Suc i) c'" by (simp add: within_def c' cong: conj_cong)
qed

lemma for_managers_within:
  assumes own: "co_owns ex c" and pre: "\<And>i. i < length (co_managers c) \<Longrightarrow> pre i (co_block_pools c ! pool_index c i)"
    and ok: "\<And>i. i < length (co_managers c) \<Longrightarrow> ok i (co_managers c ! i)" and w: "within 0 c"
  shows "for_managers step s c \<noteq> Inl ValueError" and "for_managers step s c = Inr (s', c') \<Longrightarrow> within (length (co_managers c)) c'"
proof -
  let ?n = "length (co_managers c)"
  have main: "foldE (on_manager step) [i..<?n] (s, c1) \<noteq> Inl ValueError \<and>
      (\<forall>s' c'. foldE (on_manager step) [i..<?n] (s, c1) = Inr (s', c') \<longrightarrow> within ?n c')"
    if "i \<le> ?n" "co_keeps ex c c1" "within i c1" "\<And>j. i \<le> j \<Longrightarrow> j < ?n \<Longrightarrow> co_managers c1 ! j = co_managers c ! j" for i s c1
    using that
  proof (induction "?n - i" arbitrary: i s c1)
    case 0
    then show ?case by simp
  next
    case (Suc d)
    then have i: "i < ?n" by simp
    note S = co_same_simps [OF co_keepsD(2) [OF Suc.prems(2)]]
    have i1: "i < length (co_managers c1)" using i S(3) by simp
    have "pool_index c i < length (co_block_pools c)" using own i by (simp add: co_owns_def)
    then have pre1: "pre i (co_block_pools c1 ! pool_index c1 i)" using pre_same [OF S(5) pre [OF i]] S(1) by simp
    have ok1: "ok i (co_managers c1 ! i)" using ok [OF i] Suc.prems(4) [of i] i by simp
    note W = on_manager_within [OF co_keepsD(1) [OF Suc.prems(2)] i1 pre1 ok1 Suc.prems(3), of s]
    show ?case
    proof (cases "on_manager step i (s, c1)")
      case (Inl e)
      then show ?thesis using W(1) i by (simp add: upt_conv_Cons)
    next
      case (Inr t)
      obtain s2 c2 where t: "t = (s2, c2)" by (cases t)
      have K: "co_keeps ex c1 c2" using on_manager_owned [OF co_keepsD(1) [OF Suc.prems(2)] i1 pre1] Inr t by simp
      have m: "co_managers c2 ! j = co_managers c ! j" if "Suc i \<le> j" "j < ?n" for j
        using Inr t Suc.prems(4) [of j] that by (auto simp: on_manager_def bindE_eq_Inr put_manager_def)
      have "foldE (on_manager step) [i..<?n] (s, c1) = foldE (on_manager step) [Suc i..<?n] (s2, c2)"
        using Inr t i by (simp add: upt_conv_Cons)
      moreover have "d = ?n - Suc i" "Suc i \<le> ?n" using Suc.hyps(2) by auto
      ultimately show ?thesis
        using Suc.hyps(1) [of "Suc i" c2 s2] co_keeps_trans [OF Suc.prems(2) K] W(2) Inr t m by simp
    qed
  qed
  show "for_managers step s c \<noteq> Inl ValueError" "for_managers step s c = Inr (s', c') \<Longrightarrow> within ?n c'"
    using main [of 0 c s] own w by (auto simp: for_managers_def co_keeps_refl)
qed

end

text \<open>The three loops of an allocation.\<close>

interpretation add_local_budget: budget_step "add_local_step rid hits loc ext"
    "\<lambda>i p. i < length hits \<longrightarrow> (\<forall>b \<in> set (hits ! i). b < num_gpu_blocks p)"
    "\<lambda>i m. i < length hits \<and> fresh_req rid m" "mgr_need rid nt hits enc (loc + ext) loc main" "\<lambda>i. mgr_demand rid nt enc"
  for rid hits loc ext nt enc main
proof unfold_locales
  fix ex p m i s
  assume own: "owns ex p m" and pre: "i < length hits \<longrightarrow> (\<forall>b \<in> set (hits ! i). b < num_gpu_blocks p)" and ok: "i < length hits \<and> fresh_req rid m"
  then have hs: "\<forall>b \<in> set (hits ! i). b < num_gpu_blocks p" by simp
  have st: "add_local_step rid hits loc ext i s p m = bindE (mgr_add_local_computed_blocks rid (hits ! i) loc ext p m) (\<lambda>(p', m'). Inr (s, p', m'))"
    using ok by (simp add: add_local_step_def py_index_def)
  show "add_local_step rid hits loc ext i s p m \<noteq> Inl ValueError \<and> (\<forall>s' p' m'. add_local_step rid hits loc ext i s p m = Inr (s', p', m') \<longrightarrow>
      get_num_free_blocks p - mgr_need rid nt hits enc (loc + ext) loc main i p m \<le> get_num_free_blocks p' - mgr_demand rid nt enc m' \<and>
      (\<forall>j m. mgr_need rid nt hits enc (loc + ext) loc main j p' m \<le> mgr_need rid nt hits enc (loc + ext) loc main j p m))"
    unfolding st using mgr_add_local_spends [OF own _ _ hs, of rid loc ext] ok mgr_need_mono(1)
    by (fastforce simp: bindE_eq_Inl bindE_eq_Inr)
qed (simp_all add: mgr_need_mono(2) [OF pool_shrinks_refl] mgr_demand_nonneg)

interpretation external_budget: budget_step "external_step rid loc ext" "\<lambda>i p. True"
    "\<lambda>i m. \<not> is_mamba (spec_kind (st_spec m)) \<and> loc + ext \<le> nt" "\<lambda>i p. mgr_demand rid nt enc" "\<lambda>i. mgr_demand rid nt enc"
  for rid loc ext nt enc
proof unfold_locales
  fix ex p m i s
  assume own: "owns ex p m" and ok: "\<not> is_mamba (spec_kind (st_spec m)) \<and> loc + ext \<le> nt" and d: "mgr_demand rid nt enc m \<le> get_num_free_blocks p"
  show "external_step rid loc ext i s p m \<noteq> Inl ValueError \<and> (\<forall>s' p' m'. external_step rid loc ext i s p m = Inr (s', p', m') \<longrightarrow>
      get_num_free_blocks p - mgr_demand rid nt enc m \<le> get_num_free_blocks p' - mgr_demand rid nt enc m' \<and> (\<forall>j m. mgr_demand rid nt enc m \<le> mgr_demand rid nt enc m))"
    using mgr_external_demand [OF own _ _ d] ok by (auto simp: external_step_def bindE_eq_Inl bindE_eq_Inr)
qed (simp_all add: mgr_demand_nonneg)

interpretation allocate_budget: budget_step "allocate_new_step rid nt main enc" "\<lambda>i p. 0 \<le> main"
    "\<lambda>i m. \<not> is_mamba (spec_kind (st_spec m))" "\<lambda>i p. mgr_demand rid nt enc" "\<lambda>i m. 0"
  for rid nt main enc
proof unfold_locales
  fix ex p m i s
  assume own: "owns ex p m" and ok: "\<not> is_mamba (spec_kind (st_spec m))" and d: "mgr_demand rid nt enc m \<le> get_num_free_blocks p"
  show "allocate_new_step rid nt main enc i s p m \<noteq> Inl ValueError \<and> (\<forall>s' p' m'. allocate_new_step rid nt main enc i s p m = Inr (s', p', m') \<longrightarrow>
      get_num_free_blocks p - mgr_demand rid nt enc m \<le> get_num_free_blocks p' - 0 \<and> (\<forall>j m. mgr_demand rid nt enc m \<le> mgr_demand rid nt enc m))"
    using mgr_allocate_new_demand [OF own ok d, of main] by (auto simp: allocate_new_step_def bindE_eq_Inl bindE_eq_Inr)
qed (simp_all add: mgr_demand_nonneg)

section \<open>The count covers the allocation\<close>

lemma count_step_need:
  assumes "\<not> is_mamba (spec_kind (st_spec m))" and "count_step c rid nt hits enc tot loc main False i counts p m = Inr (counts', p', m')"
  shows "p' = p" and "m' = m" and "counts' = counts[pool_index c i := counts ! pool_index c i + mgr_need rid nt hits enc tot loc main i p m]"
proof -
  obtain n where n: "mgr_count rid nt hits enc tot loc main i p m = Inr (n, m')" "p' = p" "counts' = counts[pool_index c i := counts ! pool_index c i + n]"
    using assms(2) by (auto simp: count_step_def mgr_count_def bindE_eq_Inr)
  have "m' = m"
    using n(1) assms(1) by (cases "spec_kind (st_spec m)") (auto simp: mgr_count_def mgr_get_num_blocks_to_allocate_def bindE_eq_Inr is_mamba_def split: if_split_asm)
  then show "p' = p" "m' = m" "counts' = counts[pool_index c i := counts ! pool_index c i + mgr_need rid nt hits enc tot loc main i p m]"
    using n assms(1) by (simp_all add: mgr_need_def)
qed

definition no_mamba :: "coordinator \<Rightarrow> bool" where
  "no_mamba c \<longleftrightarrow> (\<forall>m \<in> set (co_managers c). \<not> is_mamba (spec_kind (st_spec m)))"

definition pool_need :: "string \<Rightarrow> int \<Rightarrow> nat list list \<Rightarrow> int \<Rightarrow> int \<Rightarrow> int \<Rightarrow> int \<Rightarrow> coordinator \<Rightarrow> nat \<Rightarrow> nat \<Rightarrow> int" where
  "pool_need rid nt hits enc tot loc main c k j = mgr_need rid nt hits enc tot loc main j (co_block_pools c ! k) (co_managers c ! j)"

lemma put_manager_id: "put_manager i (co_block_pools c ! pool_index c i) (co_managers c ! i) c = c"
  by (simp add: put_manager_def)

lemma count_loop:
  assumes nm: "no_mamba c" and len: "length counts = length (co_block_pools c)" and n: "n \<le> length (co_managers c)"
    and pix: "\<forall>i < length (co_managers c). pool_index c i < length (co_block_pools c)"
    and run: "foldE (on_manager (count_step c rid nt hits enc tot loc main False)) [0..<n] (counts, c) = Inr (counts', c')"
  shows "c' = c \<and> length counts' = length counts \<and> (\<forall>k < length counts. counts' ! k = counts ! k +
    (\<Sum>j \<in> {j. j < n \<and> pool_index c j = k}. pool_need rid nt hits enc tot loc main c k j))"
  using n run
proof (induction n arbitrary: counts' c')
  case 0
  then show ?case by simp
next
  case (Suc n)
  obtain counts1 where r1: "foldE (on_manager (count_step c rid nt hits enc tot loc main False)) [0..<n] (counts, c) = Inr (counts1, c)"
    and r2: "on_manager (count_step c rid nt hits enc tot loc main False) n (counts1, c) = Inr (counts', c')"
    and l1: "length counts1 = length counts"
    and s1: "\<And>k. k < length counts \<Longrightarrow> counts1 ! k = counts ! k +
      (\<Sum>j \<in> {j. j < n \<and> pool_index c j = k}. pool_need rid nt hits enc tot loc main c k j)"
    using Suc.prems Suc.IH by (fastforce simp: foldE_append bindE_eq_Inr)
  let ?k = "pool_index c n"
  have nn: "\<not> is_mamba (spec_kind (st_spec (co_managers c ! n)))" using nm Suc.prems(1) by (simp add: no_mamba_def)
  obtain p m where st: "count_step c rid nt hits enc tot loc main False n counts1 (co_block_pools c ! ?k) (co_managers c ! n) = Inr (counts', p, m)"
    and pm: "c' = put_manager n p m c" using r2 by (auto simp: on_manager_def bindE_eq_Inr)
  have c': "c' = c" and cs: "counts' = counts1[?k := counts1 ! ?k + pool_need rid nt hits enc tot loc main c ?k n]"
    using pm count_step_need [OF nn st] by (simp_all add: put_manager_id pool_need_def)
  have "counts' ! k = counts ! k + (\<Sum>j \<in> {j. j < Suc n \<and> pool_index c j = k}. pool_need rid nt hits enc tot loc main c k j)" if k: "k < length counts" for k
  proof (cases "k = ?k")
    case True
    then have "{j. j < Suc n \<and> pool_index c j = k} = insert n {j. j < n \<and> pool_index c j = k}" by (auto simp: less_Suc_eq)
    then show ?thesis using s1 [OF k] True k l1 by (simp add: cs)
  next
    case False
    then have "{j. j < Suc n \<and> pool_index c j = k} = {j. j < n \<and> pool_index c j = k}" by (auto simp: less_Suc_eq)
    then show ?thesis using s1 [OF k] False by (simp add: cs)
  qed
  then show ?case using c' cs l1 by simp
qed

lemma co_num_free_blocks_le:
  assumes "k < length (co_block_pools c)"
  shows "co_num_free_blocks c \<le> get_num_free_blocks (co_block_pools c ! k)"
  using assms by (auto simp: co_num_free_blocks_def collection_num_free_blocks_def)

lemma co_count_covers:
  assumes own: "co_owns ex c" and nm: "no_mamba c"
    and run: "co_get_num_blocks_to_allocate rid nt hits enc tot loc main False c = Inr (n, c')"
  shows "c' = c" and "k < length (co_block_pools c) \<Longrightarrow>
    (\<Sum>j \<in> {j. j < length (co_managers c) \<and> pool_index c j = k}. pool_need rid nt hits enc tot loc main c k j) \<le> n"
proof -
  obtain counts where r: "for_managers (count_step c rid nt hits enc tot loc main False) (replicate (length (co_block_pools c)) 0) c = Inr (counts, c')"
    and n: "n = (if counts = [] then 0 else Max (set counts))"
    using run by (auto simp: co_get_num_blocks_to_allocate_def bindE_eq_Inr)
  have pix: "\<forall>i < length (co_managers c). pool_index c i < length (co_block_pools c)" using own by (simp add: co_owns_def)
  note L = count_loop [OF nm _ le_refl pix r [unfolded for_managers_def]]
  show "c' = c" using L by simp
  assume k: "k < length (co_block_pools c)"
  then have "counts ! k \<in> set counts" using L by (intro nth_mem) simp
  then have "counts ! k \<le> n" using n by auto
  then show "(\<Sum>j \<in> {j. j < length (co_managers c) \<and> pool_index c j = k}. pool_need rid nt hits enc tot loc main c k j) \<le> n"
    using L k by simp
qed

text \<open>A request that already runs: no hits, and each group tracks it or holds at least the blocks its window has passed.\<close>

definition running_req :: "string \<Rightarrow> int \<Rightarrow> stm \<Rightarrow> bool" where
  "running_req rid tot m \<longleftrightarrow> st_partial_hit_reqs m rid = None \<and>
     (st_num_cached_block m rid \<noteq> None \<or> skipped_blocks m tot \<le> int (length (req_blocks rid m)))"

lemma running_demand:
  assumes run: "running_req rid tot m" and nm: "\<not> is_mamba (spec_kind (st_spec m))" and i: "i < length hits" and h: "hits ! i = []"
  shows "mgr_demand rid nt enc m \<le> mgr_need rid nt hits enc tot loc main i p m"
proof -
  have ev: "get_num_evictable_blocks p [] = 0" "\<not> has_partial_local_hit m [] loc" for loc
    by (simp_all add: get_num_evictable_blocks_def has_partial_local_hit_def)
  have "is_cross m \<Longrightarrow> skipped_blocks m 0 = 0" by (simp add: skipped_blocks_def get_num_skipped_tokens_def)
  then show ?thesis using run h ev
    by (cases "st_num_cached_block m rid = None")
      (auto simp: mgr_need_cases [OF nm i] mgr_demand_def running_req_def base_count_untracked base_count_tracked base_new_def base_kept_def)
qed

lemma co_admits_running:
  assumes own: "co_owns ex c" and nm: "no_mamba c" and main: "0 \<le> main"
    and run: "\<forall>i < length (co_managers c). running_req rid tot (co_managers c ! i) \<and> i < length hits \<and> hits ! i = []"
    and count: "co_get_num_blocks_to_allocate rid nt hits enc tot loc main False c = Inr (n, c')" and room: "n \<le> co_num_free_blocks c"
  shows "co_allocate_new_blocks rid nt main enc c \<noteq> Inl ValueError"
proof -
  have kind: "\<not> is_mamba (spec_kind (st_spec (co_managers c ! i)))" if "i < length (co_managers c)" for i
    using nm that by (simp add: no_mamba_def)
  have "(\<Sum>j \<in> {j. j < length (co_managers c) \<and> pool_index c j = k}. allocate_budget.reserve rid nt enc 0 c k j) \<le> get_num_free_blocks (co_block_pools c ! k)"
    if k: "k < length (co_block_pools c)" for k
  proof -
    have "(\<Sum>j \<in> {j. j < length (co_managers c) \<and> pool_index c j = k}. allocate_budget.reserve rid nt enc 0 c k j) \<le>
      (\<Sum>j \<in> {j. j < length (co_managers c) \<and> pool_index c j = k}. pool_need rid nt hits enc tot loc main c k j)"
      by (rule sum_mono) (use run kind running_demand in \<open>auto simp: allocate_budget.reserve_def pool_need_def\<close>)
    then show ?thesis using co_count_covers(2) [OF own nm count k] room co_num_free_blocks_le [OF k] by linarith
  qed
  then have "allocate_budget.within rid nt enc 0 c" by (simp add: allocate_budget.within_def)
  then show ?thesis
    using allocate_budget.for_managers_within(1) [OF own] main kind by (simp add: co_allocate_new_blocks_def)
qed

text \<open>What the two loops over the hits leave reserved is what the last loop asks for.\<close>

definition demand_fits :: "string \<Rightarrow> int \<Rightarrow> int \<Rightarrow> coordinator \<Rightarrow> bool" where
  "demand_fits rid nt enc c \<longleftrightarrow> (\<forall>k < length (co_block_pools c).
     (\<Sum>j \<in> {j. j < length (co_managers c) \<and> pool_index c j = k}. mgr_demand rid nt enc (co_managers c ! j)) \<le>
       get_num_free_blocks (co_block_pools c ! k))"

lemma within_demand:
  shows "n = length (co_managers c) \<Longrightarrow> add_local_budget.within rid nt hits enc loc ext main n c = demand_fits rid nt enc c"
    and "external_budget.within rid nt enc i c = demand_fits rid nt enc c"
    and "allocate_budget.within rid nt enc 0 c = demand_fits rid nt enc c"
proof -
  have sum: "(\<Sum>j \<in> {j. j < n \<and> pool_index c j = k}. if j < n then f j else g j) = (\<Sum>j \<in> {j. j < n \<and> pool_index c j = k}. f j)"
    for n k and f g :: "nat \<Rightarrow> int" by (rule sum.cong) auto
  show "n = length (co_managers c) \<Longrightarrow> add_local_budget.within rid nt hits enc loc ext main n c = demand_fits rid nt enc c"
    by (simp add: add_local_budget.within_def add_local_budget.reserve_def demand_fits_def sum)
qed (simp_all add: external_budget.within_def external_budget.reserve_def allocate_budget.within_def allocate_budget.reserve_def demand_fits_def)

lemma no_mamba_same: "co_same c c' \<Longrightarrow> no_mamba c \<Longrightarrow> no_mamba c'"
  by (auto simp: no_mamba_def all_set_conv_all_nth co_same_def st_config_def)

lemma co_admits_new:
  assumes own: "co_owns ex c" and nm: "no_mamba c" and main: "0 \<le> main" and ext: "loc + ext \<le> nt"
    and new: "\<forall>i < length (co_managers c). fresh_req rid (co_managers c ! i) \<and> i < length hits" and hits: "hits_ok c hits"
    and count: "co_get_num_blocks_to_allocate rid nt hits enc (loc + ext) loc main False c = Inr (n, c')" and room: "n \<le> co_num_free_blocks c"
  shows "co_allocate_new_computed_blocks rid hits loc ext c \<noteq> Inl ValueError"
    and "co_allocate_new_computed_blocks rid hits loc ext c = Inr c1 \<Longrightarrow> co_allocate_new_blocks rid nt main enc c1 \<noteq> Inl ValueError"
proof -
  have alloc: "co_allocate_new_blocks rid nt main enc c1 \<noteq> Inl ValueError" if "co_keeps ex c c1" "demand_fits rid nt enc c1" for c1
    using allocate_budget.for_managers_within(1) [OF co_keepsD(1) [OF that(1)]] no_mamba_same [OF co_keepsD(2) [OF that(1)] nm] main that(2)
    by (simp add: co_allocate_new_blocks_def within_demand no_mamba_def)
  have extern: "for_managers (external_step rid loc ext) () c1 \<noteq> Inl ValueError"
    "for_managers (external_step rid loc ext) () c1 = Inr (u, c2) \<Longrightarrow> demand_fits rid nt enc c2" if "co_keeps ex c c1" "demand_fits rid nt enc c1" for c1 c2 u
    using external_budget.for_managers_within [OF co_keepsD(1) [OF that(1)], where nt = nt and enc = enc]
      no_mamba_same [OF co_keepsD(2) [OF that(1)] nm] ext that(2)
    by (simp_all add: within_demand no_mamba_def)
  have w: "add_local_budget.within rid nt hits enc loc ext main 0 c"
    using co_count_covers(2) [OF own nm count] room co_num_free_blocks_le [of _ c]
    by (fastforce simp: add_local_budget.within_def add_local_budget.reserve_def pool_need_def)
  have pre: "i < length hits \<longrightarrow> (\<forall>b \<in> set (hits ! i). b < num_gpu_blocks (co_block_pools c ! pool_index c i))" if "i < length (co_managers c)" for i
    using hits that by (simp add: hits_ok_def)
  note W = add_local_budget.for_managers_within [OF own pre _ w, where s = "()"]
  have unt: "\<not> (\<exists>m \<in> set (co_managers c). st_num_cached_block m rid \<noteq> None)" using new by (auto simp: in_set_conv_nth fresh_req_def)
  have local: "for_managers (add_local_step rid hits loc ext) () c \<noteq> Inl ValueError"
    "for_managers (add_local_step rid hits loc ext) () c = Inr (u, c1) \<Longrightarrow> co_keeps ex c c1 \<and> demand_fits rid nt enc c1" for u c1
  proof -
    show "for_managers (add_local_step rid hits loc ext) () c \<noteq> Inl ValueError" using W(1) new by blast
    assume r: "for_managers (add_local_step rid hits loc ext) () c = Inr (u, c1)"
    have K: "co_keeps ex c c1" using add_local.for_managers_owned [OF own _ r] pre by blast
    then show "co_keeps ex c c1 \<and> demand_fits rid nt enc c1"
      using W(2) [OF _ _ r] new within_demand(1) [of _ c1] co_same_simps(3) [OF co_keepsD(2) [OF K]] by simp
  qed
  show "co_allocate_new_computed_blocks rid hits loc ext c \<noteq> Inl ValueError"
    using unt local extern(1) by (auto simp: co_allocate_new_computed_blocks_def bindE_eq_Inl split: if_split_asm)
  assume run: "co_allocate_new_computed_blocks rid hits loc ext c = Inr c1"
  then obtain c0 where c0: "co_keeps ex c c0" "demand_fits rid nt enc c0"
    and "c1 = c0 \<or> for_managers (external_step rid loc ext) () c0 = Inr ((), c1)"
    using unt local(2) by (auto simp: co_allocate_new_computed_blocks_def bindE_eq_Inr split: if_split_asm)
  then have "demand_fits rid nt enc c1" using extern(2) by blast
  then show "co_allocate_new_blocks rid nt main enc c1 \<noteq> Inl ValueError" using alloc co_allocate_computed_keeps [OF own hits run] by blast
qed

section \<open>The whole of \<^verbatim>\<open>allocate_slots\<close>\<close>

text \<open>The steps before the count raise no \<^verbatim>\<open>ValueError\<close> and leave what the count reads of the request.\<close>

lemma count_step_fails: "count_step c rid nt hits enc tot loc main cap i counts p m \<noteq> Inl ValueError" if "\<not> is_mamba (spec_kind (st_spec m))"
  using that
  by (cases "spec_kind (st_spec m)")
    (auto simp: count_step_def mgr_get_num_blocks_to_allocate_def bindE_eq_Inl py_index_def base_get_num_blocks_to_allocate_def
      is_mamba_def Let_def split: if_split_asm)

lemma count_step_same:
  assumes "\<not> is_mamba (spec_kind (st_spec m))" and "count_step c rid nt hits enc tot loc main cap i counts p m = Inr (counts', p', m')"
  shows "p' = p" and "m' = m"
  using assms by (cases "spec_kind (st_spec m)"; auto simp: count_step_def mgr_get_num_blocks_to_allocate_def bindE_eq_Inr is_mamba_def split: if_split_asm)+

lemma foldE_fails:
  assumes "P s" and "\<And>x t t'. x \<in> set xs \<Longrightarrow> P t \<Longrightarrow> f x t = Inr t' \<Longrightarrow> P t'" and "\<And>x t. x \<in> set xs \<Longrightarrow> P t \<Longrightarrow> f x t \<noteq> Inl e"
  shows "foldE f xs s \<noteq> Inl e"
  using assms
proof (induction xs arbitrary: s)
  case (Cons x xs)
  have "foldE f xs t \<noteq> Inl e" if "f x s = Inr t" for t
    using Cons.prems that by (intro Cons.IH [of t]) auto
  then show ?case using Cons.prems(3) [of x s] Cons.prems(1) by (auto simp: bindE_eq_Inl)
qed simp

lemma co_count_same:
  assumes nm: "no_mamba c"
  shows "co_get_num_blocks_to_allocate rid nt hits enc tot loc main cap c \<noteq> Inl ValueError"
    and "co_get_num_blocks_to_allocate rid nt hits enc tot loc main cap c = Inr (n, c') \<Longrightarrow> c' = c"
proof -
  let ?f = "on_manager (count_step c rid nt hits enc tot loc main cap)"
  have kind: "\<not> is_mamba (spec_kind (st_spec (co_managers c ! i)))" if "i < length (co_managers c)" for i
    using nm that by (simp add: no_mamba_def)
  have step: "snd t' = c" if i: "i \<in> set [0..<length (co_managers c)]" and t: "snd t = c" and r: "?f i t = Inr t'" for i t t'
  proof -
    obtain counts p m where "count_step c rid nt hits enc tot loc main cap i (fst t) (co_block_pools c ! pool_index c i) (co_managers c ! i) = Inr (counts, p, m)"
      "snd t' = put_manager i p m c" using t r by (cases t) (auto simp: on_manager_def bindE_eq_Inr)
    moreover from this have "p = co_block_pools c ! pool_index c i" "m = co_managers c ! i" using count_step_same [OF kind [of i]] i by auto
    ultimately show ?thesis by (simp add: put_manager_id)
  qed
  have "foldE ?f [0..<length (co_managers c)] (counts, c) \<noteq> Inl ValueError" for counts
  proof (rule foldE_fails [where P = "\<lambda>t. snd t = c"])
    fix i and t :: "int list \<times> coordinator" assume i: "i \<in> set [0..<length (co_managers c)]" and t: "snd t = c"
    have "\<not> is_mamba (spec_kind (st_spec (co_managers c ! i)))" using kind i by simp
    from count_step_fails [OF this] t show "?f i t \<noteq> Inl ValueError" by (cases t) (simp add: on_manager_def bindE_eq_Inl)
  qed (simp, rule step)
  then show "co_get_num_blocks_to_allocate rid nt hits enc tot loc main cap c \<noteq> Inl ValueError"
    by (auto simp: co_get_num_blocks_to_allocate_def for_managers_def bindE_eq_Inl)
  assume "co_get_num_blocks_to_allocate rid nt hits enc tot loc main cap c = Inr (n, c')"
  then obtain counts where "foldE ?f [0..<length (co_managers c)] (replicate (length (co_block_pools c)) 0, c) = Inr (counts, c')"
    by (auto simp: co_get_num_blocks_to_allocate_def for_managers_def bindE_eq_Inr)
  then have "snd (counts, c') = c" by (rule foldE_invariant [where P = "\<lambda>t. snd t = c"]) (simp, rule step)
  then show "c' = c" by simp
qed

lemma null_out_length:
  shows "null_out js null bs \<noteq> Inl ValueError" and "null_out js null bs = Inr (fs, bs') \<Longrightarrow> length bs' = length bs"
proof -
  have "null_out js null bs \<noteq> Inl ValueError \<and> (\<forall>fs bs'. null_out js null bs = Inr (fs, bs') \<longrightarrow> length bs' = length bs)"
  proof (induction js arbitrary: bs)
    case (Cons j js)
    have u: "py_index bs j \<noteq> Inl ValueError" "py_update bs j null \<noteq> Inl ValueError" "\<And>bs'. py_update bs j null = Inr bs' \<Longrightarrow> length bs' = length bs"
      by (auto simp: py_index_def py_update_def split: if_split_asm)
    show ?case using u Cons.IH by (auto simp: bindE_eq_Inl bindE_eq_Inr split: if_split_asm)
  qed simp
  then show "null_out js null bs \<noteq> Inl ValueError" "null_out js null bs = Inr (fs, bs') \<Longrightarrow> length bs' = length bs" by blast+
qed

lemma free_blocks_fails: "free_blocks bs p \<noteq> Inl ValueError"
  by (auto simp: free_blocks_def prepend_n_def append_n_def Let_def bindE_eq_Inl split: prod.split_asm option.split_asm if_split_asm)

text \<open>What the count reads of a request in one manager.\<close>

definition same_req :: "string \<Rightarrow> stm \<Rightarrow> stm \<Rightarrow> bool" where
  "same_req rid m m' \<longleftrightarrow> st_num_cached_block m' rid = st_num_cached_block m rid \<and> st_partial_hit_reqs m' rid = st_partial_hit_reqs m rid \<and>
     length (req_blocks rid m') = length (req_blocks rid m)"

lemma same_req_open [simp]: "same_req rid m (open_req rid m)"
  by (simp add: same_req_def open_req_def set_req_blocks_def req_blocks_def update_conv')

lemma remove_blocks_in_range_same:
  shows "remove_blocks_in_range rid a b p m \<noteq> Inl ValueError" and "remove_blocks_in_range rid a b p m = Inr (p', m') \<Longrightarrow> same_req rid m m'"
proof -
  show "remove_blocks_in_range rid a b p m \<noteq> Inl ValueError"
    using null_out_length(1) free_blocks_fails
    by (auto simp: remove_blocks_in_range_def Let_def bindE_eq_Inl split: option.split_asm if_split_asm)
  assume "remove_blocks_in_range rid a b p m = Inr (p', m')"
  then show "same_req rid m m'"
    by (auto simp: remove_blocks_in_range_def Let_def bindE_eq_Inr same_req_def set_req_blocks_def req_blocks_def update_conv'
        split: option.split_asm if_split_asm dest!: null_out_length(2))
qed

lemma mgr_remove_skipped_same:
  assumes "\<not> is_mamba (spec_kind (st_spec m))"
  shows "mgr_remove_skipped_blocks rid n prompt p m \<noteq> Inl ValueError"
    and "mgr_remove_skipped_blocks rid n prompt p m = Inr (p', m') \<Longrightarrow> same_req rid m m'"
proof -
  have b: "base_remove_skipped_blocks rid n p m \<noteq> Inl ValueError" "base_remove_skipped_blocks rid n p m = Inr (p', m') \<Longrightarrow> same_req rid m m'" for p' m'
    using remove_blocks_in_range_same same_req_open
    by (auto simp: base_remove_skipped_blocks_def Let_def same_req_def split: if_split_asm)
  show "mgr_remove_skipped_blocks rid n prompt p m \<noteq> Inl ValueError"
    "mgr_remove_skipped_blocks rid n prompt p m = Inr (p', m') \<Longrightarrow> same_req rid m m'"
    using assms b remove_blocks_in_range_same
    by (cases "spec_kind (st_spec m)"; auto simp: mgr_remove_skipped_blocks_def rswa_remove_skipped_blocks_def is_mamba_def Let_def same_req_def split: option.split_asm)+
qed

lemma co_remove_skipped_same:
  assumes own: "co_owns ex c" and nm: "no_mamba c"
  shows "co_remove_skipped_blocks rid n prompt c \<noteq> Inl ValueError"
    and "co_remove_skipped_blocks rid n prompt c = Inr c' \<Longrightarrow> i < length (co_managers c) \<Longrightarrow> same_req rid (co_managers c ! i) (co_managers c' ! i)"
proof -
  let ?f = "on_manager (remove_skipped_step rid n prompt)"
  let ?P = "\<lambda>t. co_keeps ex c (snd t) \<and> (\<forall>i < length (co_managers c). same_req rid (co_managers c ! i) (co_managers (snd t) ! i))"
  have init: "?P ((), c)" using own by (simp add: co_keeps_refl same_req_def)
  have step: "?f i t \<noteq> Inl ValueError \<and> (\<forall>t'. ?f i t = Inr t' \<longrightarrow> ?P t')" if i: "i \<in> set [0..<length (co_managers c)]" and t: "?P t" for i t
  proof -
    obtain c1 where c1: "t = ((), c1)" by (cases t) auto
    have K: "co_keeps ex c c1" using t c1 by simp
    note S = co_same_simps [OF co_keepsD(2) [OF K]]
    have i1: "i < length (co_managers c1)" using i S(3) by simp
    have kind: "\<not> is_mamba (spec_kind (st_spec (co_managers c1 ! i)))"
      using no_mamba_same [OF co_keepsD(2) [OF K] nm] i1 by (simp add: no_mamba_def)
    note M = mgr_remove_skipped_same [OF kind, of rid n prompt]
    have "?f i t \<noteq> Inl ValueError" using M(1) by (auto simp: c1 on_manager_def remove_skipped_step_def bindE_eq_Inl)
    moreover have "?P ((), c2)" if r: "?f i t = Inr ((), c2)" for c2
    proof -
      have "co_keeps ex c1 c2" using remove_skipped.on_manager_owned [OF co_keepsD(1) [OF K] i1] r c1 by simp
      then have "co_keeps ex c c2" using co_keeps_trans [OF K] by blast
      moreover have "same_req rid (co_managers c ! j) (co_managers c2 ! j)" if j: "j < length (co_managers c)" for j
      proof -
        have "same_req rid (co_managers c1 ! j) (co_managers c2 ! j)"
          using r M(2) i1 by (cases "j = i") (auto simp: c1 on_manager_def remove_skipped_step_def bindE_eq_Inr put_manager_def same_req_def)
        then show ?thesis using t c1 j by (auto simp: same_req_def)
      qed
      ultimately show ?thesis by simp
    qed
    ultimately show ?thesis by auto
  qed
  have "foldE ?f [0..<length (co_managers c)] ((), c) \<noteq> Inl ValueError"
    by (rule foldE_fails [where P = ?P]) (use init step in blast)+
  then show "co_remove_skipped_blocks rid n prompt c \<noteq> Inl ValueError"
    by (auto simp: co_remove_skipped_blocks_def for_managers_def bindE_eq_Inl)
  assume "co_remove_skipped_blocks rid n prompt c = Inr c'" and i: "i < length (co_managers c)"
  then have "foldE ?f [0..<length (co_managers c)] ((), c) = Inr ((), c')" by (auto simp: co_remove_skipped_blocks_def for_managers_def bindE_eq_Inr)
  then have "?P ((), c')" by (rule foldE_invariant [where P = ?P]) (use init step in blast)+
  then show "same_req rid (co_managers c ! i) (co_managers c' ! i)" using i by simp
qed

text \<open>
  The request of an allocation: a new one with hits or externally computed tokens, or one that only extends its blocks.
\<close>

definition admissible :: "string \<Rightarrow> kv_cache_blocks \<Rightarrow> int \<Rightarrow> int \<Rightarrow> coordinator \<Rightarrow> bool" where
  "admissible rid b loc ext c \<longleftrightarrow>
     (if b \<noteq> EmptyKVCacheBlocks \<or> ext > 0 then \<forall>m \<in> set (co_managers c). fresh_req rid m
      else \<forall>m \<in> set (co_managers c). running_req rid (loc + ext) m)"

lemma admissible_same:
  assumes "co_same c c'" and "\<And>i. i < length (co_managers c) \<Longrightarrow> same_req rid (co_managers c ! i) (co_managers c' ! i)"
    and "admissible rid b loc ext c"
  shows "admissible rid b loc ext c'"
  using assms
  by (auto simp: admissible_def all_set_conv_all_nth fresh_req_def running_req_def same_req_def co_same_def st_config_def skipped_blocks_def)

lemma commit_slots_fails:
  assumes own: "co_owns ex c" and nm: "no_mamba c" and main: "0 \<le> main" and ext: "loc + ext \<le> need"
    and hits: "hits_ok c (kvm_blocks k b)" "length (co_managers c) \<le> length (kvm_blocks k b)" and req: "admissible (request_id r) b loc ext c"
    and count: "co_get_num_blocks_to_allocate (request_id r) need (kvm_blocks k b) enc (loc + ext) loc main False c = Inr (n, c')"
    and room: "n \<le> co_num_free_blocks c"
    and err: "commit_slots dg r b loc ext need main enc delay k c = Inl ValueError"
  shows "kvm_enable_caching k \<and> \<not> delay \<and> (\<exists>t c. co_cache_blocks dg r t c = Inl ValueError)"
proof -
  let ?a = "if b \<noteq> EmptyKVCacheBlocks \<or> ext > 0 then co_allocate_new_computed_blocks (request_id r) (kvm_blocks k b) loc ext c else Inr c"
  have "?a \<noteq> Inl ValueError \<and> (\<forall>c1. ?a = Inr c1 \<longrightarrow> co_allocate_new_blocks (request_id r) need main enc c1 \<noteq> Inl ValueError)"
  proof (cases "b \<noteq> EmptyKVCacheBlocks \<or> ext > 0")
    case True
    then show ?thesis using co_admits_new [OF own nm main ext _ hits(1) count room] req hits(2) by (auto simp: admissible_def)
  next
    case False
    then have "kvm_blocks k b ! i = []" if "i < length (kvm_blocks k b)" for i using that by (simp add: kvm_blocks_def)
    then show ?thesis using co_admits_running [OF own nm main _ count room] req hits(2) False by (auto simp: admissible_def)
  qed
  then show ?thesis using err by (auto simp: commit_slots_def bindE_eq_Inl split: if_split_asm)
qed

lemma allocate_slots_fails:
  assumes own: "kvm_owns ex k" and nm: "no_mamba (kvm_coordinator k)"
    and hits: "kvm_hits_ok k b" "length (co_managers (kvm_coordinator k)) \<le> length (kvm_blocks k b)"
    and req: "admissible (request_id r) b (num_computed_tokens r + new_comp) ext (kvm_coordinator k)"
    and nn: "0 \<le> num_computed_tokens r + new_comp + ext" "num_computed_tokens r + new_comp + ext \<le> kvm_max_model_len k" "0 \<le> num_new" "0 \<le> lookahead"
      "0 \<le> reserved" "0 \<le> kvm_watermark_blocks k" "\<not> (num_new = 0 \<and> ext = 0)"
    and err: "allocate_slots dg r num_new new_comp b lookahead ext delay enc must_fit reserved scheduled k = Inl ValueError"
  shows "kvm_enable_caching k \<and> \<not> delay \<and> (\<exists>t c. co_cache_blocks dg r t c = Inl ValueError)"
proof -
  let ?c = "kvm_coordinator k" and ?hits = "kvm_blocks k b" and ?loc = "num_computed_tokens r + new_comp"
  let ?tot = "min (?loc + ext) (kvm_max_model_len k)"
  let ?wm = "watermark_for r scheduled k" and ?main = "?tot + num_new"
  let ?need = "min (?main + lookahead) (kvm_max_model_len k)"
  have O: "co_owns ex ?c" using own by (simp add: kvm_owns_def)
  have gate: "full_sequence_fits r ?hits enc ?tot ?loc ?wm k \<noteq> Inl ValueError"
    "full_sequence_fits r ?hits enc ?tot ?loc ?wm k = Inr (fits, c0) \<Longrightarrow> c0 = ?c" for fits c0
    using co_count_same [OF nm] by (auto simp: full_sequence_fits_def Let_def bindE_eq_Inl bindE_eq_Inr)
  obtain c1 need c2 where
    r1: "co_remove_skipped_blocks (request_id r) (max 0 (?tot - num_in_flight_tokens r)) (Some (num_prompt_tokens r)) ?c = Inr c1"
    and r2: "co_get_num_blocks_to_allocate (request_id r) ?need ?hits enc (?loc + ext) ?loc ?main False c1 = Inr (need, c2)"
    and room: "\<not> need + ?wm > co_num_free_blocks c2 - reserved"
    and e: "commit_slots dg r b ?loc ext ?need ?main enc delay k c2 = Inl ValueError"
  proof -
    note S = co_remove_skipped_same [OF O nm]
    have nm1: "no_mamba c1" if "co_remove_skipped_blocks rid n prompt ?c = Inr c1" for rid n prompt c1
      using no_mamba_same [OF co_keepsD(2) [OF co_remove_skipped_keeps [OF O that]] nm] .
    show ?thesis
      using err nn(7) gate S(1) co_count_same(1) [OF nm1]
      by (auto simp: allocate_slots_def Let_def bindE_eq_Inl split: if_split_asm intro: that simp del: min_less_iff_conj)
  qed
  have K: "co_keeps ex ?c c1" using co_remove_skipped_keeps [OF O r1] .
  have nm1: "no_mamba c1" using no_mamba_same [OF co_keepsD(2) [OF K] nm] .
  have c2: "c2 = c1" using co_count_same(2) [OF nm1 r2] .
  have wm: "0 \<le> ?wm" using nn(6) by (simp add: watermark_for_def)
  show ?thesis
  proof (rule commit_slots_fails [OF co_keepsD(1) [OF K] nm1 _ _ _ _ _ r2 [unfolded c2]])
    show "admissible (request_id r) b ?loc ext c1" using admissible_same [OF co_keepsD(2) [OF K] co_remove_skipped_same(2) [OF O nm r1] req] .
    show "hits_ok c1 ?hits" using hits_ok_same [OF O co_keepsD(2) [OF K]] hits(1) by (simp add: kvm_hits_ok_def)
    show "length (co_managers c1) \<le> length ?hits" using hits(2) co_same_simps(3) [OF co_keepsD(2) [OF K]] by simp
    show "commit_slots dg r b ?loc ext ?need ?main enc delay k c1 = Inl ValueError" using e c2 by simp
  qed (use nn wm room c2 in auto)
qed

end
