(* ===== verification/Scenario.thy ===== *)
theory Scenario
  imports Admission
begin

text \<open>
  A concrete run of the KV cache manager that the witnesses share: two groups (full attention and a sliding window of three
  tokens, blocks of two tokens) on one pool of six usable blocks. Request \<^verbatim>\<open>a\<close> with three prompt tokens takes two blocks in each
  group and caches its first block; request \<^verbatim>\<open>b\<close> with the same prompt hits it and takes the rest.
\<close>

definition demo_init :: "kv_manager result" where
  "demo_init = kv_manager_init (demo_cfg\<lparr>cfg_num_blocks := 7\<rparr>) 16 2 2 None True False 0 False False False 1 1 True 0 []"

definition demo_req :: "string \<Rightarrow> request" where
  "demo_req rid = (plain_request rid [1, 2, 3])\<lparr>block_hashes := [[1]]\<rparr>"

abbreviation demo_hits :: kv_cache_blocks where
  "demo_hits \<equiv> KVCacheBlocks [[1], [3]]"

definition demo_allocate :: "string \<Rightarrow> int \<Rightarrow> int \<Rightarrow> kv_cache_blocks \<Rightarrow> kv_manager \<Rightarrow> (kv_cache_blocks option \<times> request \<times> kv_manager) result" where
  "demo_allocate rid num_new hit b k = allocate_slots concat (demo_req rid) num_new hit b 0 0 False 0 False 0 False k"

definition demo_refs :: "kv_manager \<Rightarrow> int list" where
  "demo_refs k = map (\<lambda>b. ref_cnt (blk (co_block_pools (kvm_coordinator k) ! 0) b)) [1..<7]"

text \<open>What the run shows: the blocks of both allocations, the hit, and the reference counts in between and at the end.\<close>

definition demo_run ::
  "(kv_cache_blocks option \<times> int list \<times> bool \<times> kv_cache_blocks \<times> int \<times> bool \<times> kv_cache_blocks option \<times> int list) result" where
  "demo_run =
     bindE demo_init (\<lambda>k0.
     bindE (demo_allocate ''a'' 3 0 EmptyKVCacheBlocks k0) (\<lambda>(b1, _, k1).
     case get_computed_blocks concat False (demo_req ''b'') k1 of
       None \<Rightarrow> Inl RuntimeError
     | Some res \<Rightarrow>
         bindE res (\<lambda>(b, hit, _, _, k2).
         bindE (demo_allocate ''b'' 1 hit b k2) (\<lambda>(b3, _, k3).
           Inr (b1, demo_refs k1, co_kind (kvm_coordinator k1) = Hybrid, b, hit,
                no_mamba (kvm_coordinator k2) \<and> length (co_managers (kvm_coordinator k2)) = 2 \<and> kvm_max_model_len k2 = 16 \<and>
                kvm_watermark_blocks k2 = 0 \<and> admissible ''b'' b hit 0 (kvm_coordinator k2), b3, demo_refs k3)))))"

lemma demo_run_result:
  "demo_run = Inr (Some (KVCacheBlocks [[1, 2], [3, 4]]), [1, 1, 1, 1, 0, 0], True, demo_hits, 2, True,
     Some (KVCacheBlocks [[5], [6]]), [2, 1, 2, 1, 1, 1])"
  by code_simp

text \<open>The states of the run.\<close>

definition demo_states :: "kv_manager \<Rightarrow> kv_manager \<Rightarrow> kv_manager \<Rightarrow> kv_manager \<Rightarrow> bool" where
  "demo_states k0 k1 k2 k3 \<longleftrightarrow> demo_init = Inr k0 \<and>
     (\<exists>r. demo_allocate ''a'' 3 0 EmptyKVCacheBlocks k0 = Inr (Some (KVCacheBlocks [[1, 2], [3, 4]]), r, k1)) \<and>
     demo_refs k1 = [1, 1, 1, 1, 0, 0] \<and> co_kind (kvm_coordinator k1) = Hybrid \<and>
     (\<exists>bd r. get_computed_blocks concat False (demo_req ''b'') k1 = Some (Inr (demo_hits, 2, bd, r, k2))) \<and>
     no_mamba (kvm_coordinator k2) \<and> length (co_managers (kvm_coordinator k2)) = 2 \<and> kvm_max_model_len k2 = 16 \<and>
     kvm_watermark_blocks k2 = 0 \<and> admissible ''b'' demo_hits 2 0 (kvm_coordinator k2) \<and>
     (\<exists>r. demo_allocate ''b'' 1 2 demo_hits k2 = Inr (Some (KVCacheBlocks [[5], [6]]), r, k3)) \<and>
     demo_refs k3 = [2, 1, 2, 1, 1, 1]"

lemma demo_states_exist: "\<exists>k0 k1 k2 k3. demo_states k0 k1 k2 k3"
  using demo_run_result unfolding demo_run_def demo_states_def
  by (fastforce simp: bindE_eq_Inr split: option.split_asm)

lemma demo_cfg_ok:
  "cfg_ok (demo_cfg\<lparr>cfg_num_blocks := n\<rparr>)" "lookup_cfg (demo_cfg\<lparr>cfg_num_blocks := n\<rparr>) 1 2 2"
  "length (cfg_groups (demo_cfg\<lparr>cfg_num_blocks := n\<rparr>)) = 2"
  by (simp_all add: cfg_ok_def lookup_cfg_def demo_cfg_def spec_ok_def effective_block_size_def dcp_world_size_for_kv_cache_spec_def)

lemma demo_reach:
  assumes st: "demo_states k0 k1 k2 k3"
  shows "kvm_reach concat k0 (\<lambda>_ _. 0) k1" and "kvm_reach concat k0 (\<lambda>_ _. 0) k2" and "kvm_reach concat k0 (\<lambda>_ _. 0) k3"
    and "kvm_owns (\<lambda>_ _. 0) k1" and "kvm_owns (\<lambda>_ _. 0) k2" and "kvm_hits_ok k2 demo_hits"
proof -
  have init: "demo_init = Inr k0" using st by (simp add: demo_states_def)
  have O: "kvm_owns (\<lambda>_ _. 0) k0"
    using kv_manager_init_owns [OF demo_cfg_ok(1,2) _ init [unfolded demo_init_def]] demo_cfg_ok(3) by auto
  have len: "kvm_max_model_len k0 = 16" using init by (auto simp: demo_init_def kv_manager_init_def bindE_eq_Inr)
  have req: "num_computed_tokens (demo_req rid) = 0" "num_tokens (demo_req rid) = 3" for rid
    by (simp_all add: demo_req_def plain_request_def)
  have hits: "kvm_hits_ok k0 EmptyKVCacheBlocks" by (simp add: kvm_hits_ok_def hits_ok_def kvm_blocks_def)
  obtain r1 where a: "demo_allocate ''a'' 3 0 EmptyKVCacheBlocks k0 = Inr (Some (KVCacheBlocks [[1, 2], [3, 4]]), r1, k1)"
    using st by (auto simp: demo_states_def)
  show R1: "kvm_reach concat k0 (\<lambda>_ _. 0) k1"
    by (rule kvm_reach.allocate [OF kvm_reach.start hits _ _ _ a [unfolded demo_allocate_def]]) (simp_all add: req len)
  then show O1: "kvm_owns (\<lambda>_ _. 0) k1" using kvm_reach_owns O by blast
  obtain bd r2 where l: "get_computed_blocks concat False (demo_req ''b'') k1 = Some (Inr (demo_hits, 2, bd, r2, k2))"
    using st by (auto simp: demo_states_def)
  show R2: "kvm_reach concat k0 (\<lambda>_ _. 0) k2" by (rule kvm_reach.lookup [OF R1 _ l]) (simp add: req)
  then show O2: "kvm_owns (\<lambda>_ _. 0) k2" using kvm_reach_owns O by blast
  show H: "kvm_hits_ok k2 demo_hits" using get_computed_blocks_spec [OF O1, of "demo_req ''b''" concat False] l by (simp add: req)
  obtain r3 where b: "demo_allocate ''b'' 1 2 demo_hits k2 = Inr (Some (KVCacheBlocks [[5], [6]]), r3, k3)"
    and len2: "kvm_max_model_len k2 = 16" using st by (auto simp: demo_states_def)
  show "kvm_reach concat k0 (\<lambda>_ _. 0) k3"
    by (rule kvm_reach.allocate [OF R2 H _ _ _ b [unfolded demo_allocate_def]]) (simp_all add: req len2)
qed

lemma demo_hybrid_find:
  assumes "demo_states k0 k1 k2 k3"
  shows "\<exists>u. hybrid_find_longest_cache_hit (kvm_coordinator k1) [[1]] 2 = Some (Inr ([[1], [3]], 2, u))"
proof -
  have k: "co_kind (kvm_coordinator k1) = Hybrid" using assms by (simp add: demo_states_def)
  obtain bd r2 where l: "get_computed_blocks concat False (demo_req ''b'') k1 = Some (Inr (demo_hits, 2, bd, r2, k2))"
    using assms by (auto simp: demo_states_def)
  have req: "block_hashes (demo_req ''b'') = [[1]]" "num_tokens (demo_req ''b'') - 1 = 2" by (simp_all add: demo_req_def plain_request_def)
  obtain blocks n u where f: "hybrid_find_longest_cache_hit (kvm_coordinator k1) [[1]] 2 = Some (Inr (blocks, n, u))"
    and c: "create_kv_cache_blocks blocks = demo_hits" "n = 2"
    using l k req by (auto simp: get_computed_blocks_def co_find_longest_cache_hit_def bindE_eq_Inr split: if_split_asm)
  have "blocks = [[1], [3]]" using c(1) by (auto simp: create_kv_cache_blocks_def split: if_split_asm)
  then show ?thesis using f c by blast
qed

end
