(* ===== verification/Spec2Isabelle.thy ===== *)
theory Spec2Isabelle
  imports Sched_Update Scenario
begin

text \<open>
  A verification of the scheduling core of vLLM: the KV cache manager with everything below it, the waiting queues, the
  encoder cache, the stop check and the scheduler that drives them. File names are relative to \<^verbatim>\<open>src/vllm\<close>.

  \<^bold>\<open>The program.\<close> A request is hashed block by block. The scheduler asks the KV cache manager which prefix of the request is cached, and
  asks for slots for the tokens of the next step. The manager forwards both to a coordinator, which has one manager per KV cache group (layers
  with the same attention type) and one or more block pools. A pool owns the blocks: a free list in eviction order, reference
  counts, and an index from block hashes to cached blocks. Waiting requests sit in one of two queues; the
  outputs of multi-modal encoders have a cache of their own.

  \<^bold>\<open>The theories.\<close>
  \<^item> \<^verbatim>\<open>Prelude\<close>: Python exceptions as values (\<^verbatim>\<open>'a result\<close>), loops whose body may raise, Python indexing and slicing, and \<^verbatim>\<open>utils/math_utils.py\<close>.
  \<^item> \<^verbatim>\<open>Free_Queue\<close>: \<^verbatim>\<open>KVCacheBlock\<close> and \<^verbatim>\<open>FreeKVCacheBlockQueue\<close> of \<^verbatim>\<open>v1/core/kv_cache_utils.py\<close>, pointer by pointer over an explicit
    store. \<^verbatim>\<open>Block_Hash\<close>: the hashing functions of the same file. \<^verbatim>\<open>Request\<close>: \<^verbatim>\<open>v1/request.py\<close>.
  \<^item> \<^verbatim>\<open>Block_Map\<close> and \<^verbatim>\<open>Block_Pool\<close>: \<^verbatim>\<open>v1/core/block_pool.py\<close>.
  \<^item> \<^verbatim>\<open>KV_Spec\<close>: the arithmetic of \<^verbatim>\<open>v1/kv_cache_interface.py\<close>. \<^verbatim>\<open>Cache_Hit\<close>, \<^verbatim>\<open>Single_Type\<close>, \<^verbatim>\<open>Mamba\<close> and \<^verbatim>\<open>Managers\<close>: the manager classes of
    \<^verbatim>\<open>v1/core/single_type_kv_cache_manager.py\<close>, their lookups, their block lists per request, the Mamba manager, and the dispatch on the class.
  \<^item> \<^verbatim>\<open>Coordinator\<close>: \<^verbatim>\<open>v1/core/kv_cache_coordinator.py\<close>. \<^verbatim>\<open>KV_Manager\<close>: \<^verbatim>\<open>v1/core/kv_cache_manager.py\<close>.
  \<^item> \<^verbatim>\<open>Lookup\<close> and \<^verbatim>\<open>Admission\<close> hold no code: they show what the lookup of the coordinator returns, and that the count behind admission covers the
    allocation. \<^verbatim>\<open>Scenario\<close> is a concrete run for the witnesses.
  \<^item> \<^verbatim>\<open>Heapq\<close> and \<^verbatim>\<open>Request_Queue\<close>: \<^verbatim>\<open>v1/core/sched/request_queue.py\<close> over Python's \<^verbatim>\<open>heapq\<close>. \<^verbatim>\<open>Sched_Utils\<close>: \<^verbatim>\<open>v1/core/sched/utils.py\<close>.
    \<^verbatim>\<open>Encoder_Cache\<close>: \<^verbatim>\<open>v1/core/encoder_cache_manager.py\<close>.
  \<^item> \<^verbatim>\<open>Runs\<close>: computations that may raise and may not end, and their loops. \<^verbatim>\<open>Scheduler\<close>: \<^verbatim>\<open>schedule\<close> of \<^verbatim>\<open>v1/core/sched/scheduler.py\<close> with everything it
    calls. \<^verbatim>\<open>Sched_Update\<close>: the rest of that class, \<^verbatim>\<open>update_from_output\<close> above all, with the overrides of \<^verbatim>\<open>v1/core/sched/async_scheduler.py\<close>.

  \<^bold>\<open>State and operations.\<close> An object is a record, a method is a function that takes the record and returns it updated, and a raise is
  \<^verbatim>\<open>Inl\<close> of the exception. Blocks are named by their address in the store of a pool, which is the block id. A manager does not contain its
  pool: an operation takes the pool and the manager and returns both, and the coordinator keeps the pools in a list. Python dictionaries are maps, or
  association lists where their order matters. Integers are unbounded as in Python; only packed hash keys have a width.

  \<^bold>\<open>What is shown.\<close>
  \<^item> Below the pool: the pointer operations of the free queue act as list operations; block hashes are injective up to collisions of the hash
    function, and incremental hashing agrees with hashing from scratch.
  \<^item> The pool keeps its invariant \<^verbatim>\<open>pool_rep\<close> (the free list is the set of blocks with reference count zero, and the index agrees with the
    hashes of the blocks), and each operation has its effect.
  \<^item> Each manager keeps the ownership invariant \<^verbatim>\<open>owns\<close>; the locale \<^verbatim>\<open>owned_step\<close> lifts this through the loops of the coordinator, and
    \<^verbatim>\<open>kvm_reach\<close> to all sequences of operations of the KV cache manager. The result is in this theory: reference counts are exact.
  \<^item> The lookups return cached blocks only, the fixed-point loop of the hybrid coordinator ends, and its hit serves every group.
  \<^item> The locale \<^verbatim>\<open>budget_step\<close> shows, loop by loop, that allocations stay within what the count reserved in each pool.
  \<^item> The waiting queues pop what they iterate over and lose nothing; the encoder cache accounts for every slot; the stop check decides as
    documented.
  \<^item> Some properties record defects: colliding hash inputs, two paths that always raise, a counter that grows, a helper that removes too little.

  \<^bold>\<open>Loops and bounds.\<close> There is no fuel. Loops over lists are structural; the loop of the hasher and the fixed-point loop of the hybrid lookup are
  \<^verbatim>\<open>partial_function\<close>s into \<^verbatim>\<open>option\<close>, and that they return is proved.

  \<^bold>\<open>Parameters.\<close> The hash function, the digest of prompt embeddings, the seed of the hash chain, and the environment switch
  for integer hashes are arguments. No law is assumed of the hash function; collisions are a disjunct of the conclusion.

  \<^bold>\<open>Not modelled.\<close>
  \<^item> In the scheduler: KV connectors and encoder-cache connectors with the code that only they reach, statistics and events, routed experts, log
    probabilities. Grammars, the reasoning parser and the report mode of a request are parameters. The engine around the scheduler.
  \<^item> The construction of the KV cache configuration (grouping of layers, page sizes, memory profiling), which depends on tensor types;
    the configuration is the input here.
  \<^item> Metrics, logging and floating-point ratios, which do not influence allocation.
  \<^item> Everything on tensors (models, attention, sampling), transport, third-party grammars, and native code.
\<close>

section \<open>Properties of the KV cache manager\<close>

text \<open>C1: Reference counts are exact. In every state that the KV cache manager reaches from its construction, in every pool, the
  reference count of each block is the number of references that requests, pending copies and callers hold, and the free list holds
  exactly the blocks to which nobody holds a reference: no block leaks, and no block in use can be handed out again.\<close>

theorem reference_counts_are_exact:
  assumes cfg: "cfg_ok cfg" "lookup_cfg cfg dcp sbs hbs" "\<forall>g \<in> set (cfg_groups cfg). length (cfg_groups cfg) = 1 \<longrightarrow> group_pool_id g = 0"
    and init: "kv_manager_init cfg mml sbs hbs mif caching use_eagle npl log events use_int dcp pcp wm_ok wm md = Inr k0"
    and reach: "kvm_reach dg k0 ex k" and i: "i < length (co_block_pools (kvm_coordinator k))"
  shows "\<exists>xs. pool_rep (co_block_pools (kvm_coordinator k) ! i) xs \<and>
    (\<forall>b. 0 < b \<and> b < num_gpu_blocks (co_block_pools (kvm_coordinator k) ! i) \<longrightarrow>
      ref_cnt (blk (co_block_pools (kvm_coordinator k) ! i) b) = ex i b + held (kvm_coordinator k) i b \<and>
      (b \<in> set xs \<longleftrightarrow> ex i b = 0 \<and> held (kvm_coordinator k) i b = 0))"
proof -
  have own: "co_owns ex (kvm_coordinator k)"
    using kvm_ownsD [OF kvm_reach_owns [OF reach kv_manager_init_owns [OF cfg init]]] .
  obtain xs where rep: "pool_rep (co_block_pools (kvm_coordinator k) ! i) xs" using own i by (auto simp: co_owns_def)
  have "0 \<le> ex i b" "0 \<le> held (kvm_coordinator k) i b" for b using own by (simp_all add: co_owns_def held_def sum_nonneg)
  then have "ex i b + held (kvm_coordinator k) i b = 0 \<longleftrightarrow> ex i b = 0 \<and> held (kvm_coordinator k) i b = 0" for b
    using add_nonneg_eq_0_iff by blast
  moreover have "ref_cnt (blk (co_block_pools (kvm_coordinator k) ! i) b) = ex i b + held (kvm_coordinator k) i b"
    if "0 < b" "b < num_gpu_blocks (co_block_pools (kvm_coordinator k) ! i)" for b using own i that by (simp add: co_owns_def)
  ultimately show ?thesis using rep by (auto simp: pool_rep_def refs_ok_def)
qed

theorem reference_counts_are_exact_witness:
  "\<exists>k0 k1 k2 k3 xs. demo_states k0 k1 k2 k3 \<and> pool_rep (co_block_pools (kvm_coordinator k3) ! 0) xs \<and>
    (\<forall>b. 0 < b \<and> b < num_gpu_blocks (co_block_pools (kvm_coordinator k3) ! 0) \<longrightarrow>
      ref_cnt (blk (co_block_pools (kvm_coordinator k3) ! 0) b) = held (kvm_coordinator k3) 0 b \<and>
      (b \<in> set xs \<longleftrightarrow> held (kvm_coordinator k3) 0 b = 0))"
proof -
  obtain k0 k1 k2 k3 where st: "demo_states k0 k1 k2 k3" using demo_states_exist by blast
  have init: "demo_init = Inr k0" using st by (simp add: demo_states_def)
  have "kvm_owns (\<lambda>_ _. 0) k3"
    using kvm_reach_owns [OF demo_reach(3) [OF st] kv_manager_init_owns [OF demo_cfg_ok(1,2) _ init [unfolded demo_init_def]]] demo_cfg_ok(3) by auto
  then have l: "0 < length (co_block_pools (kvm_coordinator k3))" by (simp add: kvm_owns_def num_pools_def)
  have "\<forall>g \<in> set (cfg_groups (demo_cfg\<lparr>cfg_num_blocks := 7\<rparr>)). length (cfg_groups (demo_cfg\<lparr>cfg_num_blocks := 7\<rparr>)) = 1 \<longrightarrow> group_pool_id g = 0"
    unfolding demo_cfg_ok(3) by simp
  from reference_counts_are_exact [OF demo_cfg_ok(1,2) this init [unfolded demo_init_def] demo_reach(3) [OF st] l]
  obtain xs where "pool_rep (co_block_pools (kvm_coordinator k3) ! 0) xs \<and>
    (\<forall>b. 0 < b \<and> b < num_gpu_blocks (co_block_pools (kvm_coordinator k3) ! 0) \<longrightarrow>
      ref_cnt (blk (co_block_pools (kvm_coordinator k3) ! 0) b) = held (kvm_coordinator k3) 0 b \<and>
      (b \<in> set xs \<longleftrightarrow> held (kvm_coordinator k3) 0 b = 0))" by auto
  with st show ?thesis by blast
qed

text \<open>C3: The lookup of the hybrid coordinator ends, and its hit serves every group. The fixed-point loop returns a hit length of at
  most the requested maximum, and for every attention group the returned blocks are those of one lookup of that group that reaches at least the
  hit length (exactly it, unless the group is full attention, where the blocks are cut at the hit length); a group that takes no part in
  prefix caching gets no blocks.\<close>

theorem hybrid_hit_serves_every_group:
  assumes "co_owns ex c" and "lookup_ok c" and "0 \<le> max_len"
  shows "\<exists>r. hybrid_find_longest_cache_hit c hashes max_len = Some r \<and> (\<forall>blocks hit u. r = Inr (blocks, hit, u) \<longrightarrow>
    length blocks = length (co_managers c) \<and> 0 \<le> hit \<and> hit \<le> max_len \<and> 0 \<le> u \<and>
    (\<forall>g \<in> set (co_attention_groups c). group_hit c hashes hit blocks g) \<and>
    (\<forall>i < length blocks. (\<forall>g \<in> set (co_attention_groups c). i \<notin> set (sg_group_ids g)) \<longrightarrow> blocks ! i = []))"
  using assms by (rule hybrid_find_spec)

theorem hybrid_hit_serves_every_group_witness:
  "\<exists>k0 k1 k2 k3. demo_states k0 k1 k2 k3 \<and> (\<forall>g \<in> set (co_attention_groups (kvm_coordinator k1)). group_hit (kvm_coordinator k1) [[1]] 2 [[1], [3]] g)"
proof -
  obtain k0 k1 k2 k3 where st: "demo_states k0 k1 k2 k3" using demo_states_exist by blast
  have k: "co_kind (kvm_coordinator k1) = Hybrid" using st by (simp add: demo_states_def)
  have O: "co_owns (\<lambda>_ _. 0) (kvm_coordinator k1)" "lookup_ok (kvm_coordinator k1)"
    using demo_reach(4) [OF st] k by (simp_all add: kvm_owns_def co_lookup_ok_def)
  obtain u where "hybrid_find_longest_cache_hit (kvm_coordinator k1) [[1]] 2 = Some (Inr ([[1], [3]], 2, u))" using demo_hybrid_find [OF st] by blast
  with hybrid_hit_serves_every_group [OF O, of 2 "[[1]]"] st show ?thesis by auto
qed

text \<open>C4: A prefix-cache lookup returns, and what it returns is well formed: one list of blocks per group, every block a block of the
  group's pool, and a hit length shorter than the request, so that at least one token is left to compute; the manager it leaves
  satisfies the invariant again.\<close>

theorem prefix_lookup_is_well_formed:
  assumes "kvm_owns ex k" and "0 < num_tokens r"
  shows "\<exists>res. get_computed_blocks dg full r k = Some res \<and> (\<forall>b hit boundary r' k'. res = Inr (b, hit, boundary, r', k') \<longrightarrow>
    kvm_owns ex k' \<and> kvm_hits_ok k' b \<and> length (kvm_blocks k' b) = length (kvm_groups k') \<and> 0 \<le> hit \<and> hit < num_tokens r \<and>
    (boundary = 0 \<or> hit < boundary))"
  using assms by (rule get_computed_blocks_spec)

theorem prefix_lookup_is_well_formed_witness:
  "\<exists>k0 k1 k2 k3 bd r. demo_states k0 k1 k2 k3 \<and> get_computed_blocks concat False (demo_req ''b'') k1 = Some (Inr (demo_hits, 2, bd, r, k2)) \<and>
    kvm_owns (\<lambda>_ _. 0) k2 \<and> kvm_hits_ok k2 demo_hits \<and> length (kvm_groups k2) = 2"
proof -
  obtain k0 k1 k2 k3 where st: "demo_states k0 k1 k2 k3" using demo_states_exist by blast
  obtain bd r where l: "get_computed_blocks concat False (demo_req ''b'') k1 = Some (Inr (demo_hits, 2, bd, r, k2))"
    using st by (auto simp: demo_states_def)
  have n: "0 < num_tokens (demo_req ''b'')" by (simp add: demo_req_def plain_request_def)
  have "kvm_owns (\<lambda>_ _. 0) k2 \<and> kvm_hits_ok k2 demo_hits \<and> length (kvm_blocks k2 demo_hits) = length (kvm_groups k2)"
    using prefix_lookup_is_well_formed [OF demo_reach(4) [OF st] n, of concat False] l by simp
  moreover have "length (kvm_blocks k2 demo_hits) = 2" by (simp add: kvm_blocks_def)
  ultimately have k: "kvm_owns (\<lambda>_ _. 0) k2" "kvm_hits_ok k2 demo_hits" "length (kvm_groups k2) = 2" by simp_all
  show ?thesis by (intro exI conjI, rule st, rule l, (rule k)+)
qed



section \<open>Two paths that raise\<close>

text \<open>The coordinator of a model with Mamba layers and a full attention group, with prefix caching on.\<close>

lemma mamba_full_coordinator:
  assumes run: "get_kv_cache_coordinator cfg mml mif use_eagle True events use_int dcp pcp sbs hbs npl = Inr c"
    and mamba: "has_mamba_layers cfg" and g: "g \<in> set (cfg_groups cfg)" "is_full_attention (spec_kind (group_spec g))"
  shows "co_kind c = Hybrid \<and> co_config c = cfg \<and> co_attention_groups c \<noteq> [] \<and> co_full_attention_group_id c \<noteq> None"
proof -
  obtain g' where g': "g' \<in> set (cfg_groups cfg)" "is_mamba (spec_kind (group_spec g'))" using mamba by (auto simp: has_mamba_layers_def)
  have "g \<noteq> g'" using g(2) g'(2) by (cases "spec_kind (group_spec g)") (auto simp: is_full_attention_def is_mamba_def)
  then have "length (cfg_groups cfg) \<noteq> 1" using g(1) g'(1) by (auto simp: length_Suc_conv)
  then obtain c0 where i: "coordinator_init Hybrid cfg mml mif use_eagle True events use_int dcp pcp sbs hbs npl = Inr c0"
    and h: "hybrid_init dcp pcp c0 = Inr c" using run by (auto simp: get_kv_cache_coordinator_def bindE_eq_Inr)
  have c0: "co_config c0 = cfg" "co_kind c0 = Hybrid"
    using i by (auto simp: coordinator_init_def Let_def bindE_eq_Inr split: if_split_asm)
  obtain partial where v: "verify_and_split_kv_cache_groups (settle_alignment partial c0) = Inr c"
    using h by (auto simp: hybrid_init_def Let_def split: if_split_asm)
  have s: "co_config (settle_alignment partial c0) = cfg" "co_kind (settle_alignment partial c0) = Hybrid"
    using c0 by (simp_all add: settle_alignment_def Let_def)
  from split_full_first [OF v, unfolded s, OF g] show ?thesis by blast
qed

text \<open>C39: For a hybrid model with Mamba layers and a full attention group, the lookup for a KV connector raises \<^verbatim>\<open>NameError\<close> for every
  request whose prefix is looked up: the per-group lookup reads a variable that does not exist, and the fallback is never reached.\<close>

theorem connector_lookup_raises_name_error:
  assumes init: "kv_manager_init cfg mml sbs hbs mif True use_eagle npl log events use_int dcp pcp wm_ok wm md = Inr k"
    and cfg: "has_mamba_layers cfg" "g \<in> set (cfg_groups cfg)" "is_full_attention (spec_kind (group_spec g))" and r: "\<not> skip_reading_prefix_cache r"
  shows "get_computed_blocks_for_connector dg full r k = Some (Inl NameError)"
proof -
  obtain mif' where co: "get_kv_cache_coordinator cfg mml mif' use_eagle True events use_int dcp pcp sbs hbs npl = Inr (kvm_coordinator k)"
    and "kvm_enable_caching k" using init by (auto simp: kv_manager_init_def bindE_eq_Inr split: if_split_asm)
  then have look: "prefix_cache_lookup_enabled k r" using r by (simp add: prefix_cache_lookup_enabled_def)
  note C = mamba_full_coordinator [OF co cfg]
  obtain fa where fa: "co_full_attention_group_id (kvm_coordinator k) = Some fa" using C by blast
  have "find_longest_cache_hit_per_group (kvm_coordinator k) hashes n = Inl NameError" for hashes n
    using C by (cases "co_attention_groups (kvm_coordinator k)") (auto simp: find_longest_cache_hit_per_group_def manager_name_def Let_def)
  then show ?thesis using C fa look cfg(1) by (simp add: get_computed_blocks_for_connector_def Let_def)
qed

definition mamba_cfg :: kv_cache_config where
  "mamba_cfg = \<lparr>cfg_num_blocks = 4, cfg_groups =
     [\<lparr>group_spec = \<lparr>spec_kind = FullAttentionSpec, spec_block_size = 2, spec_rest = 0\<rparr>, is_eagle_group = False, group_pool_id = 0\<rparr>,
      \<lparr>group_spec = \<lparr>spec_kind = MambaSpec ''none'' 0 0, spec_block_size = 2, spec_rest = 0\<rparr>, is_eagle_group = False, group_pool_id = 0\<rparr>],
     cfg_retention_interval = None, has_mixed_precision_kv_cache = False\<rparr>"

theorem connector_lookup_raises_name_error_witness:
  "\<exists>k. kv_manager_init mamba_cfg 16 2 2 None True False 0 False False False 1 1 True 0 [] = Inr k \<and>
    get_computed_blocks_for_connector concat False (demo_req ''a'') k = Some (Inl NameError)"
proof -
  have "case kv_manager_init mamba_cfg 16 2 2 None True False 0 False False False 1 1 True 0 [] of Inl _ \<Rightarrow> False | Inr _ \<Rightarrow> True" by code_simp
  then obtain k where k: "kv_manager_init mamba_cfg 16 2 2 None True False 0 False False False 1 1 True 0 [] = Inr k" by (auto split: sum.split_asm)
  have "get_computed_blocks_for_connector concat False (demo_req ''a'') k = Some (Inl NameError)"
    by (rule connector_lookup_raises_name_error [OF k, where g = "hd (cfg_groups mamba_cfg)"])
      (simp_all add: mamba_cfg_def has_mamba_layers_def is_mamba_def is_full_attention_def demo_req_def plain_request_def)
  with k show ?thesis by blast
qed


definition sink_cfg :: kv_cache_config where
  "sink_cfg = \<lparr>cfg_num_blocks = 4, cfg_groups =
     [\<lparr>group_spec = \<lparr>spec_kind = SinkFullAttentionSpec (Some 2), spec_block_size = 2, spec_rest = 0\<rparr>, is_eagle_group = False, group_pool_id = 0\<rparr>],
     cfg_retention_interval = None, has_mixed_precision_kv_cache = False\<rparr>"


end
